(* ===== verification/Prelude.thy ===== *)
theory Prelude
  imports Complex_Main "HOL-Library.Multiset" "HOL-Library.Char_ord" "HOL-Library.List_Lexorder"
begin

text \<open>
  Shared vocabulary of the development: the exceptions of the service, results as sums,
  the parts of Python's \<^verbatim>\<open>str\<close> and \<^verbatim>\<open>uuid\<close> modules the sources use, and the generic
  lemmas on lists and results the components rely on.

  A Python \<^verbatim>\<open>str\<close> is represented by its UTF-8 encoding, a \<^typ>\<open>string\<close> whose characters
  are bytes. The character classes below (white space, letters) are those of ASCII; every
  byte of a non-ASCII code point lies above 127 and belongs to none of them. So
  \<^verbatim>\<open>lower\<close> leaves non-ASCII letters alone and \<^verbatim>\<open>strip\<close> does not remove Unicode white space.
\<close>

section \<open>Types and collections\<close>

type_synonym uuid = nat
type_synonym datetime = int \<comment> \<open>microseconds since the Unix epoch, an aware instant\<close>

named_theorems exc_simps \<open>unfolding rules for computations that may raise\<close>
named_theorems py_simps \<open>evaluation rules for Python string primitives\<close>

section \<open>Exceptions and results\<close>

datatype exn =
    ValueError
  | ValidationError
  | TypeError
  | KeyError
  | NotFoundError
  | CursorExpiredError
  | RateLimitError
  | RateLimitUnavailableError
  | ExternalServiceError
  | IntegrityError
  | DataError
  | RedisError
  | SearchLegFailedError
  | IndexError
  | ConflictError
  | PIIUnavailableError
  | PayloadTooLargeError
  | RuntimeError
  | AuthenticationError
  | AuthorizationError
  | CacheUnavailableError
  | HTTPException nat

type_synonym 'a res = "exn + 'a"

fun exc_bind :: "'a res \<Rightarrow> ('a \<Rightarrow> 'b res) \<Rightarrow> 'b res" where
  "exc_bind (Inl e) f = Inl e"
| "exc_bind (Inr x) f = f x"

text \<open>A loop whose body may raise: the first exception ends it.\<close>

fun exc_fold :: "('x \<Rightarrow> 's \<Rightarrow> 's res) \<Rightarrow> 'x list \<Rightarrow> 's \<Rightarrow> 's res" where
  "exc_fold f [] s = Inr s"
| "exc_fold f (x # xs) s = exc_bind (f x s) (exc_fold f xs)"

fun exc_map :: "('x \<Rightarrow> 'y res) \<Rightarrow> 'x list \<Rightarrow> 'y list res" where
  "exc_map f [] = Inr []"
| "exc_map f (x # xs) = exc_bind (f x) (\<lambda>y. exc_bind (exc_map f xs) (\<lambda>ys. Inr (y # ys)))"

lemma exc_bind_Inr_iff [exc_simps]:
  "exc_bind m f = Inr y \<longleftrightarrow> (\<exists>x. m = Inr x \<and> f x = Inr y)"
  by (cases m) auto

lemma exc_bind_Inl_iff:
  "exc_bind m f = Inl e \<longleftrightarrow> m = Inl e \<or> (\<exists>x. m = Inr x \<and> f x = Inl e)"
  by (cases m) auto

lemma exc_bind_assoc: "exc_bind (exc_bind m f) g = exc_bind m (\<lambda>x. exc_bind (f x) g)"
  by (cases m) auto

lemma exc_fold_append: "exc_fold f (xs @ ys) s = exc_bind (exc_fold f xs s) (exc_fold f ys)"
proof (induction xs arbitrary: s)
  case Nil
  then show ?case by simp
next
  case (Cons x xs)
  then have "exc_fold f (xs @ ys) = (\<lambda>u. exc_bind (exc_fold f xs u) (exc_fold f ys))" by (intro ext)
  then show ?case by (simp add: exc_bind_assoc)
qed

text \<open>Invariants of a raising loop, by induction on the list it runs over.\<close>

lemma exc_fold_invariant:
  assumes "exc_fold f xs s = Inr t" and "I s"
    and "\<And>x u v. x \<in> set xs \<Longrightarrow> I u \<Longrightarrow> f x u = Inr v \<Longrightarrow> I v"
  shows "I t"
  using assms
proof (induction xs arbitrary: s)
  case Nil
  then show ?case by simp
next
  case (Cons x xs)
  from Cons.prems(1) obtain u where u: "f x s = Inr u" "exc_fold f xs u = Inr t"
    by (auto simp: exc_bind_Inr_iff)
  have "I u" using Cons.prems(3)[OF _ Cons.prems(2) u(1)] by simp
  show ?case by (rule Cons.IH[OF u(2) \<open>I u\<close>]) (auto intro: Cons.prems(3))
qed

text \<open>A loop whose every pass adds one to a measure adds the length of the list.\<close>

lemma exc_fold_count:
  fixes m :: "'s \<Rightarrow> nat"
  assumes "exc_fold f xs s = Inr t" and "I s"
    and "\<And>x u v. x \<in> set xs \<Longrightarrow> I u \<Longrightarrow> f x u = Inr v \<Longrightarrow> I v \<and> m v = Suc (m u)"
  shows "m t = m s + length xs"
  using assms
proof (induction xs arbitrary: s)
  case Nil
  then show ?case by simp
next
  case (Cons x xs)
  from Cons.prems(1) obtain u where u: "f x s = Inr u" "exc_fold f xs u = Inr t"
    by (auto simp: exc_bind_Inr_iff)
  have "I u" "m u = Suc (m s)" using Cons.prems(3)[OF _ Cons.prems(2) u(1)] by simp_all
  moreover have "m t = m u + length xs"
    by (rule Cons.IH[OF u(2) \<open>I u\<close>]) (rule Cons.prems(3), simp_all)
  ultimately show ?case by simp
qed

lemma exc_map_length: "exc_map f xs = Inr ys \<Longrightarrow> length ys = length xs"
  by (induction xs arbitrary: ys) (auto simp: exc_bind_Inr_iff)

lemma exc_map_Inr_iff: "exc_map f xs = Inr ys \<longleftrightarrow> list_all2 (\<lambda>x y. f x = Inr y) xs ys"
proof (induction xs arbitrary: ys)
  case Nil
  then show ?case by auto
next
  case (Cons x xs)
  then show ?case by (cases ys) (auto simp: exc_bind_Inr_iff)
qed

lemma exc_map_set:
  assumes "exc_map f xs = Inr ys" and "y \<in> set ys"
  shows "\<exists>x \<in> set xs. f x = Inr y"
  using assms unfolding exc_map_Inr_iff list_all2_conv_all_nth in_set_conv_nth
  by (metis nth_mem)

text \<open>
  Code whose exceptions leave earlier effects in place (calls to Redis, to a queue, to a
  backend): a step returns a result and the new state, also when it raises.
\<close>

type_synonym ('s, 'a) sx = "'s \<Rightarrow> 'a res \<times> 's"

definition sx_return :: "'a \<Rightarrow> ('s, 'a) sx" where
  "sx_return x s = (Inr x, s)"

definition sx_raise :: "exn \<Rightarrow> ('s, 'a) sx" where
  "sx_raise e s = (Inl e, s)"

definition sx_bind :: "('s, 'a) sx \<Rightarrow> ('a \<Rightarrow> ('s, 'b) sx) \<Rightarrow> ('s, 'b) sx" where
  "sx_bind m f s = (case m s of (Inl e, t) \<Rightarrow> (Inl e, t) | (Inr x, t) \<Rightarrow> f x t)"

fun sx_for :: "('x \<Rightarrow> ('s, unit) sx) \<Rightarrow> 'x list \<Rightarrow> ('s, unit) sx" where
  "sx_for f [] s = (Inr (), s)"
| "sx_for f (x # xs) s = (case f x s of (Inl e, t) \<Rightarrow> (Inl e, t) | (Inr _, t) \<Rightarrow> sx_for f xs t)"

text \<open>\<^verbatim>\<open>try: m except Exception: h\<close>, with what \<open>m\<close> did before it raised kept.\<close>

definition sx_catch :: "('s, 'a) sx \<Rightarrow> (exn \<Rightarrow> ('s, 'a) sx) \<Rightarrow> ('s, 'a) sx" where
  "sx_catch m h s = (case m s of (Inl e, t) \<Rightarrow> h e t | (Inr x, t) \<Rightarrow> (Inr x, t))"

lemma sx_bind_Inr_iff [exc_simps]:
  "sx_bind m f s = (Inr y, t) \<longleftrightarrow> (\<exists>x u. m s = (Inr x, u) \<and> f x u = (Inr y, t))"
  by (auto simp: sx_bind_def split: prod.splits sum.splits)

lemma sx_simps [exc_simps]:
  "sx_return x s = (Inr x, s)" "sx_raise e s = (Inl e, s)"
  "m s = (Inr x, t) \<Longrightarrow> sx_bind m f s = f x t" "m s = (Inl e, t) \<Longrightarrow> sx_bind m f s = (Inl e, t)"
  by (simp_all add: sx_return_def sx_raise_def sx_bind_def)

text \<open>A loop whose body never raises runs to its end.\<close>

lemma sx_for_total:
  assumes "\<And>x u. x \<in> set xs \<Longrightarrow> f x u = (Inr (), g x u)"
  shows "sx_for f xs s = (Inr (), fold g xs s)"
  using assms by (induction xs arbitrary: s) auto

lemma sx_for_invariant:
  assumes "\<And>x u r v. x \<in> set xs \<Longrightarrow> I u \<Longrightarrow> f x u = (r, v) \<Longrightarrow> I v" and "I s" and "sx_for f xs s = (r, t)"
  shows "I t"
  using assms
proof (induction xs arbitrary: s)
  case Nil
  then show ?case by simp
next
  case (Cons x xs)
  obtain r1 u where u: "f x s = (r1, u)" by fastforce
  then have "I u" using Cons.prems(1)[of x s r1 u] Cons.prems(2) by simp
  then show ?case using Cons.IH[of u] Cons.prems u by (cases r1) auto
qed

section \<open>Characters and strings\<close>

abbreviation code :: "char \<Rightarrow> nat" where
  "code c \<equiv> of_char c"

definition py_isspace :: "char \<Rightarrow> bool" where
  "py_isspace c \<longleftrightarrow> code c = 32 \<or> (9 \<le> code c \<and> code c \<le> 13) \<or> (28 \<le> code c \<and> code c \<le> 31)"

definition py_lower_char :: "char \<Rightarrow> char" where
  "py_lower_char c = (if 65 \<le> code c \<and> code c \<le> 90 then char_of (code c + 32) else c)"

definition py_lower :: "string \<Rightarrow> string" where
  "py_lower s = map py_lower_char s"

definition py_strip :: "string \<Rightarrow> string" where
  "py_strip s = rev (dropWhile py_isspace (rev (dropWhile py_isspace s)))"

definition py_rstrip_char :: "char \<Rightarrow> string \<Rightarrow> string" where
  "py_rstrip_char c s = rev (dropWhile (\<lambda>x. x = c) (rev s))"

text \<open>\<^verbatim>\<open>str.partition\<close> and \<^verbatim>\<open>str.rpartition\<close> on a one-character separator.\<close>

fun py_partition :: "char \<Rightarrow> string \<Rightarrow> string \<times> string \<times> string" where
  "py_partition s [] = ([], [], [])"
| "py_partition s (c # cs) =
     (if c = s then ([], [c], cs)
      else (case py_partition s cs of (b, m, a) \<Rightarrow> (c # b, m, a)))"

definition py_rpartition :: "char \<Rightarrow> string \<Rightarrow> string \<times> string \<times> string" where
  "py_rpartition s xs =
     (case py_partition s (rev xs) of (b, m, a) \<Rightarrow>
        if m = [] then ([], [], xs) else (rev a, m, rev b))"

text \<open>\<^verbatim>\<open>s.replace(pat, '')\<close> for a non-empty pattern.\<close>

function py_remove :: "string \<Rightarrow> string \<Rightarrow> string" where
  "py_remove pat s =
     (if pat = [] \<or> s = [] then s
      else if take (length pat) s = pat then py_remove pat (drop (length pat) s)
      else hd s # py_remove pat (tl s))"
  by pat_completeness auto
termination
  by (relation "measure (\<lambda>(pat, s). length s)") auto

declare py_remove.simps [simp del]

text \<open>\<^verbatim>\<open>s.split(c)\<close> on a one-character separator, and \<^verbatim>\<open>str(i)\<close> of an integer.\<close>

fun py_split :: "char \<Rightarrow> string \<Rightarrow> string list" where
  "py_split s [] = [[]]"
| "py_split s (c # cs) =
     (if c = s then [] # py_split s cs else (case py_split s cs of [] \<Rightarrow> [[c]] | w # ws \<Rightarrow> (c # w) # ws))"

fun py_digits :: "nat \<Rightarrow> string" where
  "py_digits n = (if n < 10 then [char_of (48 + n)] else py_digits (n div 10) @ [char_of (48 + n mod 10)])"

declare py_digits.simps [simp del]

definition py_str_int :: "int \<Rightarrow> string" where
  "py_str_int i = (if i < 0 then CHR ''-'' # py_digits (nat (- i)) else py_digits (nat i))"

lemma code_lt_256 [simp]: "code c < 256"
  using of_char_mod_256[of c, where 'a = nat] by (metis mod_less_divisor zero_less_numeral)

lemma char_of_code [simp]: "char_of (code c) = c"
  by (rule char_of_char)

lemma code_char_of [simp]: "n < 256 \<Longrightarrow> code (char_of n) = n"
  by simp

lemma py_lower_char_idem [simp]: "py_lower_char (py_lower_char c) = py_lower_char c"
  by (auto simp: py_lower_char_def)

lemma py_lower_idem [simp]: "py_lower (py_lower s) = py_lower s"
  by (simp add: py_lower_def)

lemma py_lower_append: "py_lower (s @ t) = py_lower s @ py_lower t"
  by (simp add: py_lower_def)

lemma py_partition_found:
  "s \<notin> set pre \<Longrightarrow> py_partition s (pre @ s # post) = (pre, [s], post)"
  by (induction pre) auto

lemma py_partition_not_found: "s \<notin> set xs \<Longrightarrow> py_partition s xs = (xs, [], [])"
  by (induction xs) auto

lemma py_rpartition_found:
  "s \<notin> set post \<Longrightarrow> py_rpartition s (pre @ s # post) = (pre, [s], post)"
  by (simp add: py_rpartition_def py_partition_found)

lemma py_partition_eq: "py_partition s xs = (b, m, a) \<Longrightarrow> xs = b @ m @ a"
  by (induction xs arbitrary: b) (auto split: if_splits prod.splits)

lemma py_remove_absent:
  assumes "c \<notin> set s"
  shows "py_remove (c # pat) s = s"
  using assms
proof (induction "c # pat" s rule: py_remove.induct)
  case (1 s)
  show ?case
  proof (cases s)
    case Nil
    then show ?thesis by (simp add: py_remove.simps)
  next
    case (Cons x xs)
    then have "take (length (c # pat)) s \<noteq> c # pat" using "1.prems" by auto
    with Cons 1 show ?thesis by (subst py_remove.simps) auto
  qed
qed

lemma length_filter_mono: "(\<And>x. x \<in> set xs \<Longrightarrow> P x \<Longrightarrow> Q x) \<Longrightarrow> length (filter P xs) \<le> length (filter Q xs)"
  by (induction xs) auto

lemma dropWhile_id: "(\<And>x. x \<in> set xs \<Longrightarrow> \<not> P x) \<Longrightarrow> dropWhile P xs = xs"
  by (cases xs) auto

lemma py_strip_id:
  assumes "\<And>x. x \<in> set s \<Longrightarrow> \<not> py_isspace x"
  shows "py_strip s = s"
  using dropWhile_id[of s py_isspace] dropWhile_id[of "rev s" py_isspace] assms
  by (simp add: py_strip_def)

lemma set_py_strip: "set (py_strip s) \<subseteq> set s"
  by (auto simp: py_strip_def dest!: set_dropWhileD)

lemma dropWhile_idem: "dropWhile P (dropWhile P xs) = dropWhile P xs"
  by (induction xs) auto

text \<open>Stripping on both sides leaves nothing to strip: \<^verbatim>\<open>s.strip().strip() == s.strip()\<close>.\<close>

lemma dropWhile_rev_dropWhile:
  "dropWhile P (rev (dropWhile P (rev (dropWhile P xs)))) = rev (dropWhile P (rev (dropWhile P xs)))"
proof (cases "dropWhile P xs")
  case Nil
  then show ?thesis by (simp only: Nil) simp
next
  case (Cons y ys)
  then have "\<not> P y" by (metis hd_dropWhile list.discI list.sel(1))
  then have "dropWhile P (rev ys @ [y]) = dropWhile P (rev ys) @ [y]"
    by (auto simp: dropWhile_append dropWhile_append1)
  with \<open>\<not> P y\<close> show ?thesis unfolding Cons by simp
qed

lemma py_strip_idem [simp]: "py_strip (py_strip s) = py_strip s"
  unfolding py_strip_def by (simp add: dropWhile_rev_dropWhile dropWhile_idem)

text \<open>A number is determined by its decimal text.\<close>

lemma py_digits_chars: "c \<in> set (py_digits n) \<Longrightarrow> 48 \<le> code c \<and> code c \<le> 57"
proof (induction n rule: py_digits.induct)
  case (1 n)
  show ?case
  proof (cases "n < 10")
    case True
    then show ?thesis using 1(2) by (subst (asm) py_digits.simps) auto
  next
    case False
    have "n mod 10 < 10" by simp
    then show ?thesis using 1 False by (subst (asm) (2) py_digits.simps) auto
  qed
qed

lemma py_digits_inj: "py_digits m = py_digits n \<Longrightarrow> m = n"
proof (induction m arbitrary: n rule: py_digits.induct)
  case (1 m)
  have ne: "py_digits k \<noteq> []" for k by (subst py_digits.simps) simp
  have lastc: "code (List.last (py_digits k)) = 48 + k mod 10" for k
    by (subst py_digits.simps) (simp add: mod_less)
  have mod: "m mod 10 = n mod 10" using lastc[of m] lastc[of n] 1(2) by simp
  have but: "butlast (py_digits k) = (if k < 10 then [] else py_digits (k div 10))" for k
    by (subst py_digits.simps) simp
  have bl: "(if m < 10 then [] else py_digits (m div 10)) = (if n < 10 then [] else py_digits (n div 10))"
    using but[of m] but[of n] 1(2) by simp
  show ?case
  proof (cases "m < 10")
    case True
    then have "n < 10" using bl ne[of "n div 10"] by (auto split: if_splits)
    then show ?thesis using True mod by simp
  next
    case False
    then have n: "\<not> n < 10" using bl ne[of "m div 10"] by (auto split: if_splits)
    then have "m div 10 = n div 10" using 1(1)[OF False, of "n div 10"] bl False by simp
    then show ?thesis using mod by (metis div_mult_mod_eq)
  qed
qed

lemma py_str_int_chars: "c \<in> set (py_str_int i) \<Longrightarrow> c = CHR ''-'' \<or> 48 \<le> code c \<and> code c \<le> 57"
  by (auto simp: py_str_int_def dest: py_digits_chars split: if_splits)

lemma py_str_int_inj: "py_str_int i = py_str_int j \<Longrightarrow> i = j"
proof -
  assume eq: "py_str_int i = py_str_int j"
  have "CHR ''-'' \<notin> set (py_digits n)" for n using py_digits_chars[of "CHR ''-''" n] by auto
  then have ne: "CHR ''-'' # xs \<noteq> py_digits n" for n xs by (metis list.set_intros(1))
  show "i = j"
  proof (cases "i < 0")
    case True
    then have "j < 0" using eq ne[of "py_digits (nat (- i))" "nat j"] by (auto simp: py_str_int_def split: if_splits)
    then have "nat (- i) = nat (- j)" using eq True by (simp add: py_str_int_def py_digits_inj)
    then show ?thesis using True \<open>j < 0\<close> by simp
  next
    case False
    then have "\<not> j < 0" using eq ne[of "py_digits (nat (- j))" "nat i", symmetric] by (auto simp: py_str_int_def split: if_splits)
    then have "nat i = nat j" using eq False by (simp add: py_str_int_def py_digits_inj)
    then show ?thesis using False \<open>\<not> j < 0\<close> by simp
  qed
qed

section \<open>UTF-8\<close>

definition utf8_cont :: "char \<Rightarrow> bool" where
  "utf8_cont c \<longleftrightarrow> 128 \<le> code c \<and> code c \<le> 191"

text \<open>
  The strict decoder of \<^verbatim>\<open>bytes.decode()\<close> accepts the well-formed sequences of RFC 3629 (no
  overlong forms, no surrogates, nothing above U+10FFFF): \<open>need\<close> continuation bytes are
  outstanding, the next one within \<open>lo\<close> and \<open>hi\<close>.
\<close>

fun utf8_run :: "nat \<Rightarrow> nat \<Rightarrow> nat \<Rightarrow> string \<Rightarrow> bool" where
  "utf8_run need lo hi [] \<longleftrightarrow> need = 0"
| "utf8_run need lo hi (a # r) \<longleftrightarrow>
     (if need = 0 then
        (if code a < 128 then utf8_run 0 128 191 r
         else if 194 \<le> code a \<and> code a \<le> 223 then utf8_run 1 128 191 r
         else if code a = 224 then utf8_run 2 160 191 r
         else if code a = 237 then utf8_run 2 128 159 r
         else if 225 \<le> code a \<and> code a \<le> 239 then utf8_run 2 128 191 r
         else if code a = 240 then utf8_run 3 144 191 r
         else if 241 \<le> code a \<and> code a \<le> 243 then utf8_run 3 128 191 r
         else if code a = 244 then utf8_run 3 128 143 r
         else False)
      else lo \<le> code a \<and> code a \<le> hi \<and> utf8_run (need - 1) 128 191 r)"

definition utf8_valid :: "string \<Rightarrow> bool" where
  "utf8_valid s \<longleftrightarrow> utf8_run 0 128 191 s"

text \<open>\<^verbatim>\<open>len(s)\<close> counts code points, the bytes that are not continuation bytes.\<close>

definition py_len :: "string \<Rightarrow> nat" where
  "py_len s = length (filter (\<lambda>c. \<not> utf8_cont c) s)"

definition py_decode :: "string \<Rightarrow> string res" where
  "py_decode bs = (if utf8_valid bs then Inr bs else Inl ValueError)"

lemma py_len_ascii: "(\<And>c. c \<in> set s \<Longrightarrow> code c < 128) \<Longrightarrow> py_len s = length s"
  unfolding py_len_def by (intro arg_cong[of _ _ length] filter_True) (force simp: utf8_cont_def)

lemma utf8_run_append:
  "utf8_run need lo hi s \<Longrightarrow> utf8_run 0 128 191 t \<Longrightarrow> utf8_run need lo hi (s @ t)"
proof (induction s arbitrary: need lo hi)
  case Nil
  then show ?case by (cases t) auto
next
  case (Cons a s)
  then show ?case by (simp split: if_splits)
qed

lemma utf8_valid_append: "utf8_valid s \<Longrightarrow> utf8_valid t \<Longrightarrow> utf8_valid (s @ t)"
  by (simp add: utf8_valid_def utf8_run_append)

lemma utf8_valid_ascii: "(\<And>c. c \<in> set s \<Longrightarrow> code c < 128) \<Longrightarrow> utf8_valid s"
  unfolding utf8_valid_def by (induction s) auto

section \<open>Stable sorting by a relation\<close>

fun insort_wrt :: "('a \<Rightarrow> 'a \<Rightarrow> bool) \<Rightarrow> 'a \<Rightarrow> 'a list \<Rightarrow> 'a list" where
  "insort_wrt le x [] = [x]"
| "insort_wrt le x (y # ys) = (if le x y then x # y # ys else y # insort_wrt le x ys)"

fun sort_wrt :: "('a \<Rightarrow> 'a \<Rightarrow> bool) \<Rightarrow> 'a list \<Rightarrow> 'a list" where
  "sort_wrt le [] = []"
| "sort_wrt le (x # xs) = insort_wrt le x (sort_wrt le xs)"

lemma mset_insort_wrt [simp]: "mset (insort_wrt le x ys) = add_mset x (mset ys)"
  by (induction ys) auto

lemma mset_sort_wrt [simp]: "mset (sort_wrt le xs) = mset xs"
  by (induction xs) auto

lemma set_sort_wrt [simp]: "set (sort_wrt le xs) = set xs"
  by (metis mset_sort_wrt set_mset_mset)

lemma length_sort_wrt [simp]: "length (sort_wrt le xs) = length xs"
  by (metis mset_sort_wrt size_mset)

lemma distinct_sort_wrt [simp]: "distinct (sort_wrt le xs) = distinct xs"
  by (metis mset_sort_wrt mset_eq_imp_distinct_iff)

lemma set_insort_wrt [simp]: "set (insort_wrt le x ys) = insert x (set ys)"
  by (induction ys) auto

text \<open>The relations the code sorts by are total preorders on the rows.\<close>

definition preorder_total :: "('a \<Rightarrow> 'a \<Rightarrow> bool) \<Rightarrow> bool" where
  "preorder_total le \<longleftrightarrow> (\<forall>x y. le x y \<or> le y x) \<and> (\<forall>x y z. le x y \<longrightarrow> le y z \<longrightarrow> le x z)"

lemma preorder_total_key: "preorder_total (\<lambda>x y. (k x :: 'k :: linorder) \<le> k y)"
  by (auto simp: preorder_total_def)

lemma preorder_total_key_desc: "preorder_total (\<lambda>x y. (k y :: 'k :: linorder) \<le> k x)"
  by (auto simp: preorder_total_def)

lemma sorted_insort_wrt:
  assumes "preorder_total le" and "sorted_wrt le ys"
  shows "sorted_wrt le (insort_wrt le x ys)"
  using assms(2)
proof (induction ys)
  case Nil
  then show ?case by simp
next
  case (Cons y ys)
  have tot: "\<And>a b. le a b \<or> le b a" and tr: "\<And>a b c. le a b \<Longrightarrow> le b c \<Longrightarrow> le a c"
    using assms(1) unfolding preorder_total_def by blast+
  show ?case
  proof (cases "le x y")
    case True
    then show ?thesis using Cons.prems tr by auto
  next
    case False
    then have "le y x" using tot by blast
    then show ?thesis using Cons False by auto
  qed
qed

lemma sorted_sort_wrt: "preorder_total le \<Longrightarrow> sorted_wrt le (sort_wrt le xs)"
  by (induction xs) (auto simp: sorted_insort_wrt)

text \<open>Two sorted lists with the same elements are equal when ties are impossible.\<close>

lemma sorted_wrt_unique:
  assumes "sorted_wrt le xs" "sorted_wrt le ys" "mset xs = mset ys"
    and anti: "\<And>x y. x \<in> set xs \<Longrightarrow> y \<in> set xs \<Longrightarrow> le x y \<Longrightarrow> le y x \<Longrightarrow> x = y"
  shows "xs = ys"
  using assms
proof (induction xs arbitrary: ys)
  case Nil
  then show ?case by simp
next
  case (Cons x xs)
  then obtain y zs where ys: "ys = y # zs" by (cases ys) auto
  have sets: "set (x # xs) = set ys" using Cons.prems(3) by (metis set_mset_mset)
  have "x = y"
  proof (rule ccontr)
    assume "x \<noteq> y"
    then have "y \<in> set xs" "x \<in> set zs" using sets ys by auto
    then have "le x y" "le y x" using Cons.prems(1,2) ys by auto
    then show False using \<open>x \<noteq> y\<close> Cons.prems(4)[of x y] \<open>y \<in> set xs\<close> by simp
  qed
  then show ?case using Cons.IH[of zs] Cons.prems ys by auto
qed

end
