(* ===== verification/Sorting.thy ===== *)
theory Sorting
  imports Prelude
begin

text \<open>
  Ordering of list endpoints: \<^verbatim>\<open>src/core/sorting.py\<close>. A validated sort request, its
  effective key and direction, and the resolver that turns it into ORDER BY clauses over a
  whitelist of columns, always with the primary key as tie break. The clauses are given the
  meaning SQL gives them (\<open>order_rows\<close>), and the lemmas show that only whitelisted columns
  are ever used and that the order of the result does not depend on the order in which the
  database scans the table.
\<close>

section \<open>Column values\<close>

text \<open>
  Values of the sortable columns. In an ascending order NULL comes last, in a descending one
  first, as PostgreSQL sorts by default; text is compared bytewise (the C collation).
\<close>

datatype sval = SInt int | SRat rat | SStr string | SNull

fun sval_le :: "sval \<Rightarrow> sval \<Rightarrow> bool" where
  "sval_le (SInt a) (SInt b) = (a \<le> b)"
| "sval_le (SInt a) _ = True"
| "sval_le (SRat a) (SInt b) = False"
| "sval_le (SRat a) (SRat b) = (a \<le> b)"
| "sval_le (SRat a) _ = True"
| "sval_le (SStr a) (SStr b) = (a \<le> b)"
| "sval_le (SStr a) SNull = True"
| "sval_le (SStr a) _ = False"
| "sval_le SNull SNull = True"
| "sval_le SNull _ = False"

lemma sval_le_refl: "sval_le a a"
  by (cases a) auto

lemma sval_le_total: "sval_le a b \<or> sval_le b a"
  by (cases a; cases b) auto

lemma sval_le_trans: "sval_le a b \<Longrightarrow> sval_le b c \<Longrightarrow> sval_le a c"
  by (cases a; cases b; cases c) auto

lemma sval_le_antisym: "sval_le a b \<Longrightarrow> sval_le b a \<Longrightarrow> a = b"
  by (cases a; cases b) auto

instantiation sval :: linorder
begin

definition less_eq_sval :: "sval \<Rightarrow> sval \<Rightarrow> bool" where
  "less_eq_sval a b = sval_le a b"

definition less_sval :: "sval \<Rightarrow> sval \<Rightarrow> bool" where
  "less_sval a b = (sval_le a b \<and> \<not> sval_le b a)"

instance
proof
  fix a b c :: sval
  show "(a < b) = (a \<le> b \<and> \<not> b \<le> a)" by (simp add: less_sval_def less_eq_sval_def)
  show "a \<le> a" by (simp add: less_eq_sval_def sval_le_refl)
  show "a \<le> b \<Longrightarrow> b \<le> c \<Longrightarrow> a \<le> c" unfolding less_eq_sval_def by (rule sval_le_trans)
  show "a \<le> b \<Longrightarrow> b \<le> a \<Longrightarrow> a = b" unfolding less_eq_sval_def by (rule sval_le_antisym)
  show "a \<le> b \<or> b \<le> a" unfolding less_eq_sval_def by (rule sval_le_total)
qed

end

section \<open>Sort requests\<close>

record sort_spec =
  sort_by :: "string option"
  sort_dir :: string

definition default_sort_spec :: sort_spec where
  "default_sort_spec = \<lparr>sort_by = None, sort_dir = ''asc''\<rparr>"

definition effective :: "sort_spec \<Rightarrow> string \<Rightarrow> string \<Rightarrow> string \<times> string" where
  "effective spec default_sort default_dir =
     (case sort_by spec of
        None \<Rightarrow> (default_sort, default_dir)
      | Some k \<Rightarrow> (k, sort_dir spec))"

text \<open>An ORDER BY clause: a column and whether it is ascending.\<close>

datatype 'c clause = Asc 'c | Desc 'c

definition resolve_order_by ::
  "(string \<rightharpoonup> 'c) \<Rightarrow> 'c \<Rightarrow> string option \<Rightarrow> string \<Rightarrow> string \<Rightarrow> string \<Rightarrow> 'c clause list res" where
  "resolve_order_by sortable id_column sby sdir default_sort_by default_dir =
     (let key = (case sby of Some k \<Rightarrow> k | None \<Rightarrow> default_sort_by)
      in case sortable key of
           None \<Rightarrow> Inl ValidationError
         | Some column \<Rightarrow>
             if sdir \<notin> {''asc'', ''desc''} then Inl ValidationError
             else if sortable default_sort_by = None then Inl ValidationError
             else if default_dir \<notin> {''asc'', ''desc''} then Inl ValidationError
             else
               (let effective_dir = (if sby \<noteq> None then sdir else default_dir);
                    primary = (if effective_dir = ''asc'' then Asc column else Desc column)
                in Inr (if column \<noteq> id_column \<and> key \<noteq> ''id'' then [primary, Asc id_column]
                        else [primary])))"

section \<open>What the clauses mean\<close>

fun clause_lt :: "('r \<Rightarrow> 'c \<Rightarrow> sval) \<Rightarrow> 'c clause \<Rightarrow> 'r \<Rightarrow> 'r \<Rightarrow> bool" where
  "clause_lt col (Asc c) r s = (col r c < col s c)"
| "clause_lt col (Desc c) r s = (col s c < col r c)"

fun clause_col :: "'c clause \<Rightarrow> 'c" where
  "clause_col (Asc c) = c"
| "clause_col (Desc c) = c"

text \<open>Lexicographic comparison of rows along the clauses.\<close>

fun rows_le :: "('r \<Rightarrow> 'c \<Rightarrow> sval) \<Rightarrow> 'c clause list \<Rightarrow> 'r \<Rightarrow> 'r \<Rightarrow> bool" where
  "rows_le col [] r s = True"
| "rows_le col (k # ks) r s =
     (clause_lt col k r s \<or> (col r (clause_col k) = col s (clause_col k) \<and> rows_le col ks r s))"

definition order_rows :: "('r \<Rightarrow> 'c \<Rightarrow> sval) \<Rightarrow> 'c clause list \<Rightarrow> 'r list \<Rightarrow> 'r list" where
  "order_rows col ks rows = sort_wrt (rows_le col ks) rows"

lemma rows_le_total: "rows_le col ks r s \<or> rows_le col ks s r"
proof (induction ks)
  case (Cons k ks)
  then show ?case by (cases k) (auto simp: neq_iff)
qed simp

lemma lex_trans:
  fixes x y z :: "'a :: linorder"
  assumes "x < y \<or> (x = y \<and> P)" and "y < z \<or> (y = z \<and> Q)" and "P \<Longrightarrow> Q \<Longrightarrow> R"
  shows "x < z \<or> (x = z \<and> R)"
  using assms by auto

lemma lex_trans_desc:
  fixes x y z :: "'a :: linorder"
  assumes "y < x \<or> (x = y \<and> P)" and "z < y \<or> (y = z \<and> Q)" and "P \<Longrightarrow> Q \<Longrightarrow> R"
  shows "z < x \<or> (x = z \<and> R)"
  using assms by auto

lemma rows_le_trans: "rows_le col ks r s \<Longrightarrow> rows_le col ks s t \<Longrightarrow> rows_le col ks r t"
proof (induction ks)
  case (Cons k ks)
  show ?case
  proof (cases k)
    case (Asc c)
    have "col r c < col s c \<or> (col r c = col s c \<and> rows_le col ks r s)"
      and "col s c < col t c \<or> (col s c = col t c \<and> rows_le col ks s t)"
      using Cons.prems Asc by simp_all
    from lex_trans[OF this Cons.IH] show ?thesis by (simp add: Asc)
  next
    case (Desc c)
    have "col s c < col r c \<or> (col r c = col s c \<and> rows_le col ks r s)"
      and "col t c < col s c \<or> (col s c = col t c \<and> rows_le col ks s t)"
      using Cons.prems Desc by simp_all
    from lex_trans_desc[OF this Cons.IH] show ?thesis
      unfolding Desc rows_le.simps clause_lt.simps clause_col.simps by blast
  qed
qed simp

lemma preorder_rows_le: "preorder_total (rows_le col ks)"
  unfolding preorder_total_def by (intro conjI allI impI rows_le_total) (rule rows_le_trans)

lemma rows_le_antisym:
  "rows_le col ks r s \<Longrightarrow> rows_le col ks s r \<Longrightarrow> k \<in> set ks \<Longrightarrow> col r (clause_col k) = col s (clause_col k)"
proof (induction ks)
  case (Cons c ks)
  have "col r (clause_col c) = col s (clause_col c) \<and> rows_le col ks r s \<and> rows_le col ks s r"
    using Cons.prems(1,2)
    by (cases c) (simp_all only: rows_le.simps clause_lt.simps clause_col.simps, metis less_asym less_irrefl,
        metis less_asym less_irrefl)
  then show ?case using Cons.IH Cons.prems(3) by auto
qed simp

lemma sorted_order_rows: "sorted_wrt (rows_le col ks) (order_rows col ks rows)"
  unfolding order_rows_def by (rule sorted_sort_wrt[OF preorder_rows_le])

lemma set_order_rows [simp]: "set (order_rows col ks rows) = set rows"
  by (simp add: order_rows_def)

lemma mset_order_rows [simp]: "mset (order_rows col ks rows) = mset rows"
  by (simp add: order_rows_def)

lemma order_rows_eqI:
  assumes "mset xs = mset ys" and "k \<in> set ks" and "inj_on (\<lambda>r. col r (clause_col k)) (set xs)"
  shows "order_rows col ks xs = order_rows col ks ys"
proof (rule sorted_wrt_unique[OF sorted_order_rows sorted_order_rows])
  show "mset (order_rows col ks xs) = mset (order_rows col ks ys)" using assms(1) by simp
  fix r s assume "r \<in> set (order_rows col ks xs)" "s \<in> set (order_rows col ks xs)"
    and "rows_le col ks r s" "rows_le col ks s r"
  then show "r = s" using rows_le_antisym[OF _ _ assms(2), of col r s] assms(3) by (auto dest: inj_onD)
qed

lemma resolve_order_by_Inr:
  assumes "resolve_order_by sortable id_column sby sdir dsort ddir = Inr ks"
  obtains key column primary where "sortable key = Some column"
    and "primary = Asc column \<or> primary = Desc column"
    and "ks = (if column \<noteq> id_column \<and> key \<noteq> ''id'' then [primary, Asc id_column] else [primary])"
proof -
  let ?key = "case sby of Some k \<Rightarrow> k | None \<Rightarrow> dsort"
  let ?d = "if sby \<noteq> None then sdir else ddir"
  obtain column where c: "sortable ?key = Some column"
    using assms by (cases "sortable ?key") (simp_all only: resolve_order_by_def Let_def option.case, simp)
  have "ks = (let primary = (if ?d = ''asc'' then Asc column else Desc column)
      in if column \<noteq> id_column \<and> ?key \<noteq> ''id'' then [primary, Asc id_column] else [primary])"
    using assms
    by (simp only: resolve_order_by_def Let_def c option.case split: if_split_asm) simp_all
  then show ?thesis using c that[of ?key column "if ?d = ''asc'' then Asc column else Desc column"]
    by (simp add: Let_def split: if_split_asm)
qed

text \<open>
  An ORDER BY list resolved from request parameters mentions only columns of the
  endpoint's whitelist and the primary key, whatever text the request carries; and when the
  whitelist maps the key \<^verbatim>\<open>id\<close>, if at all, to the primary key, the primary key is among the
  clauses, so rows with distinct keys are listed in one order only, however the database
  scans them.
\<close>

theorem resolve_order_by_deterministic:
  assumes res: "resolve_order_by sortable id_column sby sdir dsort ddir = Inr ks"
    and id: "\<And>c. sortable ''id'' = Some c \<Longrightarrow> c = id_column"
    and key: "inj_on (\<lambda>r. col r id_column) (set rows)"
    and scan: "mset rows' = mset rows"
  shows "clause_col ` set ks \<subseteq> insert id_column (ran sortable)
    \<and> order_rows col ks rows' = order_rows col ks rows"
proof
  obtain k column primary where r: "sortable k = Some column"
      "primary = Asc column \<or> primary = Desc column"
      "ks = (if column \<noteq> id_column \<and> k \<noteq> ''id'' then [primary, Asc id_column] else [primary])"
    by (rule resolve_order_by_Inr[OF res])
  have col: "clause_col primary = column" using r(2) by auto
  show "clause_col ` set ks \<subseteq> insert id_column (ran sortable)"
    using r(1) by (auto simp: r(3) col intro: ranI)
  have "\<exists>c \<in> set ks. clause_col c = id_column"
  proof (cases "column \<noteq> id_column \<and> k \<noteq> ''id''")
    case True
    then show ?thesis by (simp add: r(3))
  next
    case False
    then have "column = id_column" using r(1) id by auto
    then show ?thesis using col by (simp add: r(3))
  qed
  then obtain c where "c \<in> set ks" "clause_col c = id_column" by blast
  then show "order_rows col ks rows' = order_rows col ks rows"
    using key scan by (intro order_rows_eqI[symmetric]) auto
qed

theorem resolve_order_by_deterministic_witness:
  "let sortable = [''created_at'' \<mapsto> (1::nat), ''subject'' \<mapsto> 2]; ks = [Desc 2, Asc 0];
       col = (\<lambda>r c. SInt (if c = 0 then r else 7)); rows = [3, 1, 2 :: int]
   in resolve_order_by sortable 0 (Some ''subject'') ''desc'' ''created_at'' ''asc'' = Inr ks
      \<and> order_rows col ks rows = [1, 2, 3] \<and> order_rows col ks (rev rows) = [1, 2, 3]"
proof -
  let ?sortable = "[''created_at'' \<mapsto> (1::nat), ''subject'' \<mapsto> 2]"
  let ?col = "\<lambda>r c. SInt (if c = (0::nat) then r else 7)"
  have res: "resolve_order_by ?sortable 0 (Some ''subject'') ''desc'' ''created_at'' ''asc''
      = Inr [Desc 2, Asc 0]"
    by (simp add: resolve_order_by_def)
  have inj: "inj_on (\<lambda>r. ?col r 0) (set [3, 1, 2 :: int])" by (auto simp: inj_on_def)
  have "order_rows ?col [Desc 2, Asc 0] (rev [3, 1, 2]) = order_rows ?col [Desc 2, Asc 0] [3, 1, 2 :: int]"
    using resolve_order_by_deterministic[where col = ?col, OF res _ inj, of "rev [3, 1, 2]"] by simp
  moreover have "order_rows ?col [Desc 2, Asc 0] [3, 1, 2 :: int] = [1, 2, 3]"
    by (simp add: order_rows_def less_sval_def)
  ultimately show ?thesis using res by (simp add: Let_def)
qed

end
