(* ===== verification/Fact_Repository.thy ===== *)
theory Fact_Repository
  imports Prelude Sorting
begin

text \<open>
  The fact table and its repository: \<^verbatim>\<open>src/models/fact.py\<close>,
  \<^verbatim>\<open>src/models/fact_invalidation_event.py\<close>, the exclusion constraint of migration 0024 and the
  queries and updates of \<^verbatim>\<open>src/repositories/fact_repository.py\<close>. One transaction's view of the
  database is the record \<open>fact_db\<close>; a statement is a function on it, and a statement that
  PostgreSQL would abort is an exception.

  What PostgreSQL itself decides is the parameter \<open>pg\<close>: the values of \<^verbatim>\<open>gen_random_uuid()\<close>,
  the order in which a query without ORDER BY returns its rows, and the clock readings.
  The locale \<open>postgres\<close> states what the code relies on: generated ids do not repeat, and a
  query returns the rows it selects, each once.
\<close>

section \<open>Rows\<close>

record fact =
  f_id :: uuid
  f_project_id :: uuid
  f_user_id :: uuid
  f_organization_id :: uuid
  f_content :: string
  f_subject :: "string option"
  f_predicate :: "string option"
  f_object :: "string option"
  f_subject_type :: string
  f_object_type :: string
  f_confidence :: rat
  f_source_episode_id :: "uuid option"
  f_subject_entity_id :: "uuid option"
  f_object_entity_id :: "uuid option"
  f_valid_from :: "datetime option"
  f_valid_to :: "datetime option"
  f_invalid_at :: "datetime option"
  f_superseded_by_fact_id :: "uuid option"
  f_embedding :: "rat list option"
  f_embedded_at :: "datetime option"
  f_created_at :: datetime
  f_updated_at :: datetime

record inv_event =
  ev_id :: uuid
  ev_organization_id :: uuid
  ev_project_id :: uuid
  ev_old_fact_id :: "uuid option"
  ev_new_fact_id :: "uuid option"
  ev_kind :: string
  ev_reason :: "string option"
  ev_at_time :: datetime
  ev_source_episode_id :: "uuid option"

record fact_db =
  facts :: "fact list"
  inv_events :: "inv_event list"
  locks :: "string list" \<comment> \<open>advisory locks taken by this transaction, in order\<close>
  draws :: nat \<comment> \<open>how many ids the database has generated\<close>

record pg =
  gen_random_uuid :: "nat \<Rightarrow> uuid"
  scan_rows :: "fact list \<Rightarrow> fact list"
  scan_events :: "inv_event list \<Rightarrow> inv_event list"
  utcnow :: datetime \<comment> \<open>the \<^verbatim>\<open>datetime.now(UTC)\<close> a repository method reads\<close>
  db_now :: datetime \<comment> \<open>the server's \<^verbatim>\<open>now()\<close>\<close>

locale postgres =
  fixes P :: pg
  assumes uuid_inj: "inj (gen_random_uuid P)"
    and scan_rows_mset: "mset (scan_rows P rs) = mset rs"
    and scan_events_mset: "mset (scan_events P es) = mset es"
begin

lemma scan_rows_set [simp]: "set (scan_rows P rs) = set rs"
  by (metis scan_rows_mset set_mset_mset)

lemma scan_events_set [simp]: "set (scan_events P es) = set es"
  by (metis scan_events_mset set_mset_mset)

lemma distinct_scan_rows [simp]: "distinct (scan_rows P rs) = distinct rs"
  by (metis scan_rows_mset mset_eq_imp_distinct_iff)

lemma distinct_map_scan_rows: "distinct (map g (scan_rows P rs)) = distinct (map g rs)"
  by (metis scan_rows_mset mset_map mset_eq_imp_distinct_iff)

end

text \<open>The dictionary \<^verbatim>\<open>row\<close> that \<^verbatim>\<open>_prepare_entry\<close> builds and the insert methods receive.\<close>

record fact_row =
  r_subject :: string
  r_predicate :: string
  r_object :: string
  r_content :: string
  r_confidence :: rat
  r_subject_type :: string
  r_object_type :: string
  r_subject_entity_id :: "uuid option"
  r_object_entity_id :: "uuid option"
  r_source_episode_id :: "uuid option"
  r_valid_from :: "datetime option"
  r_valid_to :: "datetime option"

section \<open>Validity\<close>

definition effective_at :: "datetime \<Rightarrow> fact \<Rightarrow> bool" where
  "effective_at t f \<longleftrightarrow>
     (case f_invalid_at f of None \<Rightarrow> True | Some i \<Rightarrow> t < i)
     \<and> (case f_valid_from f of None \<Rightarrow> True | Some a \<Rightarrow> a \<le> t)
     \<and> (case f_valid_to f of None \<Rightarrow> True | Some b \<Rightarrow> t < b)"

text \<open>
  The constraint \<^verbatim>\<open>uq_facts_temporal_excl\<close>: two rows that are not retracted, of one episode
  and one triple (NULL equals nothing), may not have overlapping ranges \<open>[from, to)\<close>; a
  range whose lower bound exceeds its upper bound is an error of its own.
\<close>

definition below :: "datetime option \<Rightarrow> datetime option \<Rightarrow> bool" where
  "below lo hi \<longleftrightarrow> (case (lo, hi) of (Some a, Some b) \<Rightarrow> a < b | _ \<Rightarrow> True)"

definition range_ok :: "fact \<Rightarrow> bool" where
  "range_ok f \<longleftrightarrow> (case (f_valid_from f, f_valid_to f) of (Some a, Some b) \<Rightarrow> a \<le> b | _ \<Rightarrow> True)"

definition sql_eq :: "'a option \<Rightarrow> 'a option \<Rightarrow> bool" where
  "sql_eq a b \<longleftrightarrow> a \<noteq> None \<and> a = b"

definition ranges_intersect :: "fact \<Rightarrow> fact \<Rightarrow> bool" where
  "ranges_intersect f g \<longleftrightarrow>
     below (f_valid_from f) (f_valid_to f) \<and> below (f_valid_from g) (f_valid_to g)
     \<and> below (f_valid_from f) (f_valid_to g) \<and> below (f_valid_from g) (f_valid_to f)"

definition excl_conflict :: "fact \<Rightarrow> fact \<Rightarrow> bool" where
  "excl_conflict f g \<longleftrightarrow>
     f_invalid_at f = None \<and> f_invalid_at g = None
     \<and> sql_eq (f_source_episode_id f) (f_source_episode_id g)
     \<and> sql_eq (f_subject f) (f_subject g) \<and> sql_eq (f_predicate f) (f_predicate g)
     \<and> sql_eq (f_object f) (f_object g) \<and> ranges_intersect f g"

definition row_error :: "fact \<Rightarrow> fact list \<Rightarrow> exn option" where
  "row_error f others =
     (if f_invalid_at f \<noteq> None then None
      else if \<not> range_ok f then Some DataError
      else if list_ex (excl_conflict f) others then Some IntegrityError
      else None)"

section \<open>Inserts\<close>

definition born_dead :: "datetime \<Rightarrow> fact_row \<Rightarrow> bool" where
  "born_dead now r \<longleftrightarrow>
     (case r_valid_to r of
        None \<Rightarrow> False
      | Some vt \<Rightarrow> vt \<le> (case r_valid_from r of None \<Rightarrow> now | Some vf \<Rightarrow> vf))"

definition spo_text :: "fact_row \<Rightarrow> string" where
  "spo_text r = r_subject r @ '' '' @ r_predicate r @ '' '' @ r_object r"

definition mk_fact ::
  "pg \<Rightarrow> nat \<Rightarrow> uuid \<Rightarrow> uuid \<Rightarrow> uuid \<Rightarrow> uuid option \<Rightarrow> string \<Rightarrow> fact_row \<Rightarrow> fact" where
  "mk_fact P n org proj usr episode content r =
     \<lparr>f_id = gen_random_uuid P n, f_project_id = proj, f_user_id = usr, f_organization_id = org,
      f_content = content, f_subject = Some (r_subject r), f_predicate = Some (r_predicate r),
      f_object = Some (r_object r), f_subject_type = r_subject_type r,
      f_object_type = r_object_type r, f_confidence = r_confidence r,
      f_source_episode_id = episode, f_subject_entity_id = r_subject_entity_id r,
      f_object_entity_id = r_object_entity_id r, f_valid_from = r_valid_from r,
      f_valid_to = r_valid_to r, f_invalid_at = None, f_superseded_by_fact_id = None,
      f_embedding = None, f_embedded_at = None, f_created_at = db_now P, f_updated_at = db_now P\<rparr>"

text \<open>
  One INSERT of several rows. A row that violates the exclusion constraint aborts the
  statement, or is left out under \<^verbatim>\<open>ON CONFLICT DO NOTHING\<close>; rows of the same statement
  conflict with each other too. The result is what RETURNING gives back.
\<close>

fun insert_facts :: "bool \<Rightarrow> (nat \<Rightarrow> fact) list \<Rightarrow> fact_db \<Rightarrow> (fact list \<times> fact_db) res" where
  "insert_facts skip [] db = Inr ([], db)"
| "insert_facts skip (mk # mks) db =
     (let f = mk (draws db); db' = db\<lparr>draws := Suc (draws db)\<rparr> in
      case row_error f (facts db) of
        None \<Rightarrow> exc_bind (insert_facts skip mks (db'\<lparr>facts := facts db @ [f]\<rparr>))
                  (\<lambda>(fs, db''). Inr (f # fs, db''))
      | Some e \<Rightarrow> if skip \<and> e = IntegrityError then insert_facts skip mks db' else Inl e)"

definition batch_create ::
  "pg \<Rightarrow> uuid \<Rightarrow> uuid \<Rightarrow> uuid \<Rightarrow> fact_row list \<Rightarrow> bool \<Rightarrow> fact_db \<Rightarrow> (fact list \<times> fact_db) res" where
  "batch_create P org proj usr rows skip db =
     (if rows = [] then Inr ([], db)
      else if list_ex (born_dead (utcnow P)) rows then Inl ValidationError
      else insert_facts skip
             (map (\<lambda>r n. mk_fact P n org proj usr (r_source_episode_id r) (r_content r) r) rows) db)"

definition batch_create_or_skip ::
  "pg \<Rightarrow> uuid \<Rightarrow> uuid \<Rightarrow> uuid \<Rightarrow> uuid option \<Rightarrow> fact_row list \<Rightarrow> fact_db \<Rightarrow> (fact list \<times> fact_db) res" where
  "batch_create_or_skip P org proj usr source_episode_id rows db =
     (if list_ex (born_dead (utcnow P)) rows then Inl ValidationError
      else insert_facts True
             (map (\<lambda>r n. mk_fact P n org proj usr source_episode_id
                     (if r_content r \<noteq> [] then r_content r else spo_text r) r) rows) db)"

section \<open>Supersession primitives\<close>

definition lock_conflict_identities :: "string list \<Rightarrow> fact_db \<Rightarrow> fact_db" where
  "lock_conflict_identities lock_keys db = db\<lparr>locks := locks db @ lock_keys\<rparr>"

datatype key_term = KUuid uuid | KStr string

type_synonym match_key = "key_term \<times> string \<times> key_term"

definition term_matches :: "key_term \<Rightarrow> uuid option \<Rightarrow> string option \<Rightarrow> bool" where
  "term_matches k entity_id text =
     (case k of
        KUuid u \<Rightarrow> entity_id = Some u
      | KStr s \<Rightarrow> (case text of None \<Rightarrow> False | Some t \<Rightarrow> py_lower t = py_lower s))"

definition key_matches :: "fact \<Rightarrow> match_key \<Rightarrow> bool" where
  "key_matches f k =
     (case k of (s, p, ob) \<Rightarrow>
        term_matches s (f_subject_entity_id f) (f_subject f)
        \<and> f_predicate f = Some p
        \<and> term_matches ob (f_object_entity_id f) (f_object f))"

definition find_conflicting_active_for_update ::
  "pg \<Rightarrow> uuid \<Rightarrow> uuid \<Rightarrow> match_key list \<Rightarrow> datetime \<Rightarrow> fact_db \<Rightarrow> fact list" where
  "find_conflicting_active_for_update P org proj match_keys now db =
     (if match_keys = [] then []
      else scan_rows P (filter (\<lambda>f. f_organization_id f = org \<and> f_project_id f = proj
             \<and> effective_at now f \<and> list_ex (key_matches f) match_keys) (facts db)))"

definition find_retracted_by_match_keys ::
  "pg \<Rightarrow> uuid \<Rightarrow> uuid \<Rightarrow> match_key list \<Rightarrow> fact_db \<Rightarrow> fact list" where
  "find_retracted_by_match_keys P org proj match_keys db =
     (if match_keys = [] then []
      else scan_rows P (filter (\<lambda>f. f_organization_id f = org \<and> f_project_id f = proj
             \<and> f_invalid_at f \<noteq> None \<and> list_ex (key_matches f) match_keys) (facts db)))"

text \<open>\<^verbatim>\<open>UPDATE facts SET ... WHERE id = ...\<close>, rechecking the row constraint on the new version.\<close>

definition modify_fact :: "uuid \<Rightarrow> (fact \<Rightarrow> fact) \<Rightarrow> fact_db \<Rightarrow> fact_db" where
  "modify_fact i u db = db\<lparr>facts := map (\<lambda>f. if f_id f = i then u f else f) (facts db)\<rparr>"

definition update_fact :: "uuid \<Rightarrow> (fact \<Rightarrow> fact) \<Rightarrow> fact_db \<Rightarrow> fact_db res" where
  "update_fact i u db =
     (case List.map_filter
             (\<lambda>f. if f_id f = i then row_error (u f) (filter (\<lambda>g. f_id g \<noteq> i) (facts db)) else None)
             (facts db) of
        [] \<Rightarrow> Inr (modify_fact i u db)
      | e # _ \<Rightarrow> Inl e)"

definition set_valid_to :: "uuid \<Rightarrow> datetime \<Rightarrow> fact_db \<Rightarrow> fact_db res" where
  "set_valid_to fact_id now db =
     update_fact fact_id (\<lambda>f. f\<lparr>f_valid_to := Some now, f_updated_at := now\<rparr>) db"

definition set_invalid_at :: "uuid \<Rightarrow> datetime \<Rightarrow> fact_db \<Rightarrow> fact_db res" where
  "set_invalid_at fact_id now db =
     update_fact fact_id (\<lambda>f. f\<lparr>f_invalid_at := Some now, f_updated_at := now\<rparr>) db"

text \<open>No column of the constraint changes, so there is nothing to recheck.\<close>

definition set_superseded_by :: "pg \<Rightarrow> uuid \<Rightarrow> uuid option \<Rightarrow> fact_db \<Rightarrow> fact_db" where
  "set_superseded_by P fact_id successor_id db =
     modify_fact fact_id (\<lambda>f. f\<lparr>f_superseded_by_fact_id := successor_id, f_updated_at := utcnow P\<rparr>) db"

text \<open>The CHECK constraint on \<^verbatim>\<open>kind\<close> admits the four values of the model.\<close>

definition event_kinds :: "string list" where
  "event_kinds = [''superseded'', ''retracted'', ''llm_invalidated'', ''time_expired'']"

definition record_invalidation_event ::
  "pg \<Rightarrow> uuid \<Rightarrow> uuid \<Rightarrow> uuid \<Rightarrow> uuid option \<Rightarrow> string \<Rightarrow> string option \<Rightarrow> datetime \<Rightarrow> uuid option
   \<Rightarrow> fact_db \<Rightarrow> fact_db res" where
  "record_invalidation_event P org proj old_fact_id new_fact_id kind reason at_time episode db =
     (if kind \<notin> set event_kinds then Inl IntegrityError
      else Inr (db\<lparr>draws := Suc (draws db),
                   inv_events := inv_events db @
                     [\<lparr>ev_id = gen_random_uuid P (draws db), ev_organization_id = org,
                       ev_project_id = proj, ev_old_fact_id = Some old_fact_id,
                       ev_new_fact_id = new_fact_id, ev_kind = kind, ev_reason = reason,
                       ev_at_time = at_time, ev_source_episode_id = episode\<rparr>]\<rparr>))"

section \<open>Reads\<close>

definition get_by_id :: "uuid \<Rightarrow> uuid option \<Rightarrow> fact_db \<Rightarrow> fact option" where
  "get_by_id fact_id org db =
     List.find (\<lambda>f. f_id f = fact_id \<and> (case org of None \<Rightarrow> True | Some o' \<Rightarrow> f_organization_id f = o'))
       (facts db)"

definition opt_sval :: "('a \<Rightarrow> sval) \<Rightarrow> 'a option \<Rightarrow> sval" where
  "opt_sval k x = (case x of None \<Rightarrow> SNull | Some a \<Rightarrow> k a)"

text \<open>The columns the fact listings may be ordered by; \<^verbatim>\<open>id\<close> is the primary key.\<close>

fun fact_col :: "fact \<Rightarrow> string \<Rightarrow> sval" where
  "fact_col f c =
     (if c = ''id'' then SInt (int (f_id f))
      else if c = ''valid_from'' then opt_sval SInt (f_valid_from f)
      else if c = ''created_at'' then SInt (f_created_at f)
      else if c = ''confidence'' then SRat (f_confidence f)
      else if c = ''subject'' then opt_sval SStr (f_subject f)
      else SNull)"

definition event_col :: "inv_event \<Rightarrow> string \<Rightarrow> sval" where
  "event_col e c = (if c = ''id'' then SInt (int (ev_id e)) else SInt (ev_at_time e))"

definition org_visible :: "uuid option \<Rightarrow> uuid \<Rightarrow> bool" where
  "org_visible org row_org \<longleftrightarrow> (case org of None \<Rightarrow> True | Some o' \<Rightarrow> row_org = o')"

definition get_fact_history ::
  "pg \<Rightarrow> uuid \<Rightarrow> uuid option \<Rightarrow> nat \<Rightarrow> nat \<Rightarrow> sort_spec option \<Rightarrow> fact_db \<Rightarrow> inv_event list res" where
  "get_fact_history P fact_id org limit offset srt db =
     (let spec = (case srt of None \<Rightarrow> default_sort_spec | Some s \<Rightarrow> s);
          (req_sort, req_dir) = effective spec ''at_time'' ''desc''
      in exc_bind (resolve_order_by [''at_time'' \<mapsto> ''at_time''] ''id'' (Some req_sort) req_dir
                     ''at_time'' ''desc'')
           (\<lambda>clauses. Inr (take (min limit 200) (drop offset (order_rows event_col clauses
              (scan_events P (filter (\<lambda>e. (ev_old_fact_id e = Some fact_id \<or> ev_new_fact_id e = Some fact_id)
                 \<and> org_visible org (ev_organization_id e)) (inv_events db))))))))"

text \<open>\<^verbatim>\<open>valid_from ASC NULLS FIRST\<close> and \<^verbatim>\<open>valid_from DESC NULLS LAST, id\<close>.\<close>

definition asc_nulls_first :: "fact \<Rightarrow> fact \<Rightarrow> bool" where
  "asc_nulls_first f g \<longleftrightarrow>
     (case (f_valid_from f, f_valid_from g) of
        (None, _) \<Rightarrow> True | (Some _, None) \<Rightarrow> False | (Some a, Some b) \<Rightarrow> a \<le> b)"

definition desc_nulls_last :: "fact \<Rightarrow> fact \<Rightarrow> bool" where
  "desc_nulls_last f g \<longleftrightarrow>
     (case (f_valid_from f, f_valid_from g) of
        (None, None) \<Rightarrow> f_id f \<le> f_id g
      | (None, Some _) \<Rightarrow> False
      | (Some _, None) \<Rightarrow> True
      | (Some a, Some b) \<Rightarrow> b < a \<or> (a = b \<and> f_id f \<le> f_id g))"

definition get_all_active_for_project :: "pg \<Rightarrow> uuid \<Rightarrow> uuid option \<Rightarrow> fact_db \<Rightarrow> fact list" where
  "get_all_active_for_project P proj org db =
     sort_wrt asc_nulls_first (scan_rows P (filter (\<lambda>f. f_project_id f = proj
       \<and> effective_at (utcnow P) f \<and> org_visible org (f_organization_id f)) (facts db)))"

definition get_facts_at_time ::
  "pg \<Rightarrow> uuid \<Rightarrow> datetime \<Rightarrow> uuid option \<Rightarrow> nat \<Rightarrow> nat \<Rightarrow> sort_spec option \<Rightarrow> fact_db \<Rightarrow> fact list res" where
  "get_facts_at_time P proj timestamp org limit offset srt db =
     (let spec = (case srt of None \<Rightarrow> default_sort_spec | Some s \<Rightarrow> s);
          rows = scan_rows P (filter (\<lambda>f. f_project_id f = proj \<and> effective_at timestamp f
                   \<and> org_visible org (f_organization_id f)) (facts db));
          page = (\<lambda>ordered. take (min limit 200) (drop offset ordered))
      in if sort_by spec = None then Inr (page (sort_wrt desc_nulls_last rows))
         else (case effective spec ''valid_from'' ''desc'' of (req_sort, req_dir) \<Rightarrow>
           exc_bind (resolve_order_by
               [''valid_from'' \<mapsto> ''valid_from'', ''created_at'' \<mapsto> ''created_at'',
                ''confidence'' \<mapsto> ''confidence'', ''subject'' \<mapsto> ''subject'']
               ''id'' (Some req_sort) req_dir ''valid_from'' ''desc'')
             (\<lambda>clauses. Inr (page (order_rows fact_col clauses rows)))))"

definition get_facts_in_range ::
  "pg \<Rightarrow> uuid \<Rightarrow> datetime \<Rightarrow> datetime \<Rightarrow> uuid option \<Rightarrow> nat \<Rightarrow> nat \<Rightarrow> fact_db \<Rightarrow> fact list" where
  "get_facts_in_range P proj start stop org limit offset db =
     take (min limit 200) (drop offset (sort_wrt asc_nulls_first (scan_rows P (filter (\<lambda>f.
        f_project_id f = proj
        \<and> (case f_invalid_at f of None \<Rightarrow> True | Some i \<Rightarrow> start < i)
        \<and> (case f_valid_from f of None \<Rightarrow> True | Some a \<Rightarrow> a < stop)
        \<and> (case f_valid_to f of None \<Rightarrow> True | Some b \<Rightarrow> start < b)
        \<and> org_visible org (f_organization_id f)) (facts db)))))"

definition soft_delete_by_project :: "uuid \<Rightarrow> uuid \<Rightarrow> datetime \<Rightarrow> fact_db \<Rightarrow> nat \<times> fact_db" where
  "soft_delete_by_project proj org now db =
     (let hit = (\<lambda>f. f_project_id f = proj \<and> f_organization_id f = org \<and> f_invalid_at f = None)
      in (length (filter hit (facts db)),
          db\<lparr>facts := map (\<lambda>f. if hit f then f\<lparr>f_invalid_at := Some now, f_updated_at := now\<rparr> else f)
                       (facts db)\<rparr>))"

section \<open>Frame lemmas\<close>

text \<open>
  What supersession may change of a row is its end of validity, its successor link and its
  modification time; \<open>core\<close> is the rest. A database extends another when it holds the same
  rows up to that, in the same places, and possibly more rows after them.
\<close>

definition core :: "fact \<Rightarrow> fact" where
  "core f = f\<lparr>f_valid_to := None, f_superseded_by_fact_id := None, f_updated_at := 0\<rparr>"

definition extends :: "fact_db \<Rightarrow> fact_db \<Rightarrow> bool" where
  "extends db db' \<longleftrightarrow> take (length (facts db)) (map core (facts db')) = map core (facts db)
     \<and> draws db \<le> draws db'"

text \<open>Ids are the primary key and were all generated by the database.\<close>

definition db_ok :: "pg \<Rightarrow> fact_db \<Rightarrow> bool" where
  "db_ok P db \<longleftrightarrow> distinct (map f_id (facts db))
     \<and> (\<forall>f \<in> set (facts db). f_id f \<in> gen_random_uuid P ` {..<draws db})"

lemma core_simps [simp]:
  "f_id (core f) = f_id f" "f_content (core f) = f_content f" "f_subject (core f) = f_subject f"
  "f_predicate (core f) = f_predicate f" "f_object (core f) = f_object f"
  "f_invalid_at (core f) = f_invalid_at f" "f_valid_from (core f) = f_valid_from f"
  "f_organization_id (core f) = f_organization_id f" "f_project_id (core f) = f_project_id f"
  "f_subject_entity_id (core f) = f_subject_entity_id f"
  "f_object_entity_id (core f) = f_object_entity_id f"
  by (simp_all add: core_def)

lemma core_updates [simp]:
  "core (f\<lparr>f_valid_to := v, f_updated_at := t\<rparr>) = core f"
  "core (f\<lparr>f_superseded_by_fact_id := s, f_updated_at := t\<rparr>) = core f"
  by (simp_all add: core_def)

lemma extends_refl [simp]: "extends db db"
  by (simp add: extends_def)

lemma extends_trans: "extends a b \<Longrightarrow> extends b c \<Longrightarrow> extends a c"
  unfolding extends_def
  by (metis (no_types, opaque_lifting) length_map length_take min.absorb_iff2 min.cobounded1 order_trans take_all_iff take_take)

lemma extends_length: "extends a b \<Longrightarrow> length (facts a) \<le> length (facts b)"
  unfolding extends_def by (metis length_map length_take min.cobounded1 min.absorb_iff2)

lemma extends_nth:
  assumes "extends a b" and "i < length (facts a)"
  shows "i < length (facts b) \<and> core (facts b ! i) = core (facts a ! i)"
proof -
  have "i < length (facts b)" using assms extends_length[OF assms(1)] by simp
  moreover have "map core (facts b) ! i = map core (facts a) ! i"
    using assms unfolding extends_def by (metis nth_take)
  ultimately show ?thesis using assms(2) by simp
qed

lemma facts_modify_fact [simp]:
  "facts (modify_fact i u db) = map (\<lambda>f. if f_id f = i then u f else f) (facts db)"
  "inv_events (modify_fact i u db) = inv_events db" "draws (modify_fact i u db) = draws db"
  "locks (modify_fact i u db) = locks db"
  by (simp_all add: modify_fact_def)

lemma update_fact_Inr: "update_fact i u db = Inr db' \<Longrightarrow> db' = modify_fact i u db"
  by (simp add: update_fact_def split: list.splits)

lemma set_valid_to_Inr:
  "set_valid_to i now db = Inr db' \<Longrightarrow>
   db' = modify_fact i (\<lambda>f. f\<lparr>f_valid_to := Some now, f_updated_at := now\<rparr>) db"
  unfolding set_valid_to_def by (rule update_fact_Inr)

lemma set_invalid_at_Inr:
  "set_invalid_at i now db = Inr (modify_fact i (\<lambda>f. f\<lparr>f_invalid_at := Some now, f_updated_at := now\<rparr>) db)"
proof -
  have "List.map_filter (\<lambda>f. if f_id f = i then row_error (f\<lparr>f_invalid_at := Some now, f_updated_at := now\<rparr>)
      (filter (\<lambda>g. f_id g \<noteq> i) (facts db)) else None) (facts db) = []"
    by (auto simp: List.map_filter_def row_error_def filter_empty_conv)
  then show ?thesis by (simp add: set_invalid_at_def update_fact_def)
qed

lemma extends_modify:
  assumes "\<And>f. core (u f) = core f"
  shows "extends db (modify_fact i u db)"
proof -
  have "map core (facts (modify_fact i u db)) = map core (facts db)" using assms by simp
  then show ?thesis unfolding extends_def by (metis facts_modify_fact(3) length_map order_refl take_all_iff)
qed

lemma db_ok_modify:
  assumes "db_ok P db" and "\<And>f. f_id (u f) = f_id f"
  shows "db_ok P (modify_fact i u db)"
proof -
  have ids: "map f_id (facts (modify_fact i u db)) = map f_id (facts db)" using assms(2) by simp
  have "distinct (map f_id (facts (modify_fact i u db)))"
    using assms(1) unfolding ids db_ok_def by blast
  moreover have "f_id f \<in> gen_random_uuid P ` {..<draws db}" if "f \<in> set (facts (modify_fact i u db))" for f
    using assms that by (auto simp: db_ok_def)
  ultimately show ?thesis unfolding db_ok_def by simp
qed

lemma row_error_None: "row_error f others = None \<Longrightarrow> f_invalid_at f = None \<Longrightarrow> range_ok f"
  by (auto simp: row_error_def split: if_splits)

text \<open>An insert appends the returned rows, with ids drawn from the generator in order.\<close>

lemma insert_facts_Inr:
  assumes "insert_facts skip mks db = Inr (fs, db')"
  shows "facts db' = facts db @ fs" and "draws db' = draws db + length mks"
    and "inv_events db' = inv_events db" and "locks db' = locks db"
    and "\<exists>ns. sorted_wrt (<) ns \<and> set ns \<subseteq> {draws db..<draws db'} \<and> length ns = length fs
           \<and> list_all2 (\<lambda>n f. \<exists>mk \<in> set mks. f = mk n) ns fs"
proof -
  have "facts db' = facts db @ fs \<and> draws db' = draws db + length mks \<and> inv_events db' = inv_events db
    \<and> locks db' = locks db \<and> (\<exists>ns. sorted_wrt (<) ns \<and> set ns \<subseteq> {draws db..<draws db'} \<and> length ns = length fs
           \<and> list_all2 (\<lambda>n f. \<exists>mk \<in> set mks. f = mk n) ns fs)"
    using assms
  proof (induction mks arbitrary: db fs)
    case Nil
    then show ?case by auto
  next
    case (Cons mk mks)
    let ?f = "mk (draws db)" and ?db = "db\<lparr>draws := Suc (draws db)\<rparr>"
    show ?case
    proof (cases "row_error ?f (facts db)")
      case None
      let ?db1 = "?db\<lparr>facts := facts db @ [?f]\<rparr>"
      obtain gs where r: "insert_facts skip mks ?db1 = Inr (gs, db')" "fs = ?f # gs"
        using Cons.prems None by (auto simp: Let_def exc_bind_Inr_iff)
      from Cons.IH[OF r(1)] obtain ns where ih: "facts db' = facts ?db1 @ gs" "draws db' = draws ?db1 + length mks"
          "inv_events db' = inv_events ?db1" "locks db' = locks ?db1"
          "sorted_wrt (<) ns" "set ns \<subseteq> {draws ?db1..<draws db'}" "length ns = length gs"
          "list_all2 (\<lambda>n f. \<exists>mk \<in> set mks. f = mk n) ns gs" by blast
      have "list_all2 (\<lambda>n f. \<exists>mk' \<in> set (mk # mks). f = mk' n) (draws db # ns) fs"
        using ih(8) r(2) by (auto elim: list_all2_mono)
      then show ?thesis using ih r(2) by (intro conjI exI[of _ "draws db # ns"]) auto
    next
      case (Some e)
      then have r: "insert_facts skip mks ?db = Inr (fs, db')"
        using Cons.prems by (auto simp: Let_def split: if_splits)
      from Cons.IH[OF r] obtain ns where ih: "facts db' = facts ?db @ fs" "draws db' = draws ?db + length mks"
          "inv_events db' = inv_events ?db" "locks db' = locks ?db"
          "sorted_wrt (<) ns" "set ns \<subseteq> {draws ?db..<draws db'}" "length ns = length fs"
          "list_all2 (\<lambda>n f. \<exists>mk \<in> set mks. f = mk n) ns fs" by blast
      have "list_all2 (\<lambda>n f. \<exists>mk' \<in> set (mk # mks). f = mk' n) ns fs"
        using ih(8) by (auto elim: list_all2_mono)
      then show ?thesis using ih by (intro conjI exI[of _ ns]) auto
    qed
  qed
  then show "facts db' = facts db @ fs" and "draws db' = draws db + length mks"
    and "inv_events db' = inv_events db" and "locks db' = locks db"
    and "\<exists>ns. sorted_wrt (<) ns \<and> set ns \<subseteq> {draws db..<draws db'} \<and> length ns = length fs
           \<and> list_all2 (\<lambda>n f. \<exists>mk \<in> set mks. f = mk n) ns fs"
    by blast+
qed

lemma extends_insert: "insert_facts skip mks db = Inr (fs, db') \<Longrightarrow> extends db db'"
  by (simp add: extends_def insert_facts_Inr)

end
