(* ===== verification/Cursor.thy ===== *)
theory Cursor
  imports Prelude
begin

text \<open>
  Pagination cursors: \<^verbatim>\<open>src/core/cursor.py\<close> and \<^verbatim>\<open>src/domain/value_objects/cursor.py\<close>,
  with the parts of Python's \<^verbatim>\<open>base64\<close>, \<^verbatim>\<open>binascii\<close> and \<^verbatim>\<open>uuid\<close> modules they call.
  The lemmas show the round trips (a cursor that was issued decodes to what it was built
  from), that a decoder raises only its documented exception, and that cursors issued before
  versioning are rejected.
\<close>

section \<open>URL-safe base64\<close>

definition b64_alphabet :: string where
  "b64_alphabet = ''ABCDEFGHIJKLMNOPQRSTUVWXYZabcdefghijklmnopqrstuvwxyz0123456789-_''"

definition b64_chr :: "nat \<Rightarrow> char" where
  "b64_chr n = b64_alphabet ! n"

text \<open>
  The decoding table: \<^verbatim>\<open>urlsafe_b64decode\<close> first maps \<^verbatim>\<open>-\<close> and \<^verbatim>\<open>_\<close> to \<^verbatim>\<open>+\<close> and \<^verbatim>\<open>/\<close>, so both
  spellings stand for 62 and 63.
\<close>

definition b64_val :: "char \<Rightarrow> nat option" where
  "b64_val c =
     (if 65 \<le> code c \<and> code c \<le> 90 then Some (code c - 65)
      else if 97 \<le> code c \<and> code c \<le> 122 then Some (code c - 71)
      else if 48 \<le> code c \<and> code c \<le> 57 then Some (code c + 4)
      else if c = CHR ''-'' \<or> c = CHR ''+'' then Some 62
      else if c = CHR ''_'' \<or> c = CHR ''/'' then Some 63
      else None)"

fun b64_encode :: "string \<Rightarrow> string" where
  "b64_encode [] = []"
| "b64_encode [a] =
     [b64_chr (code a div 4), b64_chr (code a mod 4 * 16), CHR ''='', CHR ''='']"
| "b64_encode [a, b] =
     [b64_chr (code a div 4), b64_chr (code a mod 4 * 16 + code b div 16),
      b64_chr (code b mod 16 * 4), CHR ''='']"
| "b64_encode (a # b # c # r) =
     [b64_chr (code a div 4), b64_chr (code a mod 4 * 16 + code b div 16),
      b64_chr (code b mod 16 * 4 + code c div 64), b64_chr (code c mod 64)] @ b64_encode r"

text \<open>
  \<^verbatim>\<open>binascii.a2b_base64\<close> in its default (non-strict) mode: characters outside the alphabet
  are skipped; a complete pad sequence ends the input; input that stops inside a group is an
  error. \<open>qp\<close> is the position in the group of four, \<open>left\<close> the bits carried over,
  \<open>pads\<close> the pad characters seen since the last data character.
\<close>

fun a2b_base64 :: "nat \<Rightarrow> nat \<Rightarrow> nat \<Rightarrow> string \<Rightarrow> string \<Rightarrow> string res" where
  "a2b_base64 qp left pads [] acc = (if qp = 0 then Inr (rev acc) else Inl ValueError)"
| "a2b_base64 qp left pads (ch # r) acc =
     (if ch = CHR ''='' then
        (if 2 \<le> qp then
           (if 4 \<le> qp + (pads + 1) then Inr (rev acc) else a2b_base64 qp left (pads + 1) r acc)
         else a2b_base64 qp left pads r acc)
      else
        (case b64_val ch of
           None \<Rightarrow> a2b_base64 qp left pads r acc
         | Some v \<Rightarrow>
             (if qp = 0 then a2b_base64 1 v 0 r acc
              else if qp = 1 then
                a2b_base64 2 (v mod 16) 0 r (char_of (left * 4 + v div 16) # acc)
              else if qp = 2 then
                a2b_base64 3 (v mod 4) 0 r (char_of (left * 16 + v div 4) # acc)
              else a2b_base64 0 0 0 r (char_of (left * 64 + v) # acc))))"

definition urlsafe_b64decode :: "string \<Rightarrow> string res" where
  "urlsafe_b64decode s = a2b_base64 0 0 0 s []"

section \<open>UUID text\<close>

definition hex_digit :: "nat \<Rightarrow> char" where
  "hex_digit n = ''0123456789abcdef'' ! n"

definition hex_val :: "char \<Rightarrow> nat option" where
  "hex_val c =
     (if 48 \<le> code c \<and> code c \<le> 57 then Some (code c - 48)
      else if 97 \<le> code c \<and> code c \<le> 102 then Some (code c - 87)
      else if 65 \<le> code c \<and> code c \<le> 70 then Some (code c - 55)
      else None)"

text \<open>\<^verbatim>\<open>'%032x' % self.int\<close>: the last \<open>n\<close> hexadecimal digits, most significant first.\<close>

fun to_hex :: "nat \<Rightarrow> nat \<Rightarrow> string" where
  "to_hex 0 u = []"
| "to_hex (Suc n) u = to_hex n (u div 16) @ [hex_digit (u mod 16)]"

definition uuid_hex :: "uuid \<Rightarrow> string" where
  "uuid_hex u = to_hex 32 u"

text \<open>
  The digits of \<^verbatim>\<open>int(s, 16)\<close>, with the underscores Python allows between digits:
  \<open>prev\<close> says whether the previous character was an underscore.
\<close>

fun hex_digits :: "bool \<Rightarrow> nat \<Rightarrow> string \<Rightarrow> nat option" where
  "hex_digits prev acc [] = (if prev then None else Some acc)"
| "hex_digits prev acc (c # cs) =
     (if c = CHR ''_'' then (if prev then None else hex_digits True acc cs)
      else (case hex_val c of
              None \<Rightarrow> None
            | Some v \<Rightarrow> hex_digits False (acc * 16 + v) cs))"

text \<open>\<^verbatim>\<open>int(s, 16)\<close>: surrounding white space, a sign and a \<^verbatim>\<open>0x\<close> prefix are accepted.\<close>

definition py_int16 :: "string \<Rightarrow> int res" where
  "py_int16 s0 =
     (let s = py_strip s0;
          neg = (case s of c # _ \<Rightarrow> c = CHR ''-'' | _ \<Rightarrow> False);
          s1 = (case s of c # r \<Rightarrow> if c = CHR ''-'' \<or> c = CHR ''+'' then r else s | _ \<Rightarrow> s);
          s2 = (case s1 of
                  z # x # r \<Rightarrow>
                    if z = CHR ''0'' \<and> (x = CHR ''x'' \<or> x = CHR ''X'')
                    then (case r of u # r' \<Rightarrow> if u = CHR ''_'' then r' else r | _ \<Rightarrow> r)
                    else s1
                | _ \<Rightarrow> s1)
      in case s2 of
           [] \<Rightarrow> Inl ValueError
         | c # _ \<Rightarrow>
             if c = CHR ''_'' then Inl ValueError
             else (case hex_digits False 0 s2 of
                     None \<Rightarrow> Inl ValueError
                   | Some n \<Rightarrow> Inr (if neg then - int n else int n)))"

text \<open>\<^verbatim>\<open>uuid.UUID(hex=s)\<close>.\<close>

definition uuid_of_hex :: "string \<Rightarrow> uuid res" where
  "uuid_of_hex s0 =
     (let s1 = py_remove ''uuid:'' (py_remove ''urn:'' s0);
          brace = (\<lambda>c. c = CHR ''{'' \<or> c = CHR ''}'');
          s2 = rev (dropWhile brace (rev (dropWhile brace s1)));
          s3 = py_remove ''-'' s2
      in if length s3 \<noteq> 32 then Inl ValueError
         else exc_bind (py_int16 s3) (\<lambda>i.
           if 0 \<le> i \<and> i < 2 ^ 128 then Inr (nat i) else Inl ValueError))"

section \<open>\<^verbatim>\<open>core/cursor.py\<close>\<close>

definition CURSOR_VERSION :: string where
  "CURSOR_VERSION = ''v1''"

definition encode_cursor :: "string \<Rightarrow> string" where
  "encode_cursor value = py_rstrip_char CHR ''='' (b64_encode value)"

definition decode_cursor :: "string \<Rightarrow> string res" where
  "decode_cursor cursor =
     (let padding = 4 - py_len cursor mod 4;
          padded = (if padding \<noteq> 4 then cursor @ replicate padding CHR ''='' else cursor)
      in exc_bind (urlsafe_b64decode padded) py_decode)"

definition encode_versioned_cursor :: "string \<Rightarrow> string" where
  "encode_versioned_cursor payload = encode_cursor (CURSOR_VERSION @ '':'' @ payload)"

definition decode_versioned_cursor :: "string \<Rightarrow> string res" where
  "decode_versioned_cursor cursor =
     (case decode_cursor cursor of
        Inl _ \<Rightarrow> Inl CursorExpiredError
      | Inr raw \<Rightarrow>
          (case py_partition CHR '':'' raw of (version, sep, payload) \<Rightarrow>
             if sep = [] \<or> version \<noteq> CURSOR_VERSION \<or> payload = []
             then Inl CursorExpiredError
             else Inr payload))"

text \<open>
  The body shared by \<^verbatim>\<open>decode_page_cursor\<close> and the value object's \<^verbatim>\<open>decode_cursor\<close>, once the
  cursor is plain text; it raises \<^const>\<open>ValueError\<close>.
\<close>

definition split_page_cursor :: "string \<Rightarrow> (string \<times> string \<times> string \<times> uuid) res" where
  "split_page_cursor raw =
     (case py_rpartition CHR ''|'' raw of (pfx, _, id_hex) \<Rightarrow>
      case py_partition CHR '':'' pfx of (sort_by, _, rest) \<Rightarrow>
      case py_partition CHR '':'' rest of (sort_dir, _, val) \<Rightarrow>
        if sort_by = [] \<or> sort_dir \<notin> {''asc'', ''desc''} \<or> id_hex = [] then Inl ValueError
        else exc_bind (uuid_of_hex id_hex) (\<lambda>u. Inr (sort_by, sort_dir, val, u)))"

definition decode_page_cursor :: "string \<Rightarrow> (string \<times> string \<times> string \<times> uuid) res" where
  "decode_page_cursor cursor =
     (case exc_bind (decode_cursor cursor) split_page_cursor of
        Inl _ \<Rightarrow> Inl ValidationError
      | Inr r \<Rightarrow> Inr r)"

section \<open>\<^verbatim>\<open>domain/value_objects/cursor.py\<close>\<close>

record cursor =
  c_sort_by :: string
  c_sort_dir :: string
  c_value :: string
  c_tiebreak_id :: uuid

definition cursor_matches :: "cursor \<Rightarrow> string \<Rightarrow> string \<Rightarrow> bool" where
  "cursor_matches c sort_by sort_dir \<longleftrightarrow> c_sort_by c = sort_by \<and> c_sort_dir c = sort_dir"

definition cursor_encode :: "cursor \<Rightarrow> string" where
  "cursor_encode c =
     py_rstrip_char CHR ''='' (b64_encode
       (c_sort_by c @ '':'' @ c_sort_dir c @ '':'' @ c_value c @ ''|'' @ uuid_hex (c_tiebreak_id c)))"

definition vo_decode_cursor :: "string \<Rightarrow> cursor res" where
  "vo_decode_cursor raw =
     (let padding = 4 - py_len raw mod 4;
          padded = (if padding \<noteq> 4 then raw @ replicate padding CHR ''='' else raw)
      in case exc_bind (exc_bind (urlsafe_b64decode padded) py_decode) split_page_cursor of
           Inl _ \<Rightarrow> Inl ValueError
         | Inr (sort_by, sort_dir, val, u) \<Rightarrow>
             Inr \<lparr>c_sort_by = sort_by, c_sort_dir = sort_dir, c_value = val, c_tiebreak_id = u\<rparr>)"

section \<open>Base64 round trip\<close>

lemma b64_table: "list_all (\<lambda>n. b64_val (b64_chr n) = Some n \<and> b64_chr n \<noteq> CHR ''=''
    \<and> code (b64_chr n) < 128) [0..<64]"
  by code_simp

lemma b64_chr_simps [simp]:
  assumes "n < 64"
  shows "b64_val (b64_chr n) = Some n" "b64_chr n \<noteq> CHR ''=''" "code (b64_chr n) < 128"
  using b64_table assms by (auto simp: list_all_iff)

lemma sextet_bounds [simp]:
  "code a div 4 < 64" "code a mod 4 * 16 < 64" "code a mod 4 * 16 + code b div 16 < 64"
  "code b mod 16 * 4 < 64" "code b mod 16 * 4 + code c div 64 < 64" "code c mod 64 < 64"
proof -
  have h: "code a < 256" "code b < 256" "code c < 256" by simp_all
  show "code a div 4 < 64" using h by linarith
  show "code a mod 4 * 16 < 64" by simp
  show "code a mod 4 * 16 + code b div 16 < 64" using h by linarith
  show "code b mod 16 * 4 < 64" by simp
  show "code b mod 16 * 4 + code c div 64 < 64" using h by linarith
  show "code c mod 64 < 64" by simp
qed

lemma code_div_simps [simp]:
  "code b div 16 div 16 = 0" "code b div 16 mod 16 = code b div 16"
  "code b div 64 div 4 = 0" "code b div 64 mod 4 = code b div 64"
proof -
  have h: "code b < 256" by simp
  show "code b div 16 div 16 = 0" using h by linarith
  show "code b div 16 mod 16 = code b div 16" using h by (intro mod_less) linarith
  show "code b div 64 div 4 = 0" using h by linarith
  show "code b div 64 mod 4 = code b div 64" using h by (intro mod_less) linarith
qed

lemma sextet_join:
  "char_of (code a div 4 * 4 + (code a mod 4 * 16) div 16) = a"
  "char_of (code a div 4 * 4 + (code a mod 4 * 16 + code b div 16) div 16) = a"
  "char_of ((code a mod 4 * 16 + code b div 16) mod 16 * 16 + (code b mod 16 * 4) div 4) = b"
  "char_of ((code a mod 4 * 16 + code b div 16) mod 16 * 16
     + (code b mod 16 * 4 + code c div 64) div 4) = b"
  "char_of ((code b mod 16 * 4 + code c div 64) mod 4 * 64 + code c mod 64) = c"
  by (simp_all add: div_mult_mod_eq)

lemma a2b_encode: "a2b_base64 0 0 0 (b64_encode s) acc = Inr (rev acc @ s)"
proof (induction s arbitrary: acc rule: b64_encode.induct)
  case 1
  then show ?case by simp
next
  case (2 a)
  then show ?case by (simp add: sextet_join)
next
  case (3 a b)
  then show ?case by (simp add: sextet_join)
next
  case (4 a b c r)
  then show ?case by (simp add: sextet_join)
qed

lemma urlsafe_b64decode_encode: "urlsafe_b64decode (b64_encode s) = Inr s"
  by (simp add: urlsafe_b64decode_def a2b_encode)

text \<open>What \<^verbatim>\<open>rstrip('=')\<close> removes is exactly what the decoder's padding restores.\<close>

fun b64_body :: "string \<Rightarrow> string" where
  "b64_body [] = []"
| "b64_body [a] = [b64_chr (code a div 4), b64_chr (code a mod 4 * 16)]"
| "b64_body [a, b] =
     [b64_chr (code a div 4), b64_chr (code a mod 4 * 16 + code b div 16),
      b64_chr (code b mod 16 * 4)]"
| "b64_body (a # b # c # r) =
     [b64_chr (code a div 4), b64_chr (code a mod 4 * 16 + code b div 16),
      b64_chr (code b mod 16 * 4 + code c div 64), b64_chr (code c mod 64)] @ b64_body r"

lemma b64_body_chars: "c \<in> set (b64_body s) \<Longrightarrow> c \<noteq> CHR ''='' \<and> code c < 128"
  by (induction s rule: b64_body.induct) auto

lemma b64_pad:
  "let p = 4 - length (b64_body s) mod 4
   in b64_encode s = (if p \<noteq> 4 then b64_body s @ replicate p CHR ''='' else b64_body s)"
proof (induction s rule: b64_body.induct)
  case (2 a)
  have "replicate 2 CHR ''='' = ''==''" by (simp add: numeral_2_eq_2)
  then show ?case by (simp add: Let_def)
next
  case (4 a b c r)
  then show ?case by (simp add: Let_def split: if_splits)
qed (simp_all add: Let_def)

lemma rstrip_replicate:
  assumes "\<And>x. x \<in> set s \<Longrightarrow> x \<noteq> c"
  shows "py_rstrip_char c (s @ replicate n c) = s"
proof -
  have "dropWhile (\<lambda>x. x = c) (rev s) = rev s" using assms by (intro dropWhile_id) simp
  then show ?thesis by (simp add: py_rstrip_char_def dropWhile_append)
qed

lemma rstrip_encode: "py_rstrip_char CHR ''='' (b64_encode s) = b64_body s"
proof -
  obtain p where "b64_encode s = b64_body s @ replicate p CHR ''=''"
    using b64_pad[of s] by (metis append_Nil2 replicate_0)
  then show ?thesis by (simp add: rstrip_replicate b64_body_chars)
qed

lemma encode_cursor_body: "encode_cursor s = b64_body s"
  by (simp add: encode_cursor_def rstrip_encode)

lemma py_len_body: "py_len (b64_body s) = length (b64_body s)"
  by (rule py_len_ascii) (simp add: b64_body_chars)

lemma decode_padded:
  "(let padding = 4 - py_len (b64_body s) mod 4
    in if padding \<noteq> 4 then b64_body s @ replicate padding CHR ''='' else b64_body s) = b64_encode s"
  using b64_pad[of s] by (simp add: py_len_body Let_def)

lemma decode_encode_cursor: "utf8_valid s \<Longrightarrow> decode_cursor (encode_cursor s) = Inr s"
  using decode_padded[of s]
  by (simp add: decode_cursor_def encode_cursor_body Let_def urlsafe_b64decode_encode py_decode_def)

section \<open>UUID round trip\<close>

definition is_hexc :: "char \<Rightarrow> bool" where
  "is_hexc c \<longleftrightarrow> c \<in> set ''0123456789abcdef''"

lemma hex_table: "list_all (\<lambda>n. hex_val (hex_digit n) = Some n \<and> is_hexc (hex_digit n)) [0..<16]"
  by code_simp

lemma hex_digit_simps [simp]:
  assumes "n < 16"
  shows "hex_val (hex_digit n) = Some n" "is_hexc (hex_digit n)"
  using hex_table assms by (auto simp: list_all_iff)

lemma hexc_table: "list_all (\<lambda>c. c \<notin> set ''urn{}-+_xX|:'' \<and> \<not> py_isspace c \<and> code c < 128) ''0123456789abcdef''"
  by code_simp

lemma is_hexc_facts:
  assumes "is_hexc c"
  shows "c \<notin> set ''urn{}-+_xX|:''" "\<not> py_isspace c" "code c < 128"
  using hexc_table assms by (auto simp: list_all_iff is_hexc_def)

lemma to_hex_chars: "c \<in> set (to_hex n u) \<Longrightarrow> is_hexc c"
  by (induction n arbitrary: u) auto

lemma to_hex_length [simp]: "length (to_hex n u) = n"
  by (induction n arbitrary: u) auto

lemma hex_digits_append:
  "(\<And>c. c \<in> set s \<Longrightarrow> is_hexc c) \<Longrightarrow> hex_digits False acc s = Some m \<Longrightarrow>
   hex_digits False acc (s @ t) = hex_digits False m t"
proof (induction s arbitrary: acc)
  case Nil
  then show ?case by simp
next
  case (Cons c s)
  then have "c \<noteq> CHR ''_''" using is_hexc_facts(1)[of c] by auto
  with Cons show ?case by (auto split: option.splits)
qed

lemma hex_digits_to_hex: "hex_digits False 0 (to_hex n u) = Some (u mod 16 ^ n)"
proof (induction n arbitrary: u)
  case 0
  then show ?case by simp
next
  case (Suc n)
  have ne: "hex_digit (u mod 16) \<noteq> CHR ''_''" using is_hexc_facts(1)[of "hex_digit (u mod 16)"] by auto
  have "u mod 16 ^ Suc n = (u div 16) mod 16 ^ n * 16 + u mod 16"
    by (metis add.commute mod_mult2_eq mult.commute power_Suc)
  then show ?case
    using hex_digits_append[OF _ Suc.IH[of "u div 16"], where t = "[hex_digit (u mod 16)]"] ne to_hex_chars
    by simp
qed

lemma to_hex_avoids: "c \<in> set ''urn{}-+_xX|:'' \<Longrightarrow> c \<notin> set (to_hex n u)"
  using to_hex_chars is_hexc_facts(1) by blast

lemma py_int16_plain:
  assumes "\<And>c. c \<in> set s \<Longrightarrow> is_hexc c" and "s \<noteq> []"
  shows "py_int16 s = (case hex_digits False 0 s of None \<Rightarrow> Inl ValueError | Some n \<Rightarrow> Inr (int n))"
proof -
  obtain a r where s: "s = a # r" using assms(2) by (cases s) auto
  have strip: "py_strip s = s" using assms(1) is_hexc_facts(2) by (intro py_strip_id) blast
  have a: "a \<noteq> CHR ''-''" "a \<noteq> CHR ''+''" "a \<noteq> CHR ''_''"
    using assms(1) is_hexc_facts(1)[of a] s by auto
  have x: "b \<noteq> CHR ''x''" "b \<noteq> CHR ''X''" if "b \<in> set r" for b
    using assms(1) is_hexc_facts(1)[of b] s that by auto
  have strip': "py_strip (a # r) = a # r" using strip s by simp
  show ?thesis
    using a x unfolding py_int16_def s strip' Let_def by (cases r) (auto simp del: hex_digits.simps split: option.splits)
qed

lemma uuid_hex_roundtrip: "u < 2 ^ 128 \<Longrightarrow> uuid_of_hex (uuid_hex u) = Inr u"
proof -
  assume u: "u < 2 ^ 128"
  let ?s = "to_hex 32 u"
  have brace: "\<not> (c = CHR ''{'' \<or> c = CHR ''}'')" if "c \<in> set ?s" for c
    using to_hex_avoids[of "CHR ''{''" 32 u] to_hex_avoids[of "CHR ''}''" 32 u] that by auto
  have d1: "dropWhile (\<lambda>c. c = CHR ''{'' \<or> c = CHR ''}'') ?s = ?s"
    using brace by (intro dropWhile_id) blast
  have d2: "dropWhile (\<lambda>c. c = CHR ''{'' \<or> c = CHR ''}'') (rev ?s) = rev ?s"
    using brace by (intro dropWhile_id) simp
  have rm: "py_remove ''urn:'' ?s = ?s" "py_remove ''uuid:'' ?s = ?s" "py_remove ''-'' ?s = ?s"
    by (simp_all add: py_remove_absent to_hex_avoids)
  have "?s \<noteq> []" by (simp flip: length_greater_0_conv)
  then have "py_int16 ?s = Inr (int (u mod 16 ^ 32))"
    using py_int16_plain[of ?s] to_hex_chars by (simp add: hex_digits_to_hex)
  moreover have "u mod 16 ^ 32 = u" using u by simp
  ultimately have "py_int16 ?s = Inr (int u)" by simp
  moreover have "int u < 2 ^ 128" using u by (metis of_nat_less_iff of_nat_numeral of_nat_power)
  ultimately show ?thesis by (simp add: uuid_of_hex_def uuid_hex_def Let_def rm d1 d2)
qed

lemma uuid_hex_no_bar: "CHR ''|'' \<notin> set (uuid_hex u)"
  by (simp add: uuid_hex_def to_hex_avoids)

lemma uuid_hex_ascii: "c \<in> set (uuid_hex u) \<Longrightarrow> code c < 128"
  using to_hex_chars is_hexc_facts(3) unfolding uuid_hex_def by blast

lemma uuid_hex_nonempty: "uuid_hex u \<noteq> []"
  by (simp add: uuid_hex_def flip: length_greater_0_conv)

section \<open>Cursor properties\<close>

text \<open>A well-formed sort position: what a repository puts into a page cursor.\<close>

definition cursor_ok :: "cursor \<Rightarrow> bool" where
  "cursor_ok c \<longleftrightarrow> c_sort_by c \<noteq> [] \<and> CHR '':'' \<notin> set (c_sort_by c) \<and> (\<forall>x \<in> set (c_sort_by c). code x < 128)
     \<and> c_sort_dir c \<in> {''asc'', ''desc''} \<and> utf8_valid (c_value c) \<and> c_tiebreak_id c < 2 ^ 128"

definition cursor_text :: "cursor \<Rightarrow> string" where
  "cursor_text c = c_sort_by c @ '':'' @ c_sort_dir c @ '':'' @ c_value c @ ''|'' @ uuid_hex (c_tiebreak_id c)"

lemma cursor_text_valid: "cursor_ok c \<Longrightarrow> utf8_valid (cursor_text c)"
  unfolding cursor_text_def
  by (intro utf8_valid_append) (auto simp: cursor_ok_def utf8_valid_def intro: utf8_valid_ascii[unfolded utf8_valid_def] dest: uuid_hex_ascii)

lemma split_page_cursor_text:
  assumes "cursor_ok c"
  shows "split_page_cursor (cursor_text c) =
    Inr (c_sort_by c, c_sort_dir c, c_value c, c_tiebreak_id c)"
proof -
  have bar: "py_rpartition CHR ''|'' (cursor_text c) =
      (c_sort_by c @ '':'' @ c_sort_dir c @ '':'' @ c_value c, ''|'', uuid_hex (c_tiebreak_id c))"
    using py_rpartition_found[OF uuid_hex_no_bar, of "c_sort_by c @ '':'' @ c_sort_dir c @ '':'' @ c_value c"]
    by (simp add: cursor_text_def)
  have "CHR '':'' \<notin> set (c_sort_dir c)" using assms by (auto simp: cursor_ok_def)
  then have col: "py_partition CHR '':'' (c_sort_dir c @ '':'' @ c_value c) = (c_sort_dir c, '':'', c_value c)"
    using py_partition_found[of "CHR '':''" "c_sort_dir c" "c_value c"] by simp
  have "py_partition CHR '':'' (c_sort_by c @ '':'' @ c_sort_dir c @ '':'' @ c_value c)
      = (c_sort_by c, '':'', c_sort_dir c @ '':'' @ c_value c)"
    using assms py_partition_found[of "CHR '':''" "c_sort_by c"] by (simp add: cursor_ok_def)
  then show ?thesis
    using assms bar col
    by (simp add: split_page_cursor_def uuid_hex_nonempty uuid_hex_roundtrip cursor_ok_def)
qed

lemma encode_page: "cursor_encode c = encode_cursor (cursor_text c)"
  by (simp add: cursor_encode_def encode_cursor_def cursor_text_def)

text \<open>
  C31: a page cursor built from a sort key, a direction, a position and a row id (the value
  object's \<^verbatim>\<open>Cursor.encode\<close>) decodes to exactly these four components, through the repository
  helper \<^verbatim>\<open>decode_page_cursor\<close> and through the value object's \<^verbatim>\<open>decode_cursor\<close>. The position may
  hold any text, the separators \<^verbatim>\<open>:\<close> and \<^verbatim>\<open>|\<close> included.
\<close>

theorem page_cursor_roundtrip:
  assumes "cursor_ok c"
  shows "decode_page_cursor (cursor_encode c) =
           Inr (c_sort_by c, c_sort_dir c, c_value c, c_tiebreak_id c)
         \<and> vo_decode_cursor (cursor_encode c) = Inr c"
proof
  have dec: "decode_cursor (cursor_encode c) = Inr (cursor_text c)"
    using assms by (simp add: encode_page decode_encode_cursor cursor_text_valid)
  show "decode_page_cursor (cursor_encode c) =
      Inr (c_sort_by c, c_sort_dir c, c_value c, c_tiebreak_id c)"
    using assms by (simp add: decode_page_cursor_def dec split_page_cursor_text)
  show "vo_decode_cursor (cursor_encode c) = Inr c"
    using assms dec
    by (simp add: vo_decode_cursor_def decode_cursor_def Let_def split_page_cursor_text)
qed

theorem page_cursor_roundtrip_witness:
  "let c = \<lparr>c_sort_by = ''subject'', c_sort_dir = ''desc'', c_value = ''a:b|c'', c_tiebreak_id = 42\<rparr>
   in cursor_ok c \<and> decode_page_cursor (cursor_encode c) = Inr (''subject'', ''desc'', ''a:b|c'', 42)"
proof -
  let ?c = "\<lparr>c_sort_by = ''subject'', c_sort_dir = ''desc'', c_value = ''a:b|c'', c_tiebreak_id = 42\<rparr>"
  have ok: "cursor_ok ?c" by (simp add: cursor_ok_def utf8_valid_def)
  show ?thesis using ok page_cursor_roundtrip[OF ok] by (simp add: Let_def)
qed

text \<open>
  A versioned cursor decodes to its payload, and conversely the only cursor texts that
  decode at all are \<^verbatim>\<open>v1:\<close> followed by a non-empty payload: a cursor issued before versioning,
  or by another version, never yields a page.
\<close>

theorem versioned_cursor_envelope:
  assumes "utf8_valid raw"
  shows "decode_versioned_cursor (encode_cursor raw) = Inr payload
           \<longleftrightarrow> payload \<noteq> [] \<and> encode_cursor raw = encode_versioned_cursor payload
               \<and> raw = CURSOR_VERSION @ '':'' @ payload"
proof -
  obtain v m p where part: "py_partition CHR '':'' raw = (v, m, p)" by (metis prod_cases3)
  have raw: "raw = v @ m @ p" using part by (rule py_partition_eq)
  have m: "m = [] \<or> m = '':''" using part
    by (induction raw arbitrary: v) (auto split: if_splits prod.splits)
  have col: "CHR '':'' \<notin> set CURSOR_VERSION" by (simp add: CURSOR_VERSION_def)
  have conv: "v = CURSOR_VERSION \<and> m = '':'' \<and> p = payload"
    if "raw = CURSOR_VERSION @ '':'' @ payload"
    using part py_partition_found[OF col, of payload] that by simp
  have dec: "decode_versioned_cursor (encode_cursor raw) = Inr payload
      \<longleftrightarrow> m \<noteq> [] \<and> v = CURSOR_VERSION \<and> p = payload \<and> p \<noteq> []"
    by (auto simp: decode_versioned_cursor_def decode_encode_cursor assms part)
  show ?thesis
  proof
    assume "decode_versioned_cursor (encode_cursor raw) = Inr payload"
    then have "m = '':''" "v = CURSOR_VERSION" "p = payload" "p \<noteq> []" using dec m by auto
    with raw show "payload \<noteq> [] \<and> encode_cursor raw = encode_versioned_cursor payload
        \<and> raw = CURSOR_VERSION @ '':'' @ payload"
      by (simp add: encode_versioned_cursor_def)
  next
    assume "payload \<noteq> [] \<and> encode_cursor raw = encode_versioned_cursor payload
        \<and> raw = CURSOR_VERSION @ '':'' @ payload"
    with dec conv show "decode_versioned_cursor (encode_cursor raw) = Inr payload" by simp
  qed
qed

theorem versioned_cursor_envelope_witness:
  "decode_versioned_cursor (encode_cursor ''v1:42|ab'') = Inr ''42|ab''
   \<and> decode_versioned_cursor (encode_cursor ''42|ab'') \<noteq> Inr ''42|ab''"
proof -
  have v: "utf8_valid ''v1:42|ab''" "utf8_valid ''42|ab''" by (simp_all add: utf8_valid_def)
  show ?thesis
    using versioned_cursor_envelope[OF v(1), of "''42|ab''"] versioned_cursor_envelope[OF v(2), of "''42|ab''"]
    by (simp add: CURSOR_VERSION_def encode_versioned_cursor_def)
qed

text \<open>
  Whatever text a client sends as a cursor, the decoders raise nothing but their
  documented exceptions: \<^const>\<open>CursorExpiredError\<close> for versioned cursors,
  \<^const>\<open>ValidationError\<close> for page cursors and \<^const>\<open>ValueError\<close> for the value object.
\<close>

theorem cursor_decoders_fail_closed:
  "decode_versioned_cursor s \<in> {Inl CursorExpiredError} \<union> range Inr
   \<and> decode_page_cursor s \<in> {Inl ValidationError} \<union> range Inr
   \<and> vo_decode_cursor s \<in> {Inl ValueError} \<union> range Inr"
proof (intro conjI)
  show "decode_versioned_cursor s \<in> {Inl CursorExpiredError} \<union> range Inr"
    unfolding decode_versioned_cursor_def by (cases "decode_cursor s") (simp_all split: prod.split)
  show "decode_page_cursor s \<in> {Inl ValidationError} \<union> range Inr"
    unfolding decode_page_cursor_def by (cases "exc_bind (decode_cursor s) split_page_cursor") simp_all
  show "vo_decode_cursor s \<in> {Inl ValueError} \<union> range Inr"
    unfolding vo_decode_cursor_def Let_def by (split sum.split) (simp split: prod.split)
qed

end
