(* ===== verification/Conflict_Matching.thy ===== *)
theory Conflict_Matching
  imports Fact_Repository Cursor
begin

text \<open>
  Identity of facts: \<^verbatim>\<open>src/services/facts/conflict_matching.py\<close>. How a raw input fact becomes
  an entry (its row, its name identity, the keys its conflicts are looked up by), and the rule
  that decides whether an entry supersedes a stored fact. \<^verbatim>\<open>datetime.fromisoformat\<close> is the
  parameter \<open>fromiso\<close>; nothing is assumed of it.
\<close>

section \<open>Normalization\<close>

text \<open>The characters the pattern \<^verbatim>\<open>[^a-z0-9\s]\<close> keeps.\<close>

definition keep_char :: "char \<Rightarrow> bool" where
  "keep_char c \<longleftrightarrow> (97 \<le> code c \<and> code c \<le> 122) \<or> (48 \<le> code c \<and> code c \<le> 57) \<or> py_isspace c"

definition normalize_identity_term :: "string option \<Rightarrow> string" where
  "normalize_identity_term t =
     (case t of None \<Rightarrow> [] | Some s \<Rightarrow> py_strip (filter keep_char (py_lower s)))"

datatype bound = BNone | BTime datetime | BStr string | BOther

definition parse_validity_bound ::
  "(string \<Rightarrow> datetime option) \<Rightarrow> bound \<Rightarrow> datetime option \<Rightarrow> datetime option res" where
  "parse_validity_bound fromiso v dflt =
     (case v of
        BNone \<Rightarrow> Inr dflt
      | BTime t \<Rightarrow> Inr (Some t)
      | BStr s \<Rightarrow>
          (let text = py_strip s;
               text' = (if text \<noteq> [] \<and> last text = CHR ''Z'' then butlast text @ ''+00:00'' else text)
           in case fromiso text' of None \<Rightarrow> Inl ValueError | Some t \<Rightarrow> Inr (Some t))
      | BOther \<Rightarrow> Inl ValidationError)"

section \<open>Entries\<close>

type_synonym name_identity = "string \<times> string \<times> string"

datatype eid = EUuid uuid | EStr string

text \<open>An input fact dictionary; \<^const>\<open>None\<close> is a key that is absent or holds \<^verbatim>\<open>None\<close>.\<close>

record fact_in =
  i_subject :: "string option"
  i_predicate :: "string option"
  i_object :: "string option"
  i_content :: "string option"
  i_confidence :: "rat option"
  i_subject_type :: "string option"
  i_object_type :: "string option"
  i_subject_entity_id :: "eid option"
  i_object_entity_id :: "eid option"
  i_valid_from :: bound
  i_valid_to :: bound

record entry =
  e_name_identity :: name_identity
  e_match_keys :: "match_key list"
  e_triple :: name_identity
  e_row :: fact_row

definition uuid_str :: "uuid \<Rightarrow> string" where
  "uuid_str u =
     (let h = uuid_hex u
      in take 8 h @ ''-'' @ take 4 (drop 8 h) @ ''-'' @ take 4 (drop 12 h) @ ''-''
         @ take 4 (drop 16 h) @ ''-'' @ drop 20 h)"

definition lock_key_for_identity :: "uuid \<Rightarrow> uuid \<Rightarrow> name_identity \<Rightarrow> string" where
  "lock_key_for_identity org proj n =
     (case n of (subject, predicate, obj) \<Rightarrow>
        ''sup:'' @ uuid_str org @ '':'' @ uuid_str proj @ '':'' @ subject @ '':'' @ predicate @ '':'' @ obj)"

text \<open>An entity id given as text is parsed; an empty text is no id.\<close>

definition resolve_eid :: "eid option \<Rightarrow> uuid option res" where
  "resolve_eid e =
     (case e of
        None \<Rightarrow> Inr None
      | Some (EUuid u) \<Rightarrow> Inr (Some u)
      | Some (EStr s) \<Rightarrow> if s = [] then Inr None else exc_bind (uuid_of_hex s) (\<lambda>u. Inr (Some u)))"

definition or_empty :: "string option \<Rightarrow> string" where
  "or_empty s = (case s of None \<Rightarrow> [] | Some t \<Rightarrow> t)"

text \<open>The dictionary \<^verbatim>\<open>_prepare_entry\<close> returns, from the stripped terms and the parsed fields.\<close>

definition scan_keys :: "string \<Rightarrow> string \<Rightarrow> string \<Rightarrow> uuid option \<Rightarrow> uuid option \<Rightarrow> match_key list" where
  "scan_keys subject predicate obj sid oid =
     (case (sid, oid) of
        (Some s, Some ob) \<Rightarrow> [(KUuid s, predicate, KUuid ob), (KStr subject, predicate, KStr obj)]
      | _ \<Rightarrow> [(KStr subject, predicate, KStr obj)])"

definition build_entry ::
  "fact_in \<Rightarrow> uuid option \<Rightarrow> uuid option \<Rightarrow> uuid option \<Rightarrow> datetime option \<Rightarrow> datetime option \<Rightarrow> entry" where
  "build_entry fd source_episode_id sid oid valid_from valid_to =
     (let subject = py_strip (or_empty (i_subject fd));
          predicate = py_strip (or_empty (i_predicate fd));
          obj = py_strip (or_empty (i_object fd))
      in \<lparr>e_name_identity = (normalize_identity_term (Some subject),
                              normalize_identity_term (Some predicate),
                              normalize_identity_term (Some obj)),
          e_match_keys = scan_keys subject predicate obj sid oid,
          e_triple = (subject, predicate, obj),
          e_row =
            \<lparr>r_subject = subject, r_predicate = predicate, r_object = obj,
             r_content = (if or_empty (i_content fd) \<noteq> [] then or_empty (i_content fd)
                          else subject @ '' '' @ predicate @ '' '' @ obj),
             r_confidence = (case i_confidence fd of None \<Rightarrow> 1 | Some c \<Rightarrow> c),
             r_subject_type = (case i_subject_type fd of None \<Rightarrow> ''literal'' | Some t \<Rightarrow> t),
             r_object_type = (case i_object_type fd of None \<Rightarrow> ''literal'' | Some t \<Rightarrow> t),
             r_subject_entity_id = sid, r_object_entity_id = oid,
             r_source_episode_id = source_episode_id,
             r_valid_from = valid_from, r_valid_to = valid_to\<rparr>\<rparr>)"

definition prepare_entry ::
  "(string \<Rightarrow> datetime option) \<Rightarrow> fact_in \<Rightarrow> uuid option \<Rightarrow> datetime \<Rightarrow> entry res" where
  "prepare_entry fromiso fd source_episode_id now =
     exc_bind (resolve_eid (i_subject_entity_id fd)) (\<lambda>sid.
     exc_bind (resolve_eid (i_object_entity_id fd)) (\<lambda>oid.
     exc_bind (parse_validity_bound fromiso (i_valid_from fd) (Some now)) (\<lambda>valid_from.
     exc_bind (parse_validity_bound fromiso (i_valid_to fd) None) (\<lambda>valid_to.
       Inr (build_entry fd source_episode_id sid oid valid_from valid_to)))))"

section \<open>Matching\<close>

text \<open>The form-sensitive identity: entity ids when both are known, else normalized names.\<close>

definition identity_of_fact :: "fact \<Rightarrow> key_term \<times> string option \<times> key_term" where
  "identity_of_fact f =
     (case (f_subject_entity_id f, f_object_entity_id f) of
        (Some s, Some ob) \<Rightarrow> (KUuid s, f_predicate f, KUuid ob)
      | _ \<Rightarrow> (KStr (normalize_identity_term (f_subject f)),
              Some (normalize_identity_term (f_predicate f)),
              KStr (normalize_identity_term (f_object f))))"

definition name_identity_of_fact :: "fact \<Rightarrow> name_identity" where
  "name_identity_of_fact f =
     (normalize_identity_term (f_subject f), normalize_identity_term (f_predicate f),
      normalize_identity_term (f_object f))"

fun is_uuid :: "key_term \<Rightarrow> bool" where
  "is_uuid (KUuid u) = True"
| "is_uuid (KStr s) = False"

definition names_match :: "fact_row \<Rightarrow> fact \<Rightarrow> bool" where
  "names_match row candidate \<longleftrightarrow>
     normalize_identity_term (Some (r_subject row)) = normalize_identity_term (f_subject candidate)
     \<and> normalize_identity_term (Some (r_predicate row)) = normalize_identity_term (f_predicate candidate)
     \<and> normalize_identity_term (Some (r_object row)) = normalize_identity_term (f_object candidate)"

definition candidate_conflicts :: "entry \<Rightarrow> fact \<Rightarrow> bool" where
  "candidate_conflicts e candidate =
     (let row = e_row e;
          entry_resolved = (r_subject_entity_id row \<noteq> None \<and> r_object_entity_id row \<noteq> None);
          (cs, cp, co) = identity_of_fact candidate
      in if entry_resolved \<and> is_uuid cs \<and> is_uuid co
         then map_option KUuid (r_subject_entity_id row) = Some cs
              \<and> Some (r_predicate row) = cp
              \<and> map_option KUuid (r_object_entity_id row) = Some co
         else names_match row candidate)"

section \<open>Properties of the identity\<close>

lemma py_lower_keep: "keep_char c \<Longrightarrow> py_lower_char c = c"
  by (auto simp: keep_char_def py_lower_char_def py_isspace_def)

lemma normalize_chars: "c \<in> set (normalize_identity_term t) \<Longrightarrow> keep_char c"
  using set_py_strip by (fastforce simp: normalize_identity_term_def split: option.splits)

lemma normalize_none [simp]: "normalize_identity_term None = []" "normalize_identity_term (Some []) = []"
  by (simp_all add: normalize_identity_term_def py_lower_def py_strip_def)

lemma normalize_idem [simp]:
  "normalize_identity_term (Some (normalize_identity_term t)) = normalize_identity_term t"
proof -
  let ?n = "normalize_identity_term t"
  have "py_lower ?n = ?n" unfolding py_lower_def
    by (rule map_idI) (simp add: normalize_chars py_lower_keep)
  moreover have "filter keep_char ?n = ?n" by (rule filter_True) (simp add: normalize_chars)
  moreover have "py_strip ?n = ?n" by (cases t) (simp_all add: normalize_identity_term_def, simp add: py_strip_def)
  ultimately show ?thesis by (simp add: normalize_identity_term_def[of "Some ?n"])
qed

lemma normalize_lower [simp]:
  "normalize_identity_term (Some (py_lower s)) = normalize_identity_term (Some s)"
  by (simp add: normalize_identity_term_def)

text \<open>A conflict between two facts with all four entity ids compares ids, any other compares names.\<close>

definition entity_form :: "uuid option \<Rightarrow> uuid option \<Rightarrow> bool" where
  "entity_form s ob \<longleftrightarrow> s \<noteq> None \<and> ob \<noteq> None"

lemma candidate_conflicts_iff:
  "candidate_conflicts e f \<longleftrightarrow>
     (if entity_form (r_subject_entity_id (e_row e)) (r_object_entity_id (e_row e))
         \<and> entity_form (f_subject_entity_id f) (f_object_entity_id f)
      then f_subject_entity_id f = r_subject_entity_id (e_row e)
           \<and> f_predicate f = Some (r_predicate (e_row e))
           \<and> f_object_entity_id f = r_object_entity_id (e_row e)
      else names_match (e_row e) f)"
proof (cases "entity_form (f_subject_entity_id f) (f_object_entity_id f)")
  case True
  then obtain s ob where ids: "f_subject_entity_id f = Some s" "f_object_entity_id f = Some ob"
    by (auto simp: entity_form_def)
  then have id: "identity_of_fact f = (KUuid s, f_predicate f, KUuid ob)"
    by (simp add: identity_of_fact_def)
  show ?thesis
    unfolding candidate_conflicts_def Let_def id entity_form_def prod.case ids is_uuid.simps
    by (cases "r_subject_entity_id (e_row e)"; cases "r_object_entity_id (e_row e)") auto
next
  case False
  then have "\<not> (is_uuid (fst (identity_of_fact f)) \<and> is_uuid (snd (snd (identity_of_fact f))))"
    by (auto simp: identity_of_fact_def entity_form_def split: option.splits)
  then show ?thesis using False
    unfolding candidate_conflicts_def Let_def case_prod_beta by presburger
qed

text \<open>Well-formed entries: what \<^const>\<open>prepare_entry\<close> produces.\<close>

definition entry_ok :: "entry \<Rightarrow> bool" where
  "entry_ok e \<longleftrightarrow>
     e_name_identity e = (normalize_identity_term (Some (r_subject (e_row e))),
                          normalize_identity_term (Some (r_predicate (e_row e))),
                          normalize_identity_term (Some (r_object (e_row e))))
     \<and> (KStr (r_subject (e_row e)), r_predicate (e_row e), KStr (r_object (e_row e))) \<in> set (e_match_keys e)
     \<and> r_content (e_row e) \<noteq> []"

lemma build_entry_ok: "entry_ok (build_entry fd ep sid oid vf vt)"
proof -
  have "(KStr s, p, KStr ob) \<in> set (scan_keys s p ob sid oid)" for s p ob
    by (simp add: scan_keys_def split: option.split)
  then show ?thesis by (simp add: entry_ok_def build_entry_def Let_def)
qed

lemma prepare_entry_Inr:
  assumes "prepare_entry fromiso fd ep now = Inr e"
  obtains sid oid vf vt where "e = build_entry fd ep sid oid vf vt"
    and "resolve_eid (i_subject_entity_id fd) = Inr sid" and "resolve_eid (i_object_entity_id fd) = Inr oid"
    and "parse_validity_bound fromiso (i_valid_from fd) (Some now) = Inr vf"
    and "parse_validity_bound fromiso (i_valid_to fd) None = Inr vt"
  using assms unfolding prepare_entry_def exc_bind_Inr_iff by blast

lemma parse_bound_default:
  "parse_validity_bound fromiso b (Some now) = Inr v \<Longrightarrow> v \<noteq> None"
proof (cases b)
  case (BStr s)
  let ?iso = "if py_strip s \<noteq> [] \<and> last (py_strip s) = CHR ''Z'' then butlast (py_strip s) @ ''+00:00'' else py_strip s"
  assume "parse_validity_bound fromiso b (Some now) = Inr v"
  then show ?thesis
    unfolding BStr parse_validity_bound_def Let_def bound.case by (cases "fromiso ?iso") auto
qed (auto simp: parse_validity_bound_def)

lemma prepare_entry_row:
  assumes "prepare_entry fromiso fd ep now = Inr e"
  shows "entry_ok e" and "r_valid_from (e_row e) \<noteq> None" and "r_source_episode_id (e_row e) = ep"
proof -
  obtain sid oid vf vt where e: "e = build_entry fd ep sid oid vf vt"
    and vf: "parse_validity_bound fromiso (i_valid_from fd) (Some now) = Inr vf"
    by (rule prepare_entry_Inr[OF assms])
  show "entry_ok e" unfolding e by (rule build_entry_ok)
  show "r_valid_from (e_row e) \<noteq> None" using parse_bound_default[OF vf] by (simp add: e build_entry_def Let_def)
  show "r_source_episode_id (e_row e) = ep" by (simp add: e build_entry_def Let_def)
qed

lemma conflict_same_name:
  "entry_ok e \<Longrightarrow> names_match (e_row e) f \<longleftrightarrow> name_identity_of_fact f = e_name_identity e"
  by (auto simp: entry_ok_def names_match_def name_identity_of_fact_def)

text \<open>
  Normalizing a term twice is the same as normalizing it once, terms that differ in case
  only have one normal form, and a normal form holds nothing but lower-case letters, digits
  and white space: the extraction pipeline and every writer agree on the identity of a triple.
\<close>

lemma normalize_identity_canonical:
  "normalize_identity_term (Some (normalize_identity_term t)) = normalize_identity_term t
   \<and> normalize_identity_term (Some (py_lower s)) = normalize_identity_term (Some s)
   \<and> list_all keep_char (normalize_identity_term t)"
  by (simp add: list_all_iff normalize_chars)

section \<open>Lock keys\<close>

lemma to_hex_inj: "u < 16 ^ n \<Longrightarrow> v < 16 ^ n \<Longrightarrow> to_hex n u = to_hex n v \<Longrightarrow> u = v"
  by (metis hex_digits_to_hex option.inject mod_less)

lemma length_uuid_hex [simp]: "length (uuid_hex u) = 32"
  by (simp add: uuid_hex_def)

lemma uuid_str_parts:
  assumes "uuid_str u = uuid_str v"
  shows "uuid_hex u = uuid_hex v"
proof -
  have parts: "h = take 8 h @ take 4 (drop 8 h) @ take 4 (drop 12 h) @ take 4 (drop 16 h) @ drop 20 h"
    for h :: string
  proof -
    have step: "drop m h = take k (drop m h) @ drop (m + k) h" for m k :: nat
      using append_take_drop_id[of k "drop m h"] by (simp add: add.commute)
    have "h = take 8 h @ drop 8 h" by simp
    also have "drop 8 h = take 4 (drop 8 h) @ drop 12 h" using step[of 8 4] by simp
    also have "drop 12 h = take 4 (drop 12 h) @ drop 16 h" using step[of 12 4] by simp
    also have "drop 16 h = take 4 (drop 16 h) @ drop 20 h" using step[of 16 4] by simp
    finally show ?thesis .
  qed
  let ?u = "uuid_hex u" and ?v = "uuid_hex v"
  have "take 8 ?u = take 8 ?v \<and> take 4 (drop 8 ?u) = take 4 (drop 8 ?v)
      \<and> take 4 (drop 12 ?u) = take 4 (drop 12 ?v) \<and> take 4 (drop 16 ?u) = take 4 (drop 16 ?v)
      \<and> drop 20 ?u = drop 20 ?v"
    using assms unfolding uuid_str_def Let_def by simp
  then show ?thesis using parts[of ?u] parts[of ?v] by presburger
qed

lemma uuid_str_inj: "u < 2 ^ 128 \<Longrightarrow> v < 2 ^ 128 \<Longrightarrow> uuid_str u = uuid_str v \<Longrightarrow> u = v"
  using uuid_str_parts[of u v] to_hex_inj[of u 32 v] by (simp add: uuid_hex_def)

lemma uuid_str_no_colon: "CHR '':'' \<notin> set (uuid_str u)"
proof -
  have h: "CHR '':'' \<notin> set (uuid_hex u)" by (simp add: uuid_hex_def to_hex_avoids)
  have dr: "CHR '':'' \<notin> set (drop m (uuid_hex u))" for m using h by (meson in_set_dropD)
  have tk: "CHR '':'' \<notin> set (take k (drop m (uuid_hex u)))" for k m using dr[of m] by (meson in_set_takeD)
  have "CHR '':'' \<notin> set (take 8 (uuid_hex u))" using h by (meson in_set_takeD)
  then show ?thesis using dr tk unfolding uuid_str_def Let_def by simp
qed

lemma normalize_no_colon: "CHR '':'' \<notin> set (normalize_identity_term t)"
  using normalize_chars[of "CHR '':''" t] by (auto simp: keep_char_def py_isspace_def)

text \<open>Fields without the separator can be read back from a joined text.\<close>

lemma sep_append_eq:
  fixes c :: char
  shows "c \<notin> set a \<Longrightarrow> c \<notin> set b \<Longrightarrow> a @ c # x = b @ c # y \<Longrightarrow> a = b \<and> x = y"
  by (metis py_partition_found Pair_inject)

definition normal_identity :: "name_identity \<Rightarrow> bool" where
  "normal_identity n \<longleftrightarrow> (case n of (s, p, ob) \<Rightarrow>
     CHR '':'' \<notin> set s \<and> CHR '':'' \<notin> set p \<and> CHR '':'' \<notin> set ob)"

lemma normal_identity_entry: "entry_ok e \<Longrightarrow> normal_identity (e_name_identity e)"
  by (simp add: entry_ok_def normal_identity_def normalize_no_colon)

lemma normal_identity_fact: "normal_identity (name_identity_of_fact f)"
  by (simp add: name_identity_of_fact_def normal_identity_def normalize_no_colon)

lemma lock_key_inj:
  assumes "lock_key_for_identity org proj m = lock_key_for_identity org' proj' n"
    and "normal_identity m" and "normal_identity n"
    and "org < 2 ^ 128" "proj < 2 ^ 128" "org' < 2 ^ 128" "proj' < 2 ^ 128"
  shows "org = org' \<and> proj = proj' \<and> m = n"
proof -
  obtain s p ob where m: "m = (s, p, ob)" by (metis prod_cases3)
  obtain s' p' ob' where n: "n = (s', p', ob')" by (metis prod_cases3)
  have "uuid_str org @ CHR '':'' # (uuid_str proj @ CHR '':'' # (s @ CHR '':'' # (p @ CHR '':'' # ob)))
      = uuid_str org' @ CHR '':'' # (uuid_str proj' @ CHR '':'' # (s' @ CHR '':'' # (p' @ CHR '':'' # ob')))"
    using assms(1) by (simp add: lock_key_for_identity_def m n)
  from sep_append_eq[OF uuid_str_no_colon uuid_str_no_colon this]
  have o: "uuid_str org = uuid_str org'"
    and r: "uuid_str proj @ CHR '':'' # (s @ CHR '':'' # (p @ CHR '':'' # ob))
      = uuid_str proj' @ CHR '':'' # (s' @ CHR '':'' # (p' @ CHR '':'' # ob'))" by blast+
  from sep_append_eq[OF uuid_str_no_colon uuid_str_no_colon r]
  have p: "uuid_str proj = uuid_str proj'"
    and r: "s @ CHR '':'' # (p @ CHR '':'' # ob) = s' @ CHR '':'' # (p' @ CHR '':'' # ob')" by blast+
  have s: "s = s'" and r: "p @ CHR '':'' # ob = p' @ CHR '':'' # ob'"
    using sep_append_eq[OF _ _ r] assms(2,3) by (auto simp: normal_identity_def m n)
  have "p = p' \<and> ob = ob'" using sep_append_eq[OF _ _ r] assms(2,3) by (auto simp: normal_identity_def m n)
  then show ?thesis using o p s assms(4-7) uuid_str_inj by (simp add: m n)
qed

text \<open>
  Two stored or incoming facts are serialized by the same advisory lock exactly when they
  are the same triple by name, in the same organization and project: writers of one triple
  meet on one key whether or not they carry entity ids, and writers of different triples
  never share a key text.
\<close>

theorem lock_key_iff_same_identity:
  assumes "org < 2 ^ 128" "proj < 2 ^ 128" "org' < 2 ^ 128" "proj' < 2 ^ 128" and "entry_ok e"
  shows "lock_key_for_identity org proj (e_name_identity e)
           = lock_key_for_identity org' proj' (name_identity_of_fact f)
         \<longleftrightarrow> org = org' \<and> proj = proj' \<and> names_match (e_row e) f"
  using lock_key_inj[OF _ normal_identity_entry[OF assms(5)] normal_identity_fact assms(1-4)]
    conflict_same_name[OF assms(5)] by auto

text \<open>Example values: an input fact, and a stored row as \<^const>\<open>mk_fact\<close> leaves it.\<close>

definition sample_in :: "string \<Rightarrow> string \<Rightarrow> string \<Rightarrow> fact_in" where
  "sample_in s p ob =
     \<lparr>i_subject = Some s, i_predicate = Some p, i_object = Some ob, i_content = None,
      i_confidence = None, i_subject_type = None, i_object_type = None,
      i_subject_entity_id = None, i_object_entity_id = None, i_valid_from = BNone, i_valid_to = BNone\<rparr>"

definition sample_entry :: "string \<Rightarrow> string \<Rightarrow> string \<Rightarrow> entry" where
  "sample_entry s p ob = build_entry (sample_in s p ob) None None None (Some 0) None"

definition sample_pg :: pg where
  "sample_pg = \<lparr>gen_random_uuid = (\<lambda>n. n), scan_rows = rev, scan_events = (\<lambda>es. es), utcnow = 100, db_now = 100\<rparr>"

definition sample_fact :: "nat \<Rightarrow> string \<Rightarrow> string \<Rightarrow> string \<Rightarrow> fact" where
  "sample_fact n s p ob = mk_fact sample_pg n 1 2 3 None (s @ p @ ob) (e_row (sample_entry s p ob))"

interpretation sample: postgres sample_pg
  by unfold_locales (simp_all add: sample_pg_def inj_on_def)

theorem lock_key_iff_same_identity_witness:
  "lock_key_for_identity 1 2 (e_name_identity (sample_entry ''Ann'' ''knows'' ''Bob!''))
     = lock_key_for_identity 1 2 (name_identity_of_fact (sample_fact 0 ''ann'' ''knows'' '' BOB''))
   \<and> lock_key_for_identity 1 2 (e_name_identity (sample_entry ''Ann'' ''knows'' ''Bob!''))
     \<noteq> lock_key_for_identity 1 3 (name_identity_of_fact (sample_fact 0 ''ann'' ''knows'' '' BOB''))"
proof -
  have ok: "entry_ok (sample_entry ''Ann'' ''knows'' ''Bob!'')"
    unfolding sample_entry_def by (rule build_entry_ok)
  have "names_match (e_row (sample_entry ''Ann'' ''knows'' ''Bob!'')) (sample_fact 0 ''ann'' ''knows'' '' BOB'')"
    by code_simp
  then show ?thesis
    using lock_key_iff_same_identity[OF _ _ _ _ ok, of 1 2 1 2] lock_key_iff_same_identity[OF _ _ _ _ ok, of 1 2 1 3]
    by simp
qed

text \<open>
  A validity bound given as text that is not an ISO-8601 instant raises
  \<^const>\<open>ValueError\<close>, whereas the function's documentation promises
  \<^const>\<open>ValidationError\<close> (the application's 422) for it; \<^const>\<open>ValidationError\<close> is raised for
  values of another type only.
\<close>

theorem validity_bound_errors:
  "(parse_validity_bound fromiso v dflt = Inl ValidationError \<longleftrightarrow> v = BOther)
   \<and> parse_validity_bound (\<lambda>_. None) (BStr s) dflt = Inl ValueError"
proof -
  have "parse_validity_bound fromiso (BStr t) dflt \<noteq> Inl ValidationError" for t
    by (cases "fromiso (if py_strip t \<noteq> [] \<and> last (py_strip t) = CHR ''Z''
          then butlast (py_strip t) @ ''+00:00'' else py_strip t)")
      (simp_all add: parse_validity_bound_def Let_def)
  then show ?thesis by (cases v) (auto simp: parse_validity_bound_def)
qed

end
