(* ===== verification/Job_Queue.thy ===== *)
theory Job_Queue
  imports Prelude
begin

text \<open>
  The background job queue (ARQ, not part of the sources): an enqueue operation over an unknown
  queue state, with its contract as the locale \<open>arq_queue\<close> and a queue in memory that meets it.
\<close>

text \<open>Queue names (\<^verbatim>\<open>core/queue_names.py\<close>).\<close>

definition get_queue_name :: "string \<Rightarrow> string \<Rightarrow> string res" where
  "get_queue_name env queue_type =
     (if queue_type \<notin> {''high'', ''low''} then Inl ValueError
      else Inr (''OpenZync:'' @ env @ '':queue:'' @ queue_type))"

text \<open>Enqueueing a list of jobs: a failed enqueue is logged and the loop goes on.\<close>

fun enqueue_all :: "('j \<Rightarrow> ('q, unit) sx) \<Rightarrow> 'j list \<Rightarrow> 'q \<Rightarrow> nat \<times> 'q" where
  "enqueue_all enqueue [] q = (0, q)"
| "enqueue_all enqueue (j # js) q =
     (case enqueue j q of
        (Inl _, q') \<Rightarrow> enqueue_all enqueue js q'
      | (Inr _, q') \<Rightarrow> (case enqueue_all enqueue js q' of (n, q'') \<Rightarrow> (Suc n, q'')))"

text \<open>The job queue: an enqueue appends its job, or raises and appends nothing.\<close>

locale arq_queue =
  fixes enqueue :: "'j \<Rightarrow> ('q, unit) sx" and jobs :: "'q \<Rightarrow> 'j list"
  assumes enqueue_ok: "enqueue j q = (Inr u, q') \<Longrightarrow> jobs q' = jobs q @ [j]"
    and enqueue_fail: "enqueue j q = (Inl e, q') \<Longrightarrow> jobs q' = jobs q"
begin

lemma enqueue_all_jobs:
  "enqueue_all enqueue js q = (n, q') \<Longrightarrow> \<exists>ks. jobs q' = jobs q @ ks \<and> set ks \<subseteq> set js \<and> n = length ks"
proof (induction js arbitrary: q q' n)
  case Nil
  then show ?case by simp
next
  case (Cons j js)
  obtain r q1 where e: "enqueue j q = (r, q1)" by fastforce
  show ?case
  proof (cases r)
    case (Inl x)
    then show ?thesis using Cons e enqueue_fail[of j q x q1] by fastforce
  next
    case (Inr u)
    obtain m q2 where m: "enqueue_all enqueue js q1 = (m, q2)" by fastforce
    with Cons.IH[OF m] obtain ks where "jobs q2 = jobs q1 @ ks" "set ks \<subseteq> set js" "m = length ks" by blast
    then show ?thesis using Cons.prems m e Inr enqueue_ok[of j q u q1]
      by (intro exI[of _ "j # ks"]) auto
  qed
qed

lemma enqueue_all_reliable:
  assumes "\<And>j q. \<exists>u. fst (enqueue j q) = Inr u"
  shows "\<exists>q'. enqueue_all enqueue js q = (length js, q') \<and> jobs q' = jobs q @ js"
proof (induction js arbitrary: q)
  case Nil
  then show ?case by simp
next
  case (Cons j js)
  obtain u q1 where e: "enqueue j q = (Inr u, q1)" using assms by (metis prod.collapse)
  with Cons.IH[of q1] enqueue_ok[OF e] show ?case by auto
qed

end

text \<open>A queue in memory, with a set of jobs it refuses.\<close>

definition fifo_enqueue :: "('j \<Rightarrow> bool) \<Rightarrow> 'j \<Rightarrow> ('j list, unit) sx" where
  "fifo_enqueue refuse j q = (if refuse j then (Inl RedisError, q) else (Inr (), q @ [j]))"

interpretation fifo: arq_queue "fifo_enqueue refuse" "\<lambda>q. q" for refuse
  by unfold_locales (auto simp: fifo_enqueue_def split: if_splits)

end
