(* ===== verification/Edge_Sync.thy ===== *)
theory Edge_Sync
  imports Fact_Repository Job_Queue
begin

text \<open>
  Graph edges derived from facts: \<^verbatim>\<open>services/graph_edge_sync_service.py\<close>, the table
  \<^verbatim>\<open>graph_relationships\<close> as \<^verbatim>\<open>packages/graph_backend/postgres.py\<close> expires it, the task
  \<^verbatim>\<open>workers/tasks/expire_graph_edges.py\<close>, the cron \<^verbatim>\<open>workers/tasks/reconcile_graph_edges.py\<close> and the
  backlog count of \<^verbatim>\<open>repositories/graph_relationship_repository.py\<close>.

  The queue (ARQ on Redis) is the parameter \<open>enqueue\<close>, which may raise and keeps what it
  enqueued before. Whether PostgreSQL executes a statement is the parameter \<open>pg_ok\<close>.
\<close>

section \<open>The D1 rule\<close>

record edge_key =
  source_id :: uuid
  target_id :: uuid
  relationship_type :: string

type_synonym triple = "string \<times> string \<times> string"

record supersession_event =
  old_fact_id :: uuid
  new_fact_id :: "uuid option"
  triple :: triple
  old_edge_key :: "edge_key option"
  successor_reasserts :: bool

record edge_expiry_command =
  c_org_id :: uuid
  c_project_id :: uuid
  c_key :: edge_key
  c_at_time :: datetime
  c_fact_id :: uuid

definition edge_key_for_fact :: "fact \<Rightarrow> edge_key option" where
  "edge_key_for_fact f =
     (case (f_subject_entity_id f, f_object_entity_id f, f_predicate f) of
        (Some s, Some t, Some p) \<Rightarrow>
          if py_strip p = [] then None
          else Some \<lparr>source_id = s, target_id = t, relationship_type = p\<rparr>
      | _ \<Rightarrow> None)"

definition make_supersession_event :: "fact \<Rightarrow> fact option \<Rightarrow> triple \<Rightarrow> supersession_event" where
  "make_supersession_event old_fact new_fact tr =
     (let old_key = edge_key_for_fact old_fact;
          new_key = (case new_fact of None \<Rightarrow> None | Some f \<Rightarrow> edge_key_for_fact f)
      in \<lparr>old_fact_id = f_id old_fact, new_fact_id = map_option f_id new_fact, triple = tr,
          old_edge_key = old_key, successor_reasserts = (old_key \<noteq> None \<and> new_key = old_key)\<rparr>)"

fun compute_expiry_commands ::
  "supersession_event list \<Rightarrow> uuid \<Rightarrow> uuid \<Rightarrow> datetime \<Rightarrow> edge_expiry_command list" where
  "compute_expiry_commands [] org proj at_time = []"
| "compute_expiry_commands (e # es) org proj at_time =
     (case old_edge_key e of
        None \<Rightarrow> compute_expiry_commands es org proj at_time
      | Some k \<Rightarrow>
          if new_fact_id e \<noteq> None \<and> successor_reasserts e
          then compute_expiry_commands es org proj at_time
          else \<lparr>c_org_id = org, c_project_id = proj, c_key = k, c_at_time = at_time,
                c_fact_id = old_fact_id e\<rparr> # compute_expiry_commands es org proj at_time)"

section \<open>Edges\<close>

record edge =
  g_id :: uuid
  g_organization_id :: uuid
  g_project_id :: uuid
  g_key :: edge_key
  g_invalid_at :: "datetime option"
  g_updated_at :: datetime

definition edge_matches :: "uuid \<Rightarrow> uuid \<Rightarrow> edge_key \<Rightarrow> edge \<Rightarrow> bool" where
  "edge_matches org proj k g \<longleftrightarrow>
     g_key g = k \<and> g_invalid_at g = None \<and> g_organization_id g = org \<and> g_project_id g = proj"

definition expire_relationships_matching ::
  "bool \<Rightarrow> datetime \<Rightarrow> uuid \<Rightarrow> uuid \<Rightarrow> edge_key \<Rightarrow> datetime \<Rightarrow> (edge list, nat) sx" where
  "expire_relationships_matching pg_ok db_time org proj k at_time edges =
     (if \<not> pg_ok then (Inl ExternalServiceError, edges)
      else (Inr (length (filter (edge_matches org proj k) edges)),
            map (\<lambda>g. if edge_matches org proj k g
                     then g\<lparr>g_invalid_at := Some at_time, g_updated_at := db_time\<rparr> else g) edges))"

section \<open>Synchronisation\<close>

definition EXPIRE_GRAPH_EDGES_TASK :: string where
  "EXPIRE_GRAPH_EDGES_TASK = ''expire_graph_edges''"

datatype backend = PostgresGraphBackend | ExternalBackend

record job =
  j_task :: string
  j_queue :: string
  j_command :: edge_expiry_command

text \<open>The graph tables of the session the effect runs on, and the queue.\<close>

record 'q sync_state =
  s_edges :: "edge list"
  s_queue :: 'q

definition enqueue_expiry ::
  "(job \<Rightarrow> ('q, unit) sx) \<Rightarrow> string \<Rightarrow> edge_expiry_command list \<Rightarrow> ('q sync_state, unit) sx" where
  "enqueue_expiry enqueue env commands s =
     (case get_queue_name env ''low'' of
        Inl e \<Rightarrow> (Inl e, s)
      | Inr qname \<Rightarrow>
          (case sx_for (\<lambda>c. enqueue \<lparr>j_task = EXPIRE_GRAPH_EDGES_TASK, j_queue = qname, j_command = c\<rparr>)
                  commands (s_queue s) of
             (Inl e, q) \<Rightarrow> (Inl ExternalServiceError, s\<lparr>s_queue := q\<rparr>)
           | (Inr _, q) \<Rightarrow> (Inr (), s\<lparr>s_queue := q\<rparr>)))"

definition expire_command ::
  "bool \<Rightarrow> datetime \<Rightarrow> edge_expiry_command \<Rightarrow> (edge list, unit) sx" where
  "expire_command pg_ok db_time c =
     sx_bind (expire_relationships_matching pg_ok db_time (c_org_id c) (c_project_id c) (c_key c) (c_at_time c))
       (\<lambda>_. sx_return ())"

definition sync_backend ::
  "bool \<Rightarrow> datetime \<Rightarrow> (job \<Rightarrow> ('q, unit) sx) \<Rightarrow> string \<Rightarrow> edge_expiry_command list \<Rightarrow> backend
   \<Rightarrow> ('q sync_state, unit) sx" where
  "sync_backend pg_ok db_time enqueue env commands b s =
     (case b of
        PostgresGraphBackend \<Rightarrow>
          (case sx_for (expire_command pg_ok db_time) commands (s_edges s) of (r, es) \<Rightarrow> (r, s\<lparr>s_edges := es\<rparr>))
      | ExternalBackend \<Rightarrow> enqueue_expiry enqueue env commands s)"

definition sync_supersessions ::
  "bool \<Rightarrow> datetime \<Rightarrow> (job \<Rightarrow> ('q, unit) sx) \<Rightarrow> string \<Rightarrow> backend list \<Rightarrow> uuid \<Rightarrow> uuid
   \<Rightarrow> supersession_event list \<Rightarrow> datetime \<Rightarrow> ('q sync_state, unit) sx" where
  "sync_supersessions pg_ok db_time enqueue env backends org proj events at_time s =
     (if events = [] \<or> backends = [] then (Inr (), s)
      else (let commands = compute_expiry_commands events org proj at_time
            in if commands = [] then (Inr (), s)
               else sx_for (sync_backend pg_ok db_time enqueue env commands) backends s))"

section \<open>Reconciliation\<close>

definition RECONCILE_BATCH_SIZE :: nat where
  "RECONCILE_BATCH_SIZE = 200"

text \<open>The fact side of the anti-join.\<close>

definition sustains :: "datetime \<Rightarrow> edge \<Rightarrow> fact \<Rightarrow> bool" where
  "sustains now g f \<longleftrightarrow>
     f_invalid_at f = None \<and> (case f_valid_to f of None \<Rightarrow> True | Some b \<Rightarrow> now < b)
     \<and> f_organization_id f = g_organization_id g \<and> f_project_id f = g_project_id g
     \<and> f_subject_entity_id f = Some (source_id (g_key g))
     \<and> f_predicate f = Some (relationship_type (g_key g))
     \<and> f_object_entity_id f = Some (target_id (g_key g))"

definition stale :: "datetime \<Rightarrow> fact list \<Rightarrow> edge \<Rightarrow> bool" where
  "stale now fs g \<longleftrightarrow> g_invalid_at g = None \<and> \<not> list_ex (sustains now g) fs"

definition stale_edges :: "datetime \<Rightarrow> fact list \<Rightarrow> edge list \<Rightarrow> edge list" where
  "stale_edges now fs es =
     take RECONCILE_BATCH_SIZE (sort_wrt (\<lambda>a b. g_updated_at a \<le> g_updated_at b) (filter (stale now fs) es))"

definition count_stale_edges :: "datetime \<Rightarrow> fact list \<Rightarrow> edge list \<Rightarrow> nat" where
  "count_stale_edges now fs es = length (filter (stale now fs) es)"

definition edge_command :: "datetime \<Rightarrow> edge \<Rightarrow> edge_expiry_command" where
  "edge_command now g =
     \<lparr>c_org_id = g_organization_id g, c_project_id = g_project_id g, c_key = g_key g,
      c_at_time = now, c_fact_id = g_id g\<rparr>"

datatype reconcile_summary = NoStaleEdges | Enqueued nat nat

definition reconcile_graph_edges ::
  "datetime \<Rightarrow> string \<Rightarrow> (job \<Rightarrow> ('q, unit) sx) \<Rightarrow> fact list \<Rightarrow> edge list \<Rightarrow> 'q \<Rightarrow> reconcile_summary \<times> 'q" where
  "reconcile_graph_edges now queue_name enqueue fs es q =
     (let st = stale_edges now fs es
      in if st = [] then (NoStaleEdges, q)
         else (case enqueue_all enqueue
                      (map (\<lambda>g. \<lparr>j_task = EXPIRE_GRAPH_EDGES_TASK, j_queue = queue_name,
                                 j_command = edge_command now g\<rparr>) st) q of
                 (n, q') \<Rightarrow> (Enqueued n (length st), q')))"

text \<open>
  The worker's side: one attempt of the task on the backend the organization resolves to; a
  disabled graph expires nothing. The body of the attempt runs in its own session, which is
  committed only when the statement succeeded.
\<close>

definition expire_graph_edges ::
  "bool \<Rightarrow> datetime \<Rightarrow> bool \<Rightarrow> edge_expiry_command \<Rightarrow> (edge list, nat) sx" where
  "expire_graph_edges pg_ok db_time graph_enabled c =
     (if \<not> graph_enabled then sx_return 0
      else expire_relationships_matching pg_ok db_time (c_org_id c) (c_project_id c) (c_key c) (c_at_time c))"

section \<open>Expiring several keys\<close>

text \<open>The effect of a list of commands on the edge table, all at one instant.\<close>

definition hit :: "edge_expiry_command list \<Rightarrow> edge \<Rightarrow> bool" where
  "hit cs g \<longleftrightarrow> list_ex (\<lambda>c. edge_matches (c_org_id c) (c_project_id c) (c_key c) g) cs"

definition expire_edges ::
  "datetime \<Rightarrow> datetime \<Rightarrow> edge_expiry_command list \<Rightarrow> edge list \<Rightarrow> edge list" where
  "expire_edges db_time at_time cs es =
     map (\<lambda>g. if hit cs g then g\<lparr>g_invalid_at := Some at_time, g_updated_at := db_time\<rparr> else g) es"

lemma hit_active: "hit cs g \<Longrightarrow> g_invalid_at g = None"
  by (auto simp: hit_def list_ex_iff edge_matches_def)

lemma hit_expired [simp]: "\<not> hit cs (g\<lparr>g_invalid_at := Some t, g_updated_at := u\<rparr>)"
  by (auto simp: hit_def list_ex_iff edge_matches_def)

lemma expire_edges_Nil [simp]: "expire_edges db_time at_time [] es = es"
  by (simp add: expire_edges_def hit_def)

lemma expire_edges_Cons:
  "expire_edges db_time at_time cs (expire_edges db_time at_time [c] es) = expire_edges db_time at_time (c # cs) es"
  unfolding expire_edges_def map_map comp_def
  by (rule map_cong[OF refl]) (auto simp: hit_def list_ex_iff edge_matches_def)

lemma expire_edges_idem [simp]:
  "expire_edges t a cs (expire_edges db_time at_time cs es) = expire_edges db_time at_time cs es"
  unfolding expire_edges_def map_map comp_def by (rule map_cong[OF refl]) auto

lemma expire_relationships_edges:
  "snd (expire_relationships_matching True db_time (c_org_id c) (c_project_id c) (c_key c) at_time es)
     = expire_edges db_time at_time [c] es"
  by (simp add: expire_relationships_matching_def expire_edges_def hit_def)

lemma expire_commands:
  assumes "\<And>c. c \<in> set cs \<Longrightarrow> c_at_time c = at_time"
  shows "sx_for (expire_command True db_time) cs es = (Inr (), expire_edges db_time at_time cs es)"
  using assms
proof (induction cs arbitrary: es)
  case Nil
  then show ?case by simp
next
  case (Cons c cs)
  have "expire_command True db_time c es = (Inr (), expire_edges db_time at_time [c] es)"
    using expire_relationships_edges[of db_time c at_time es] Cons.prems[of c]
    by (simp add: expire_command_def sx_bind_def sx_return_def expire_relationships_matching_def)
  then show ?case using Cons by (simp add: expire_edges_Cons)
qed

lemma compute_expiry_commands_append:
  "compute_expiry_commands (es @ fs) org proj t
     = compute_expiry_commands es org proj t @ compute_expiry_commands fs org proj t"
  by (induction es) (auto split: option.split)

lemma command_iff:
  "c \<in> set (compute_expiry_commands es org proj at_time) \<longleftrightarrow>
     (\<exists>e \<in> set es. \<exists>k. old_edge_key e = Some k \<and> \<not> (new_fact_id e \<noteq> None \<and> successor_reasserts e)
        \<and> c = \<lparr>c_org_id = org, c_project_id = proj, c_key = k, c_at_time = at_time, c_fact_id = old_fact_id e\<rparr>)"
  by (induction es) (auto split: option.split)

lemma postgres_sync_run:
  "sync_supersessions True db_time enqueue env [PostgresGraphBackend] org proj events at_time s
     = (Inr (), s\<lparr>s_edges := expire_edges db_time at_time (compute_expiry_commands events org proj at_time) (s_edges s)\<rparr>)"
proof -
  let ?cs = "compute_expiry_commands events org proj at_time"
  have "c_at_time c = at_time" if "c \<in> set ?cs" for c using that by (auto simp: command_iff)
  then show ?thesis
    unfolding sync_supersessions_def Let_def
    by (cases "events = []"; cases "?cs = []") (simp_all add: sync_backend_def expire_commands)
qed

text \<open>
  C7: the D1 rule. A batch of transitions expires an edge exactly when some superseded or
  retracted fact asserted it (both entities resolved, a non-blank predicate) and its
  successor, if there is one, does not assert the same edge; the command carries the scope and
  instant of the batch and the id of the old fact.
\<close>

theorem d1_rule:
  "c \<in> set (compute_expiry_commands (map (\<lambda>(old, new, tr). make_supersession_event old new tr) ts) org proj at_time)
   \<longleftrightarrow> (\<exists>old new tr k. (old, new, tr) \<in> set ts \<and> edge_key_for_fact old = Some k
          \<and> (case new of None \<Rightarrow> True | Some f \<Rightarrow> edge_key_for_fact f \<noteq> Some k)
          \<and> c = \<lparr>c_org_id = org, c_project_id = proj, c_key = k, c_at_time = at_time, c_fact_id = f_id old\<rparr>)"
proof -
  have ev: "(\<exists>k. old_edge_key (make_supersession_event old new tr) = Some k
       \<and> \<not> (new_fact_id (make_supersession_event old new tr) \<noteq> None
            \<and> successor_reasserts (make_supersession_event old new tr))
       \<and> c = \<lparr>c_org_id = org, c_project_id = proj, c_key = k, c_at_time = at_time,
              c_fact_id = old_fact_id (make_supersession_event old new tr)\<rparr>)
     \<longleftrightarrow> (\<exists>k. edge_key_for_fact old = Some k
          \<and> (case new of None \<Rightarrow> True | Some f \<Rightarrow> edge_key_for_fact f \<noteq> Some k)
          \<and> c = \<lparr>c_org_id = org, c_project_id = proj, c_key = k, c_at_time = at_time, c_fact_id = f_id old\<rparr>)"
    for old new tr
    by (cases new; cases "edge_key_for_fact old") (simp_all add: make_supersession_event_def Let_def)
  have img: "(\<exists>e \<in> set (map (\<lambda>(old, new, tr). make_supersession_event old new tr) ts). Q e)
      \<longleftrightarrow> (\<exists>old new tr. (old, new, tr) \<in> set ts \<and> Q (make_supersession_event old new tr))" for Q by force
  show ?thesis unfolding command_iff img ev by blast
qed

text \<open>
  C8: expiring the edges of a batch on PostgreSQL changes the active edges of the computed keys
  in the batch's organization and project, sets their \<^verbatim>\<open>invalid_at\<close> to the instant of the
  supersession, leaves every other edge and the queue alone, and replaying it at any later
  time changes nothing.
\<close>

theorem postgres_sync_exact_and_idempotent:
  "sync_supersessions True db_time enqueue env [PostgresGraphBackend] org proj events at_time s
     = (Inr (), s\<lparr>s_edges := expire_edges db_time at_time (compute_expiry_commands events org proj at_time) (s_edges s)\<rparr>)
   \<and> sync_supersessions True db_time' enqueue env [PostgresGraphBackend] org proj events at_time
       (snd (sync_supersessions True db_time enqueue env [PostgresGraphBackend] org proj events at_time s))
     = (Inr (), snd (sync_supersessions True db_time enqueue env [PostgresGraphBackend] org proj events at_time s))"
  unfolding postgres_sync_run by simp

section \<open>The reconciliation loop\<close>

text \<open>A queue of expiry jobs is a job queue.\<close>

locale edge_queue = arq_queue enqueue jobs
  for enqueue :: "job \<Rightarrow> ('q, unit) sx" and jobs :: "'q \<Rightarrow> job list"

interpretation edge_fifo: edge_queue "fifo_enqueue refuse" "\<lambda>q. q" for refuse
  by unfold_locales

text \<open>The worker runs the jobs it is handed, on the PostgreSQL backend.\<close>

definition run_jobs :: "datetime \<Rightarrow> job list \<Rightarrow> edge list \<Rightarrow> edge list" where
  "run_jobs db_time js es = fold (\<lambda>j es. snd (expire_graph_edges True db_time True (j_command j) es)) js es"

text \<open>One cron tick followed by the execution of the jobs it enqueued.\<close>

definition reconcile_tick ::
  "datetime \<Rightarrow> datetime \<Rightarrow> string \<Rightarrow> (job \<Rightarrow> ('q, unit) sx) \<Rightarrow> ('q \<Rightarrow> job list) \<Rightarrow> fact list \<Rightarrow> 'q \<Rightarrow> edge list \<Rightarrow> edge list" where
  "reconcile_tick now db_time queue_name enqueue jobs fs q es =
     run_jobs db_time (drop (length (jobs q)) (jobs (snd (reconcile_graph_edges now queue_name enqueue fs es q)))) es"

lemma run_jobs_expire:
  "(\<And>j. j \<in> set js \<Longrightarrow> c_at_time (j_command j) = at_time) \<Longrightarrow>
   run_jobs db_time js es = expire_edges db_time at_time (map j_command js) es"
  unfolding run_jobs_def
  by (induction js arbitrary: es)
    (simp_all add: expire_graph_edges_def expire_relationships_edges expire_edges_Cons)

lemma stale_same_key:
  "g_organization_id g = g_organization_id h \<Longrightarrow> g_project_id g = g_project_id h \<Longrightarrow> g_key g = g_key h
   \<Longrightarrow> g_invalid_at g = None \<Longrightarrow> stale now fs h \<Longrightarrow> stale now fs g"
  by (simp add: stale_def sustains_def list_ex_iff)

lemma hit_stale:
  assumes "hit (map (edge_command now) st) g" and "\<And>h. h \<in> set st \<Longrightarrow> stale now fs h"
  shows "stale now fs g"
proof -
  obtain h where "h \<in> set st" "g_key g = g_key h" "g_invalid_at g = None"
      "g_organization_id g = g_organization_id h" "g_project_id g = g_project_id h"
    using assms(1) by (auto simp: hit_def list_ex_iff edge_command_def edge_matches_def)
  then show ?thesis using stale_same_key assms(2) by blast
qed

lemma stale_edges_stale: "h \<in> set (stale_edges now fs es) \<Longrightarrow> stale now fs h"
  by (auto simp: stale_edges_def dest: in_set_takeD)

lemma stale_edges_in: "h \<in> set (stale_edges now fs es) \<Longrightarrow> h \<in> set es"
  by (auto simp: stale_edges_def dest: in_set_takeD)

definition reconcile_job :: "string \<Rightarrow> datetime \<Rightarrow> edge \<Rightarrow> job" where
  "reconcile_job queue_name now g =
     \<lparr>j_task = EXPIRE_GRAPH_EDGES_TASK, j_queue = queue_name, j_command = edge_command now g\<rparr>"

context edge_queue
begin

lemma tick_expires:
  "\<exists>st. reconcile_tick now db_time qn enqueue jobs fs q es = expire_edges db_time now (map (edge_command now) st) es
      \<and> set st \<subseteq> set (stale_edges now fs es)
      \<and> ((\<forall>j q. \<exists>u. fst (enqueue j q) = Inr u) \<longrightarrow> st = stale_edges now fs es)"
proof (cases "stale_edges now fs es = []")
  case True
  then have "reconcile_tick now db_time qn enqueue jobs fs q es = es"
    by (simp add: reconcile_tick_def reconcile_graph_edges_def run_jobs_def)
  then show ?thesis using True by (intro exI[of _ "[]"]) simp
next
  case False
  let ?st = "stale_edges now fs es"
  let ?js = "map (reconcile_job qn now) ?st"
  obtain n q' where q': "enqueue_all enqueue ?js q = (n, q')" by fastforce
  from enqueue_all_jobs[OF this] obtain ks where ks: "jobs q' = jobs q @ ks" "set ks \<subseteq> set ?js" by blast
  have rel: "ks = ?js" if "\<forall>j q. \<exists>u. fst (enqueue j q) = Inr u"
    using enqueue_all_reliable[of ?js q] that q' ks(1) by auto
  have com: "\<exists>h \<in> set ?st. j = reconcile_job qn now h" if "j \<in> set ks" for j using ks(2) that by auto
  have "\<exists>hs. set hs \<subseteq> set ?st \<and> ks = map (reconcile_job qn now) hs" using com
  proof (induction ks)
    case Nil
    then show ?case by simp
  next
    case (Cons k ks)
    obtain h where "h \<in> set ?st" "k = reconcile_job qn now h" using Cons.prems[of k] by auto
    moreover obtain hs where "set hs \<subseteq> set ?st" "ks = map (reconcile_job qn now) hs"
      using Cons.IH Cons.prems by (meson list.set_intros(2))
    ultimately show ?case by (intro exI[of _ "h # hs"]) simp
  qed
  then obtain hs where hs: "set hs \<subseteq> set ?st" "ks = map (reconcile_job qn now) hs" by blast
  let ?hs = "if \<forall>j q. \<exists>u. fst (enqueue j q) = Inr u then ?st else hs"
  have sel: "ks = map (reconcile_job qn now) ?hs" using hs(2) rel by presburger
  have "reconcile_tick now db_time qn enqueue jobs fs q es = run_jobs db_time ks es"
    using False q' ks(1) by (simp add: reconcile_tick_def reconcile_graph_edges_def Let_def reconcile_job_def[abs_def])
  also have "\<dots> = expire_edges db_time now (map j_command ks) es"
    by (rule run_jobs_expire) (auto simp: hs(2) reconcile_job_def edge_command_def)
  also have "map j_command ks = map (edge_command now) ?hs" by (subst sel) (simp add: reconcile_job_def comp_def)
  finally have "reconcile_tick now db_time qn enqueue jobs fs q es = expire_edges db_time now (map (edge_command now) ?hs) es" .
  moreover have "set ?hs \<subseteq> set ?st" using hs(1) by simp
  ultimately show ?thesis by (intro exI[of _ ?hs]) simp
qed

end

lemma count_after_expire:
  assumes "mset st \<subseteq># mset (filter (stale now fs) es)"
  shows "count_stale_edges now fs (expire_edges t now (map (edge_command now) st) es) + length st
         \<le> count_stale_edges now fs es"
proof -
  let ?h = "hit (map (edge_command now) st)" and ?S = "mset (filter (stale now fs) es)"
  have mem: "stale now fs g" if "g \<in> set st" for g
    using that assms by (metis mem_Collect_eq mset_subset_eqD set_filter set_mset_mset Int_iff inter_set_filter)
  have hits: "?h g" if "g \<in> set st" for g
    using mem[OF that] that by (auto simp: hit_def list_ex_iff edge_matches_def edge_command_def stale_def intro!: bexI[of _ g])
  have after: "stale now fs (if ?h g then g\<lparr>g_invalid_at := Some now, g_updated_at := t\<rparr> else g) \<longleftrightarrow> stale now fs g \<and> \<not> ?h g" for g
    by (simp add: stale_def)
  have "count_stale_edges now fs (expire_edges t now (map (edge_command now) st) es) = size (filter_mset (\<lambda>g. \<not> ?h g) ?S)"
    unfolding count_stale_edges_def expire_edges_def filter_map length_map comp_def after
    by (simp add: filter_filter conj_commute flip: size_mset mset_filter)
  moreover have "mset st \<subseteq># filter_mset ?h ?S"
    using multiset_filter_mono[OF assms, of ?h] hits by (simp add: filter_mset_True flip: mset_filter)
  then have "length st \<le> size (filter_mset ?h ?S)" by (metis size_mset size_mset_mono)
  moreover have "size (filter_mset ?h ?S) + size (filter_mset (\<lambda>g. \<not> ?h g) ?S) = count_stale_edges now fs es"
    unfolding count_stale_edges_def by (metis multiset_partition size_mset size_union)
  ultimately show ?thesis by simp
qed

text \<open>
  C10: the reconciliation cron is sound whatever the queue loses: a tick and the jobs it
  managed to enqueue leave every edge as it was, except active edges that no fact sustains,
  which are invalidated at the instant of the scan.
\<close>

theorem reconcile_only_expires_stale:
  assumes "edge_queue enqueue jobs"
  shows "list_all2 (\<lambda>g g'. g' = g \<or> stale now fs g \<and> g' = g\<lparr>g_invalid_at := Some now, g_updated_at := db_time\<rparr>)
           es (reconcile_tick now db_time queue_name enqueue jobs fs q es)"
proof -
  from edge_queue.tick_expires[OF assms, of now db_time queue_name fs q es] obtain st
    where st: "reconcile_tick now db_time queue_name enqueue jobs fs q es = expire_edges db_time now (map (edge_command now) st) es"
      "set st \<subseteq> set (stale_edges now fs es)" by blast
  have "hit (map (edge_command now) st) g \<Longrightarrow> stale now fs g" for g
    using hit_stale[of now st g fs] stale_edges_stale st(2) by blast
  then show ?thesis unfolding st(1) expire_edges_def list.rel_map by (intro list.rel_refl_strong) auto
qed


text \<open>Example: two edges, one of them sustained.\<close>

definition sample_edge :: "uuid \<Rightarrow> uuid \<Rightarrow> edge" where
  "sample_edge i t = \<lparr>g_id = i, g_organization_id = 1, g_project_id = 2,
     g_key = \<lparr>source_id = 7, target_id = t, relationship_type = ''knows''\<rparr>, g_invalid_at = None, g_updated_at = 0\<rparr>"

definition edge_fact :: "uuid \<Rightarrow> fact" where
  "edge_fact t = \<lparr>f_id = 5, f_project_id = 2, f_user_id = 3, f_organization_id = 1, f_content = ''x'',
     f_subject = Some ''a'', f_predicate = Some ''knows'', f_object = Some ''b'', f_subject_type = ''entity'',
     f_object_type = ''entity'', f_confidence = 1, f_source_episode_id = None, f_subject_entity_id = Some 7,
     f_object_entity_id = Some t, f_valid_from = Some 0, f_valid_to = None, f_invalid_at = None,
     f_superseded_by_fact_id = None, f_embedding = None, f_embedded_at = None, f_created_at = 0, f_updated_at = 0\<rparr>"

theorem reconcile_only_expires_stale_witness:
  "list_all2 (\<lambda>g g'. g' = g \<or> stale 10 [edge_fact 8] g \<and> g' = g\<lparr>g_invalid_at := Some 10, g_updated_at := 11\<rparr>)
     [sample_edge 1 8, sample_edge 2 9]
     (reconcile_tick 10 11 ''q'' (fifo_enqueue (\<lambda>_. False)) (\<lambda>q. q) [edge_fact 8] [] [sample_edge 1 8, sample_edge 2 9])
   \<and> reconcile_tick 10 11 ''q'' (fifo_enqueue (\<lambda>_. False)) (\<lambda>q. q) [edge_fact 8] [] [sample_edge 1 8, sample_edge 2 9]
     = [sample_edge 1 8, (sample_edge 2 9)\<lparr>g_invalid_at := Some 10, g_updated_at := 11\<rparr>]"
proof
  show "reconcile_tick 10 11 ''q'' (fifo_enqueue (\<lambda>_. False)) (\<lambda>q. q) [edge_fact 8] [] [sample_edge 1 8, sample_edge 2 9]
     = [sample_edge 1 8, (sample_edge 2 9)\<lparr>g_invalid_at := Some 10, g_updated_at := 11\<rparr>]" by code_simp
qed (rule reconcile_only_expires_stale[OF edge_fifo.edge_queue_axioms])


end
