(* ===== verification/Post_Commit.thy ===== *)
theory Post_Commit
  imports Edge_Sync
begin

text \<open>
  Side effects that wait for the commit: \<^verbatim>\<open>services/facts/post_commit_effects.py\<close> and the fields
  of \<^verbatim>\<open>FactInvalidationService\<close> (\<^verbatim>\<open>services/facts/__init__.py\<close>). An effect is the data its closure
  captures. What the collaborators do when it runs (webhook emitter, context cache, metrics,
  graph synchronisation) is the parameter \<open>C\<close>; their steps may raise.
\<close>

section \<open>Effects\<close>

datatype effect =
    IncSuperseded nat
  | IncRetracted nat
  | IncInvalidated nat
  | InvalidateProjectContext uuid uuid
  | PurgeProjectContext uuid uuid
  | Webhook uuid uuid uuid "uuid option" triple string "string option"
  | GraphSync uuid uuid "supersession_event list" datetime

record payload =
  p_old_fact_id :: uuid
  p_new_fact_id :: "uuid option"
  p_triple :: triple
  p_project_id :: uuid
  p_org_id :: uuid
  p_reason :: "string option"

definition FACT_SUPERSEDED :: string where "FACT_SUPERSEDED = ''fact.superseded''"
definition FACT_RETRACTED :: string where "FACT_RETRACTED = ''fact.retracted''"
definition FACT_INVALIDATED :: string where "FACT_INVALIDATED = ''fact.invalidated''"

record 'w collaborators =
  inc_metric :: "string \<Rightarrow> nat \<Rightarrow> ('w, unit) sx"
  invalidate_project_context :: "uuid \<Rightarrow> uuid \<Rightarrow> ('w, unit) sx"
  bump_context_version :: "uuid \<Rightarrow> uuid \<Rightarrow> ('w, unit) sx"
  emit :: "uuid \<Rightarrow> string \<Rightarrow> payload \<Rightarrow> ('w, unit) sx"
  sync :: "uuid \<Rightarrow> uuid \<Rightarrow> supersession_event list \<Rightarrow> datetime \<Rightarrow> ('w, unit) sx"

definition purge_project_context :: "'w collaborators \<Rightarrow> uuid \<Rightarrow> uuid \<Rightarrow> ('w, unit) sx" where
  "purge_project_context C org proj =
     sx_bind (invalidate_project_context C org proj) (\<lambda>_. bump_context_version C org proj)"

fun perform :: "'w collaborators \<Rightarrow> effect \<Rightarrow> ('w, unit) sx" where
  "perform C (IncSuperseded n) = inc_metric C ''facts_superseded_total'' n"
| "perform C (IncRetracted n) = inc_metric C ''facts_retracted_total'' n"
| "perform C (IncInvalidated n) = inc_metric C ''facts_invalidated_total'' n"
| "perform C (InvalidateProjectContext org proj) = invalidate_project_context C org proj"
| "perform C (PurgeProjectContext org proj) = purge_project_context C org proj"
| "perform C (Webhook org proj old_id new_id tr event_type reason) =
     emit C org event_type
       \<lparr>p_old_fact_id = old_id, p_new_fact_id = new_id, p_triple = tr, p_project_id = proj,
        p_org_id = org, p_reason = reason\<rparr>"
| "perform C (GraphSync org proj events at_time) = sync C org proj events at_time"

text \<open>
  The graph effect's sessions: the expiries run on fresh sessions that are committed when the
  whole synchronisation succeeded and closed without a commit when it raised, so a failed
  run keeps the jobs it enqueued but none of its edge updates.
\<close>

definition graph_sync_effect ::
  "bool \<Rightarrow> datetime \<Rightarrow> (job \<Rightarrow> ('q, unit) sx) \<Rightarrow> string \<Rightarrow> backend list \<Rightarrow> uuid \<Rightarrow> uuid
   \<Rightarrow> supersession_event list \<Rightarrow> datetime \<Rightarrow> ('q sync_state, unit) sx" where
  "graph_sync_effect pg_ok db_time enqueue env backends org proj events at_time s =
     (case sync_supersessions pg_ok db_time enqueue env backends org proj events at_time s of
        (Inr _, t) \<Rightarrow> (Inr (), t)
      | (Inl e, t) \<Rightarrow> (Inl e, s\<lparr>s_queue := s_queue t\<rparr>))"

text \<open>Each effect is awaited in turn; one that raises is logged and the next one runs.\<close>

fun run_pending_effects :: "'w collaborators \<Rightarrow> effect list \<Rightarrow> 'w \<Rightarrow> 'w" where
  "run_pending_effects C [] w = w"
| "run_pending_effects C (e # es) w = (case perform C e w of (_, w') \<Rightarrow> run_pending_effects C es w')"

section \<open>The service and its session hooks\<close>

record invalidation_service =
  has_webhook_service :: bool
  has_cache_service :: bool
  has_graph_sync :: bool
  pending_effects :: "effect list"
  events_attached :: bool

definition new_service :: "bool \<Rightarrow> bool \<Rightarrow> bool \<Rightarrow> invalidation_service" where
  "new_service webhook cache graph =
     \<lparr>has_webhook_service = webhook, has_cache_service = cache, has_graph_sync = graph,
      pending_effects = [], events_attached = False\<rparr>"

definition attach_post_commit_events :: "invalidation_service \<Rightarrow> invalidation_service" where
  "attach_post_commit_events svc = (if events_attached svc then svc else svc\<lparr>events_attached := True\<rparr>)"

definition queue_post_commit_effect :: "effect \<Rightarrow> invalidation_service \<Rightarrow> invalidation_service" where
  "queue_post_commit_effect e svc =
     attach_post_commit_events (svc\<lparr>pending_effects := pending_effects svc @ [e]\<rparr>)"

text \<open>The commit hook hands the queue to a new task of the event loop, if there is a loop.\<close>

definition on_after_commit :: "bool \<Rightarrow> invalidation_service \<Rightarrow> effect list option \<times> invalidation_service" where
  "on_after_commit running_loop svc =
     (let pending = pending_effects svc; svc' = svc\<lparr>pending_effects := []\<rparr>
      in if pending = [] then (None, svc')
         else if \<not> running_loop then (None, svc')
         else (Some pending, svc'))"

definition on_after_rollback :: "invalidation_service \<Rightarrow> invalidation_service" where
  "on_after_rollback svc = svc\<lparr>pending_effects := []\<rparr>"

section \<open>A session's life\<close>

text \<open>
  The session ends transactions, which calls the hooks once they are attached; the event
  loop runs the scheduled tasks, one effect at a time, in any interleaving.
\<close>

record session =
  service :: invalidation_service
  tasks :: "effect list list"
  fired :: "effect list"

datatype label = LQueue effect | LCommit | LRollback | LRun nat

inductive session_step :: "session \<Rightarrow> label \<Rightarrow> session \<Rightarrow> bool" where
  queue: "session_step s (LQueue e) (s\<lparr>service := queue_post_commit_effect e (service s)\<rparr>)"
| commit: "events_attached (service s) \<Longrightarrow> on_after_commit True (service s) = (t, svc) \<Longrightarrow>
     session_step s LCommit (s\<lparr>service := svc, tasks := tasks s @ (case t of None \<Rightarrow> [] | Some p \<Rightarrow> [p])\<rparr>)"
| commit_unhooked: "\<not> events_attached (service s) \<Longrightarrow> session_step s LCommit s"
| rollback: "events_attached (service s) \<Longrightarrow> session_step s LRollback (s\<lparr>service := on_after_rollback (service s)\<rparr>)"
| rollback_unhooked: "\<not> events_attached (service s) \<Longrightarrow> session_step s LRollback s"
| run: "i < length (tasks s) \<Longrightarrow> tasks s ! i = e # es \<Longrightarrow>
     session_step s (LRun i) (s\<lparr>tasks := (tasks s)[i := es], fired := fired s @ [e]\<rparr>)"

inductive_cases session_stepE: "session_step s l s'"

inductive session_run :: "session \<Rightarrow> label list \<Rightarrow> session \<Rightarrow> bool" where
  start: "session_run s [] s"
| step: "session_run s ls t \<Longrightarrow> session_step t l u \<Longrightarrow> session_run s (ls @ [l]) u"

definition new_session :: "bool \<Rightarrow> bool \<Rightarrow> bool \<Rightarrow> session" where
  "new_session webhook cache graph = \<lparr>service = new_service webhook cache graph, tasks = [], fired = []\<rparr>"

text \<open>What a history promises: the effects queued in the transactions that committed.\<close>

fun committed :: "effect list \<Rightarrow> label list \<Rightarrow> effect list" where
  "committed open_txn [] = []"
| "committed open_txn (LQueue e # ls) = committed (open_txn @ [e]) ls"
| "committed open_txn (LCommit # ls) = open_txn @ committed [] ls"
| "committed open_txn (LRollback # ls) = committed [] ls"
| "committed open_txn (LRun i # ls) = committed open_txn ls"

fun open_effects :: "effect list \<Rightarrow> label list \<Rightarrow> effect list" where
  "open_effects open_txn [] = open_txn"
| "open_effects open_txn (LQueue e # ls) = open_effects (open_txn @ [e]) ls"
| "open_effects open_txn (LCommit # ls) = open_effects [] ls"
| "open_effects open_txn (LRollback # ls) = open_effects [] ls"
| "open_effects open_txn (LRun i # ls) = open_effects open_txn ls"

section \<open>Properties\<close>

lemma committed_append:
  "committed p (ls @ ms) = committed p ls @ committed (open_effects p ls) ms"
  by (induction p ls rule: committed.induct) auto

lemma open_effects_append: "open_effects p (ls @ ms) = open_effects (open_effects p ls) ms"
  by (induction p ls rule: open_effects.induct) auto

lemma mset_concat_update:
  "i < length ts \<Longrightarrow> ts ! i = e # es \<Longrightarrow> mset (concat ts) = add_mset e (mset (concat (ts[i := es])))"
proof (induction ts arbitrary: i)
  case Nil
  then show ?case by simp
next
  case (Cons t ts)
  then show ?case by (cases i) auto
qed

definition session_inv :: "label list \<Rightarrow> session \<Rightarrow> bool" where
  "session_inv ls s \<longleftrightarrow>
     pending_effects (service s) = open_effects [] ls
     \<and> (pending_effects (service s) \<noteq> [] \<longrightarrow> events_attached (service s))
     \<and> mset (fired s) + mset (concat (tasks s)) = mset (committed [] ls)"

lemma session_inv_step:
  assumes "session_inv ls s" and "session_step s l t"
  shows "session_inv (ls @ [l]) t"
  using assms(2)
proof cases
  case (queue e)
  then show ?thesis using assms(1)
    by (simp add: session_inv_def queue_post_commit_effect_def attach_post_commit_events_def
        open_effects_append committed_append)
next
  case (commit p svc)
  then show ?thesis using assms(1)
    by (auto simp: session_inv_def on_after_commit_def Let_def open_effects_append committed_append
        split: if_splits)
next
  case commit_unhooked
  then show ?thesis using assms(1) by (auto simp: session_inv_def open_effects_append committed_append)
next
  case rollback
  then show ?thesis using assms(1)
    by (simp add: session_inv_def on_after_rollback_def open_effects_append committed_append)
next
  case rollback_unhooked
  then show ?thesis using assms(1) by (auto simp: session_inv_def open_effects_append committed_append)
next
  case (run i e es)
  then show ?thesis using assms(1) mset_concat_update[OF run(3,4)]
    by (simp add: session_inv_def open_effects_append committed_append)
qed

lemma session_inv_run: "session_run (new_session w c g) ls s \<Longrightarrow> session_inv ls s"
proof (induction "new_session w c g" ls s rule: session_run.induct)
  case start
  then show ?case by (simp add: session_inv_def new_session_def new_service_def)
next
  case (step ls t l u)
  then show ?case using session_inv_step by blast
qed



text \<open>Effects are isolated from each other: a failing one does not keep the later ones from running.\<close>

lemma run_pending_effects_fold:
  "run_pending_effects C es w = fold (\<lambda>e w. snd (perform C e w)) es w"
  by (induction es arbitrary: w) (auto split: prod.split)

text \<open>
  The graph effect is atomic on PostgreSQL: when any backend or enqueue fails, no edge is
  changed, and the facts of the committed transaction are untouched by construction; when it
  succeeds on a PostgreSQL backend the edges of the D1 commands are expired.
\<close>

theorem graph_sync_effect_atomic:
  "(case graph_sync_effect pg_ok db_time enqueue env backends org proj events at_time s of
      (Inl e, t) \<Rightarrow> s_edges t = s_edges s
    | (Inr u, t) \<Rightarrow> sync_supersessions pg_ok db_time enqueue env backends org proj events at_time s = (Inr u, t))
   \<and> s_edges (snd (graph_sync_effect True db_time enqueue env [PostgresGraphBackend] org proj events at_time s))
     = expire_edges db_time at_time (compute_expiry_commands events org proj at_time) (s_edges s)"
proof -
  have "sync_supersessions True db_time enqueue env [PostgresGraphBackend] org proj events at_time s
      = (Inr (), s\<lparr>s_edges := expire_edges db_time at_time (compute_expiry_commands events org proj at_time) (s_edges s)\<rparr>)"
    by (rule postgres_sync_run)
  then show ?thesis by (auto simp: graph_sync_effect_def split: prod.split sum.split)
qed

end
