(* ===== verification/Supersession.thy ===== *)
theory Supersession
  imports Conflict_Matching Post_Commit
begin

text \<open>
  Supersession-aware ingestion: \<^verbatim>\<open>services/facts/persistence.py\<close> and
  \<^verbatim>\<open>services/facts/supersession_ingest.py\<close>. A batch runs in the caller's transaction: an
  exception is a value \<^const>\<open>Inl\<close> without a database, since the caller rolls back.

  Rows are values: the list \<open>created\<close> holds each row as the INSERT returned it. A bucket
  (\<^verbatim>\<open>candidates_by_identity[n]\<close>) is the sublist of the rows with that name identity, in the order
  of the scan.
\<close>

section \<open>Batch scope and accumulators\<close>

datatype insert_mode = Batch_create | Batch_create_or_skip

record batch_ctx =
  ctx_org_id :: uuid
  ctx_project_id :: uuid
  ctx_user_id :: uuid
  ctx_source_episode_id :: "uuid option"
  ctx_insert_mode :: insert_mode
  ctx_now :: datetime

record batch_state =
  created :: "fact list"
  closed_ids :: "uuid list"
  in_batch :: "name_identity \<Rightarrow> fact list"
  superseded_count :: nat
  skipped_count :: nat
  events :: "supersession_event list"
  source_episode_by_old_fact :: "uuid \<rightharpoonup> uuid option"

definition new_batch_state :: batch_state where
  "new_batch_state = \<lparr>created = [], closed_ids = [], in_batch = (\<lambda>_. []), superseded_count = 0,
     skipped_count = 0, events = [], source_episode_by_old_fact = Map.empty\<rparr>"

definition bucket :: "fact list \<Rightarrow> name_identity \<Rightarrow> fact list" where
  "bucket fs n = filter (\<lambda>f. name_identity_of_fact f = n) fs"

section \<open>Persistence\<close>

text \<open>The keys are sorted by their \<^verbatim>\<open>repr\<close> in the source, which fixes the order of the bound
  parameters only: the query is a disjunction over them.\<close>

definition scan_tombstones :: "pg \<Rightarrow> uuid \<Rightarrow> uuid \<Rightarrow> entry list \<Rightarrow> fact_db \<Rightarrow> fact list" where
  "scan_tombstones P org proj entries db =
     (let tombstone_keys = remdups (concat (map e_match_keys entries))
      in if tombstone_keys = [] then []
         else find_retracted_by_match_keys P org proj tombstone_keys db)"

definition matching_conflicts :: "entry \<Rightarrow> fact list \<Rightarrow> uuid list \<Rightarrow> fact list" where
  "matching_conflicts e scope closed_so_far =
     filter (\<lambda>c. f_id c \<notin> set closed_so_far \<and> candidate_conflicts e c) scope"

definition insert_rows ::
  "pg \<Rightarrow> batch_ctx \<Rightarrow> fact_row list \<Rightarrow> fact_db \<Rightarrow> (fact list \<times> fact_db) res" where
  "insert_rows P ctx rows db =
     (case ctx_insert_mode ctx of
        Batch_create_or_skip \<Rightarrow>
          batch_create_or_skip P (ctx_org_id ctx) (ctx_project_id ctx) (ctx_user_id ctx)
            (ctx_source_episode_id ctx) rows db
      | Batch_create \<Rightarrow>
          batch_create P (ctx_org_id ctx) (ctx_project_id ctx) (ctx_user_id ctx) rows False db)"

definition identical_content :: "entry \<Rightarrow> fact list \<Rightarrow> bool" where
  "identical_content e conflicts \<longleftrightarrow> list_ex (\<lambda>c. f_content c = r_content (e_row e)) conflicts"

definition skip_entry :: "batch_state \<Rightarrow> batch_state" where
  "skip_entry st = st\<lparr>skipped_count := Suc (skipped_count st)\<rparr>"

definition close_one :: "datetime \<Rightarrow> fact \<Rightarrow> fact_db \<times> batch_state \<Rightarrow> (fact_db \<times> batch_state) res" where
  "close_one now c s =
     (case s of (db, st) \<Rightarrow>
        exc_bind (set_valid_to (f_id c) now db) (\<lambda>db'.
          Inr (db', st\<lparr>closed_ids := f_id c # closed_ids st, superseded_count := Suc (superseded_count st)\<rparr>)))"

type_synonym kept = "(entry \<times> fact list) list"

definition batch_safe_step ::
  "batch_ctx \<Rightarrow> fact list \<Rightarrow> fact list \<Rightarrow> entry \<Rightarrow> fact_db \<times> batch_state \<times> kept
   \<Rightarrow> (fact_db \<times> batch_state \<times> kept) res" where
  "batch_safe_step ctx candidates tombstones e s =
     (case s of (db, st, kept) \<Rightarrow>
        let n = e_name_identity e;
            conflicts = matching_conflicts e (bucket candidates n) (closed_ids st)
        in if identical_content e conflicts then Inr (db, skip_entry st, kept)
           else if list_ex (candidate_conflicts e) (bucket tombstones n) then Inr (db, skip_entry st, kept)
           else exc_bind (exc_fold (close_one (ctx_now ctx)) conflicts (db, st)) (\<lambda>(db', st').
                  Inr (db', st', kept @ [(e, conflicts)])))"

definition note_event :: "entry \<Rightarrow> fact \<Rightarrow> fact \<Rightarrow> batch_state \<Rightarrow> batch_state" where
  "note_event e new_fact old_fact st =
     st\<lparr>source_episode_by_old_fact := (source_episode_by_old_fact st)
            (f_id old_fact \<mapsto> r_source_episode_id (e_row e)),
        events := events st @ [make_supersession_event old_fact (Some new_fact) (e_triple e)]\<rparr>"

definition pair_kept :: "fact list \<Rightarrow> entry \<times> fact list \<Rightarrow> batch_state \<Rightarrow> batch_state" where
  "pair_kept created_rows k st =
     (case k of (e, old_facts) \<Rightarrow>
        case bucket created_rows (e_name_identity e) of
          [] \<Rightarrow> st
        | new_fact # _ \<Rightarrow> fold (note_event e new_fact) old_facts st)"

definition supersede_batch_safe ::
  "pg \<Rightarrow> batch_ctx \<Rightarrow> entry list \<Rightarrow> fact list \<Rightarrow> fact list \<Rightarrow> fact_db \<times> batch_state
   \<Rightarrow> (fact_db \<times> batch_state) res" where
  "supersede_batch_safe P ctx batch_entries candidates tombstones s =
     (case s of (db, st) \<Rightarrow>
        exc_bind (exc_fold (batch_safe_step ctx candidates tombstones) batch_entries (db, st, [])) (\<lambda>(db1, st1, kept).
        exc_bind (if kept = [] then Inr ([], db1) else insert_rows P ctx (map (e_row \<circ> fst) kept) db1) (\<lambda>(new, db2).
          let st2 = st1\<lparr>created := created st1 @ new\<rparr>
          in Inr (db2, fold (pair_kept (created st2)) kept st2))))"

text \<open>In the sequential path a conflict inserted by this batch leaves \<open>in_batch\<close> when it is closed.\<close>

definition close_sequential ::
  "datetime \<Rightarrow> name_identity \<Rightarrow> fact \<Rightarrow> fact_db \<times> batch_state \<Rightarrow> (fact_db \<times> batch_state) res" where
  "close_sequential now n c s =
     (case s of (db, st) \<Rightarrow>
        exc_bind (set_valid_to (f_id c) now db) (\<lambda>db'.
          let st' = st\<lparr>superseded_count := Suc (superseded_count st)\<rparr>
          in Inr (db', if c \<in> set (in_batch st n)
                       then st'\<lparr>in_batch := (in_batch st)(n := remove1 c (in_batch st n))\<rparr>
                       else st'\<lparr>closed_ids := f_id c # closed_ids st\<rparr>)))"

definition sequential_step ::
  "pg \<Rightarrow> batch_ctx \<Rightarrow> fact list \<Rightarrow> fact list \<Rightarrow> entry \<Rightarrow> fact_db \<times> batch_state \<Rightarrow> (fact_db \<times> batch_state) res" where
  "sequential_step P ctx candidates tombstones e s =
     (case s of (db, st) \<Rightarrow>
        let n = e_name_identity e;
            conflicts = matching_conflicts e (bucket candidates n @ in_batch st n) (closed_ids st)
        in if identical_content e conflicts then Inr (db, skip_entry st)
           else if list_ex (candidate_conflicts e) (bucket tombstones n) then Inr (db, skip_entry st)
           else exc_bind (exc_fold (close_sequential (ctx_now ctx) n) conflicts (db, st)) (\<lambda>(db1, st1).
                exc_bind (insert_rows P ctx [e_row e] db1) (\<lambda>(inserted, db2).
                  case inserted of
                    [] \<Rightarrow> Inr (db2, st1)
                  | new_fact # _ \<Rightarrow>
                      Inr (db2, fold (note_event e new_fact) conflicts
                             (st1\<lparr>in_batch := (in_batch st1)(n := in_batch st1 n @ inserted),
                                  created := created st1 @ inserted\<rparr>)))))"

definition supersede_sequential ::
  "pg \<Rightarrow> batch_ctx \<Rightarrow> entry list \<Rightarrow> fact list \<Rightarrow> fact list \<Rightarrow> fact_db \<times> batch_state
   \<Rightarrow> (fact_db \<times> batch_state) res" where
  "supersede_sequential P ctx sequential_entries candidates tombstones =
     exc_fold (sequential_step P ctx candidates tombstones) sequential_entries"

definition lineage_step ::
  "pg \<Rightarrow> uuid \<Rightarrow> uuid \<Rightarrow> datetime \<Rightarrow> (uuid \<rightharpoonup> uuid option) \<Rightarrow> supersession_event \<Rightarrow> fact_db \<Rightarrow> fact_db res" where
  "lineage_step P org proj now episodes t db =
     (case new_fact_id t of
        None \<Rightarrow> Inr db
      | Some new_id \<Rightarrow>
          record_invalidation_event P org proj (old_fact_id t) (Some new_id) ''superseded'' None now
            (case episodes (old_fact_id t) of None \<Rightarrow> None | Some ep \<Rightarrow> ep)
            (set_superseded_by P (old_fact_id t) (Some new_id) db))"

definition record_lineage :: "pg \<Rightarrow> uuid \<Rightarrow> uuid \<Rightarrow> datetime \<Rightarrow> batch_state \<Rightarrow> fact_db \<Rightarrow> fact_db res" where
  "record_lineage P org proj now st =
     exc_fold (lineage_step P org proj now (source_episode_by_old_fact st)) (events st)"

section \<open>Ingestion\<close>

record ingestion_result =
  res_created :: "fact list"
  res_inserted_count :: nat
  res_superseded_count :: nat
  res_skipped_count :: nat

definition empty_result :: ingestion_result where
  "empty_result = \<lparr>res_created = [], res_inserted_count = 0, res_superseded_count = 0, res_skipped_count = 0\<rparr>"

text \<open>In-batch duplicates of (name identity, content): the first occurrence stays.\<close>

fun dedup_entries :: "(name_identity \<times> string) list \<Rightarrow> entry list \<Rightarrow> entry list" where
  "dedup_entries seen [] = []"
| "dedup_entries seen (e # es) =
     (let key = (e_name_identity e, r_content (e_row e))
      in if key \<in> set seen then dedup_entries seen es else e # dedup_entries (key # seen) es)"

definition identity_count :: "entry list \<Rightarrow> name_identity \<Rightarrow> nat" where
  "identity_count es n = length (filter (\<lambda>e. e_name_identity e = n) es)"

definition batch_lock_keys :: "uuid \<Rightarrow> uuid \<Rightarrow> entry list \<Rightarrow> string list" where
  "batch_lock_keys org proj entries =
     sort (remdups (map (\<lambda>e. lock_key_for_identity org proj (e_name_identity e)) entries))"

text \<open>The effects of the batch, in the order they are queued.\<close>

definition webhook_effects :: "uuid \<Rightarrow> uuid \<Rightarrow> supersession_event list \<Rightarrow> effect list" where
  "webhook_effects org proj evs =
     map (\<lambda>e. Webhook org proj (old_fact_id e) (new_fact_id e) (triple e) FACT_SUPERSEDED None)
       (filter (\<lambda>e. new_fact_id e \<noteq> None) evs)"

definition supersession_effects ::
  "uuid \<Rightarrow> uuid \<Rightarrow> datetime \<Rightarrow> batch_state \<Rightarrow> invalidation_service \<Rightarrow> effect list" where
  "supersession_effects org proj now st svc =
     (if superseded_count st > 0
      then IncSuperseded (superseded_count st)
           # (if has_cache_service svc then [InvalidateProjectContext org proj] else [])
      else [])
     @ (if events st \<noteq> [] \<and> has_webhook_service svc then webhook_effects org proj (events st) else [])
     @ (if events st \<noteq> [] \<and> has_graph_sync svc then [GraphSync org proj (events st) now] else [])"

definition ingest_entries ::
  "pg \<Rightarrow> batch_ctx \<Rightarrow> entry list \<Rightarrow> fact_db \<Rightarrow> (fact_db \<times> batch_state) res" where
  "ingest_entries P ctx entries db0 =
     (let org = ctx_org_id ctx; proj = ctx_project_id ctx; now = ctx_now ctx;
          lock_keys = batch_lock_keys org proj entries;
          db = (if lock_keys = [] then db0 else lock_conflict_identities lock_keys db0);
          candidates = find_conflicting_active_for_update P org proj (concat (map e_match_keys entries)) now db;
          tombstones = scan_tombstones P org proj entries db;
          batch_entries = filter (\<lambda>e. identity_count entries (e_name_identity e) = 1) entries;
          sequential_entries = filter (\<lambda>e. identity_count entries (e_name_identity e) > 1) entries
      in exc_bind (supersede_batch_safe P ctx batch_entries candidates tombstones (db, new_batch_state)) (\<lambda>s1.
         exc_bind (supersede_sequential P ctx sequential_entries candidates tombstones s1) (\<lambda>(db2, st2).
         exc_bind (record_lineage P org proj now st2 db2) (\<lambda>db3. Inr (db3, st2)))))"

definition ingest_with_supersession ::
  "pg \<Rightarrow> (string \<Rightarrow> datetime option) \<Rightarrow> uuid \<Rightarrow> uuid \<Rightarrow> uuid \<Rightarrow> fact_in list \<Rightarrow> uuid option \<Rightarrow> insert_mode
   \<Rightarrow> datetime option \<Rightarrow> fact_db \<times> invalidation_service
   \<Rightarrow> (ingestion_result \<times> fact_db \<times> invalidation_service) res" where
  "ingest_with_supersession P fromiso org proj usr fds source_episode_id mode at_time s =
     (case s of (db, svc) \<Rightarrow>
      let now = (case at_time of None \<Rightarrow> utcnow P | Some t \<Rightarrow> t) in
      if fds = [] then Inr (empty_result, db, svc)
      else exc_bind (exc_map (\<lambda>fd. prepare_entry fromiso fd source_episode_id now) fds) (\<lambda>all_entries.
           let entries = dedup_entries [] all_entries;
               ctx = \<lparr>ctx_org_id = org, ctx_project_id = proj, ctx_user_id = usr,
                      ctx_source_episode_id = source_episode_id, ctx_insert_mode = mode, ctx_now = now\<rparr>
           in exc_bind (ingest_entries P ctx entries db) (\<lambda>(db', st).
              Inr (\<lparr>res_created = created st, res_inserted_count = length (created st),
                    res_superseded_count = superseded_count st,
                    res_skipped_count = (length all_entries - length entries) + skipped_count st\<rparr>,
                   db', fold queue_post_commit_effect (supersession_effects org proj now st svc) svc))))"

end
