(* ===== verification/Supersession_Frame.thy ===== *)
theory Supersession_Frame
  imports Supersession
begin

text \<open>
  What an ingestion may do to the fact table: old rows stay in place and change in one way only
  (they are closed at the instant of the batch and may get a successor), only rows the conflict
  scan returned are closed, and new rows carry the scope of the batch and fresh ids.
\<close>

section \<open>The frame of a batch\<close>

definition touched :: "uuid set \<Rightarrow> datetime \<Rightarrow> fact \<Rightarrow> fact \<Rightarrow> bool" where
  "touched C now f f' \<longleftrightarrow> f' = f \<or> (f_id f \<in> C
     \<and> (\<exists>s t. f' = f\<lparr>f_valid_to := Some now, f_superseded_by_fact_id := s, f_updated_at := t\<rparr>))"

definition batch_row :: "pg \<Rightarrow> batch_ctx \<Rightarrow> nat set \<Rightarrow> fact \<Rightarrow> bool" where
  "batch_row P ctx ns f \<longleftrightarrow> f_organization_id f = ctx_org_id ctx \<and> f_project_id f = ctx_project_id ctx
     \<and> f_invalid_at f = None \<and> f_id f \<in> gen_random_uuid P ` ns"

definition frame :: "pg \<Rightarrow> batch_ctx \<Rightarrow> uuid set \<Rightarrow> fact_db \<Rightarrow> fact_db \<Rightarrow> bool" where
  "frame P ctx C db db' \<longleftrightarrow>
     (\<exists>olds news. facts db' = olds @ news \<and> list_all2 (touched C (ctx_now ctx)) (facts db) olds
        \<and> (\<forall>f \<in> set news. batch_row P ctx {draws db..<draws db'} f))
     \<and> draws db \<le> draws db' \<and> db_ok P db'"

definition is_closed :: "datetime \<Rightarrow> uuid \<Rightarrow> fact_db \<Rightarrow> bool" where
  "is_closed now i db \<longleftrightarrow> (\<exists>f \<in> set (facts db). f_id f = i \<and> f_valid_to f = Some now)"

abbreviation close_fact :: "datetime \<Rightarrow> fact \<Rightarrow> fact" where
  "close_fact now f \<equiv> f\<lparr>f_valid_to := Some now, f_updated_at := now\<rparr>"

abbreviation link_fact :: "datetime \<Rightarrow> uuid option \<Rightarrow> fact \<Rightarrow> fact" where
  "link_fact t s f \<equiv> f\<lparr>f_superseded_by_fact_id := s, f_updated_at := t\<rparr>"

lemma touched_refl [simp]: "touched C now f f"
  by (simp add: touched_def)

lemma touched_id: "touched C now f f' \<Longrightarrow> f_id f' = f_id f"
  by (auto simp: touched_def)

lemma touched_close: "touched C now f f' \<Longrightarrow> f_id f \<in> C \<Longrightarrow> touched C now f (close_fact now f')"
  unfolding touched_def by (cases f) auto

lemma touched_link:
  "touched C now f f' \<Longrightarrow> f_id f \<in> C \<Longrightarrow> f_valid_to f' = Some now \<Longrightarrow> touched C now f (link_fact t s f')"
  unfolding touched_def by (cases f) auto

lemma frame_refl: "db_ok P db \<Longrightarrow> frame P ctx C db db"
  unfolding frame_def by (intro conjI exI[of _ "facts db"] exI[of _ "[]"]) (auto simp: list_all2_conv_all_nth)

lemma frame_db_ok: "frame P ctx C db db' \<Longrightarrow> db_ok P db'"
  by (simp add: frame_def)

lemma frame_modify:
  assumes fr: "frame P ctx C db db'" and i: "i \<in> C \<or> i \<notin> f_id ` set (facts db)"
    and tch: "\<And>f f'. f' \<in> set (facts db') \<Longrightarrow> f_id f \<in> C \<Longrightarrow> f_id f' = i \<Longrightarrow> touched C (ctx_now ctx) f f'
                \<Longrightarrow> touched C (ctx_now ctx) f (u f')"
    and u: "\<And>f. f_id (u f) = f_id f \<and> f_organization_id (u f) = f_organization_id f
              \<and> f_project_id (u f) = f_project_id f \<and> f_invalid_at (u f) = f_invalid_at f"
  shows "frame P ctx C db (modify_fact i u db')"
proof -
  let ?u = "\<lambda>f. if f_id f = i then u f else f"
  from fr obtain olds news where parts: "facts db' = olds @ news"
      "list_all2 (touched C (ctx_now ctx)) (facts db) olds"
      "\<forall>f \<in> set news. batch_row P ctx {draws db..<draws db'} f" "draws db \<le> draws db'" "db_ok P db'"
    unfolding frame_def by blast
  have "list_all2 (touched C (ctx_now ctx)) (facts db) (map ?u olds)"
    unfolding list_all2_conv_all_nth
  proof (intro conjI allI impI)
    show "length (facts db) = length (map ?u olds)" using parts(2) by (simp add: list_all2_lengthD)
    fix k assume k: "k < length (facts db)"
    then have t: "touched C (ctx_now ctx) (facts db ! k) (olds ! k)" and kl: "k < length olds"
      using parts(2) by (auto simp: list_all2_conv_all_nth)
    have mem: "olds ! k \<in> set (facts db')" using kl parts(1) by simp
    have "touched C (ctx_now ctx) (facts db ! k) (u (olds ! k))" if e: "f_id (olds ! k) = i"
    proof (rule tch[OF mem _ e t])
      have "f_id (facts db ! k) = i" using touched_id[OF t] e by simp
      then show "f_id (facts db ! k) \<in> C" using i nth_mem[OF k] by (metis imageI)
    qed
    then show "touched C (ctx_now ctx) (facts db ! k) (map ?u olds ! k)" using t kl by simp
  qed
  moreover have "\<forall>f \<in> set (map ?u news). batch_row P ctx {draws db..<draws (modify_fact i u db')} f"
    using parts(3) u by (auto simp: batch_row_def)
  ultimately show ?thesis unfolding frame_def
    using parts(1,4) db_ok_modify[OF parts(5), of u] u by (intro conjI exI[of _ "map ?u olds"] exI[of _ "map ?u news"]) auto
qed

lemma frame_close:
  assumes "frame P ctx C db db'" and "i \<in> C \<or> i \<notin> f_id ` set (facts db)"
    and "set_valid_to i (ctx_now ctx) db' = Inr db''"
  shows "frame P ctx C db db''"
  unfolding set_valid_to_Inr[OF assms(3)]
  by (rule frame_modify[OF assms(1,2)]) (simp_all add: touched_close)

lemma frame_link:
  assumes fr: "frame P ctx C db db'" and "i \<in> C \<or> i \<notin> f_id ` set (facts db)" and cl: "is_closed (ctx_now ctx) i db'"
  shows "frame P ctx C db (set_superseded_by P i s db')"
  unfolding set_superseded_by_def
proof (rule frame_modify[OF fr assms(2)])
  fix f f' assume a: "f' \<in> set (facts db')" "f_id f \<in> C" "f_id f' = i" "touched C (ctx_now ctx) f f'"
  from cl obtain g where g: "g \<in> set (facts db')" "f_id g = i" "f_valid_to g = Some (ctx_now ctx)"
    unfolding is_closed_def by blast
  have "distinct (map f_id (facts db'))" using frame_db_ok[OF fr] by (simp add: db_ok_def)
  then have "g = f'" using a(1,3) g(1,2) unfolding distinct_map inj_on_def by metis
  then show "touched C (ctx_now ctx) f (link_fact (utcnow P) s f')" using touched_link[OF a(4,2)] g(3) by simp
qed simp

lemma is_closed_modify:
  assumes "is_closed now i db" and "\<And>f. f_id (u f) = f_id f" and "\<And>f. f_valid_to f = Some now \<Longrightarrow> f_valid_to (u f) = Some now"
  shows "is_closed now i (modify_fact j u db)"
proof -
  obtain f where f: "f \<in> set (facts db)" "f_id f = i" "f_valid_to f = Some now"
    using assms(1) unfolding is_closed_def by blast
  then have "(if f_id f = j then u f else f) \<in> set (facts (modify_fact j u db))" by simp
  moreover have "f_id (if f_id f = j then u f else f) = i" "f_valid_to (if f_id f = j then u f else f) = Some now"
    using f(2,3) assms(2,3) by simp_all
  ultimately show ?thesis unfolding is_closed_def by blast
qed

lemma is_closed_valid_to:
  "is_closed now i db \<Longrightarrow> set_valid_to j now db = Inr db' \<Longrightarrow> is_closed now i db'"
  by (drule set_valid_to_Inr) (simp add: is_closed_modify)

lemma is_closed_now:
  assumes "set_valid_to i now db = Inr db'" and "i \<in> f_id ` set (facts db)"
  shows "is_closed now i db'"
proof -
  obtain f where "f \<in> set (facts db)" "f_id f = i" using assms(2) by blast
  then have "close_fact now f \<in> set (facts db')" unfolding set_valid_to_Inr[OF assms(1)] by force
  then show ?thesis unfolding is_closed_def using \<open>f_id f = i\<close> by (intro bexI[of _ "close_fact now f"]) simp_all
qed

lemma ids_valid_to:
  assumes "set_valid_to j now db = Inr db'"
  shows "f_id ` set (facts db') = f_id ` set (facts db)"
proof -
  have "map f_id (facts db') = map f_id (facts db)" unfolding set_valid_to_Inr[OF assms] by simp
  then show ?thesis by (metis set_map)
qed

section \<open>Inserts\<close>

lemma mk_fact_simps [simp]:
  "f_id (mk_fact P n org proj usr ep c r) = gen_random_uuid P n"
  "f_organization_id (mk_fact P n org proj usr ep c r) = org"
  "f_project_id (mk_fact P n org proj usr ep c r) = proj"
  "f_invalid_at (mk_fact P n org proj usr ep c r) = None"
  "f_content (mk_fact P n org proj usr ep c r) = c"
  "f_subject (mk_fact P n org proj usr ep c r) = Some (r_subject r)"
  "f_predicate (mk_fact P n org proj usr ep c r) = Some (r_predicate r)"
  "f_object (mk_fact P n org proj usr ep c r) = Some (r_object r)"
  "f_subject_entity_id (mk_fact P n org proj usr ep c r) = r_subject_entity_id r"
  "f_object_entity_id (mk_fact P n org proj usr ep c r) = r_object_entity_id r"
  "f_valid_from (mk_fact P n org proj usr ep c r) = r_valid_from r"
  "f_valid_to (mk_fact P n org proj usr ep c r) = r_valid_to r"
  "f_superseded_by_fact_id (mk_fact P n org proj usr ep c r) = None"
  by (simp_all add: mk_fact_def)

definition row_maker :: "pg \<Rightarrow> batch_ctx \<Rightarrow> fact_row \<Rightarrow> nat \<Rightarrow> fact" where
  "row_maker P ctx r n =
     (case ctx_insert_mode ctx of
        Batch_create \<Rightarrow> mk_fact P n (ctx_org_id ctx) (ctx_project_id ctx) (ctx_user_id ctx) (r_source_episode_id r) (r_content r) r
      | Batch_create_or_skip \<Rightarrow> mk_fact P n (ctx_org_id ctx) (ctx_project_id ctx) (ctx_user_id ctx) (ctx_source_episode_id ctx)
          (if r_content r \<noteq> [] then r_content r else spo_text r) r)"

lemma row_maker_simps [simp]:
  "f_id (row_maker P ctx r n) = gen_random_uuid P n"
  "f_organization_id (row_maker P ctx r n) = ctx_org_id ctx" "f_project_id (row_maker P ctx r n) = ctx_project_id ctx"
  "f_invalid_at (row_maker P ctx r n) = None"
  "f_subject (row_maker P ctx r n) = Some (r_subject r)" "f_predicate (row_maker P ctx r n) = Some (r_predicate r)"
  "f_object (row_maker P ctx r n) = Some (r_object r)"
  "f_subject_entity_id (row_maker P ctx r n) = r_subject_entity_id r"
  "f_object_entity_id (row_maker P ctx r n) = r_object_entity_id r"
  "f_valid_from (row_maker P ctx r n) = r_valid_from r" "f_valid_to (row_maker P ctx r n) = r_valid_to r"
  "r_content r \<noteq> [] \<Longrightarrow> f_content (row_maker P ctx r n) = r_content r"
  by (simp_all add: row_maker_def split: insert_mode.split)

lemma insert_rows_Inr:
  assumes "insert_rows P ctx rows db = Inr (fs, db')" and "rows \<noteq> []"
  shows "insert_facts (ctx_insert_mode ctx = Batch_create_or_skip) (map (row_maker P ctx) rows) db = Inr (fs, db')"
  using assms
  by (cases "ctx_insert_mode ctx")
    (simp_all add: insert_rows_def batch_create_def batch_create_or_skip_def row_maker_def[abs_def] split: if_splits)

text \<open>The rows an insert returns, with the draws that gave their ids.\<close>

lemma insert_rows_new:
  assumes "insert_rows P ctx rows db = Inr (fs, db')" and "rows \<noteq> []"
  shows "facts db' = facts db @ fs" and "inv_events db' = inv_events db" and "locks db' = locks db"
    and "draws db' = draws db + length rows"
    and "\<And>f. f \<in> set fs \<Longrightarrow> \<exists>r \<in> set rows. \<exists>n \<in> {draws db..<draws db'}. f = row_maker P ctx r n"
    and "\<exists>ns. sorted_wrt (<) ns \<and> set ns \<subseteq> {draws db..<draws db'} \<and> map f_id fs = map (gen_random_uuid P) ns"
proof -
  note ins = insert_rows_Inr[OF assms]
  show "facts db' = facts db @ fs" "inv_events db' = inv_events db" "locks db' = locks db"
    "draws db' = draws db + length rows" using insert_facts_Inr(1-4)[OF ins] by simp_all
  obtain ns where ns: "sorted_wrt (<) ns" "set ns \<subseteq> {draws db..<draws db'}" "length ns = length fs"
      "list_all2 (\<lambda>n f. \<exists>mk \<in> set (map (row_maker P ctx) rows). f = mk n) ns fs"
    using insert_facts_Inr(5)[OF ins] by blast
  show "\<exists>r \<in> set rows. \<exists>n \<in> {draws db..<draws db'}. f = row_maker P ctx r n" if f: "f \<in> set fs" for f
  proof -
    obtain k where k: "k < length fs" "f = fs ! k" using f by (metis in_set_conv_nth)
    then obtain r where "r \<in> set rows" "f = row_maker P ctx r (ns ! k)"
      using ns(3,4) by (auto simp: list_all2_conv_all_nth)
    moreover have "ns ! k \<in> {draws db..<draws db'}" using ns(2,3) k(1) by (metis nth_mem subsetD)
    ultimately show ?thesis by blast
  qed
  have "map f_id fs = map (gen_random_uuid P) ns"
    using ns(3,4) by (intro nth_equalityI) (auto simp: list_all2_conv_all_nth)
  then show "\<exists>ns. sorted_wrt (<) ns \<and> set ns \<subseteq> {draws db..<draws db'} \<and> map f_id fs = map (gen_random_uuid P) ns"
    using ns(1,2) by blast
qed

lemma insert_rows_all:
  assumes "insert_rows P ctx rows db = Inr (fs, db')" and "ctx_insert_mode ctx = Batch_create"
  shows "length fs = length rows"
proof -
  have *: "insert_facts False mks db = Inr (fs, db') \<Longrightarrow> length fs = length mks" for mks db fs
    by (induction mks arbitrary: db fs) (auto simp: Let_def exc_bind_Inr_iff split: option.splits)
  show ?thesis using assms by (auto simp: insert_rows_def batch_create_def dest!: * split: if_splits)
qed

context postgres
begin

lemma db_ok_insert:
  assumes ok: "db_ok P db" and ins: "insert_rows P ctx rows db = Inr (fs, db')" and ne: "rows \<noteq> []"
  shows "db_ok P db'"
proof -
  note new = insert_rows_new[OF ins ne]
  obtain ns where ns: "sorted_wrt (<) ns" "set ns \<subseteq> {draws db..<draws db'}" "map f_id fs = map (gen_random_uuid P) ns"
    using new(6) by blast
  have "distinct ns" using ns(1) by (simp add: strict_sorted_iff)
  then have "distinct (map f_id fs)" unfolding ns(3) distinct_map using uuid_inj by (simp add: inj_on_def)
  moreover have "f_id ` set fs \<subseteq> gen_random_uuid P ` {draws db..<draws db'}"
    using ns(2,3) by (metis image_mono set_map)
  moreover have "gen_random_uuid P ` {..<draws db} \<inter> gen_random_uuid P ` {draws db..<draws db'} = {}"
    by (auto dest!: injD[OF uuid_inj])
  moreover have old: "distinct (map f_id (facts db))" "f_id ` set (facts db) \<subseteq> gen_random_uuid P ` {..<draws db}"
    using ok by (auto simp: db_ok_def)
  ultimately have "distinct (map f_id (facts db'))" unfolding new(1) by auto blast
  moreover have "f_id f \<in> gen_random_uuid P ` {..<draws db'}" if "f \<in> set (facts db')" for f
  proof (cases "f \<in> set (facts db)")
    case True
    then have "f_id f \<in> gen_random_uuid P ` {..<draws db}" using old(2) by blast
    then show ?thesis using new(4) by (auto simp: image_iff)
  next
    case False
    then have "f_id f \<in> gen_random_uuid P ` {draws db..<draws db'}"
      using that new(1) \<open>f_id ` set fs \<subseteq> _\<close> by auto
    then show ?thesis by auto
  qed
  ultimately show ?thesis by (simp add: db_ok_def)
qed

lemma frame_insert:
  assumes fr: "frame P ctx C db db'" and ins: "insert_rows P ctx rows db' = Inr (fs, db'')" and ne: "rows \<noteq> []"
  shows "frame P ctx C db db''"
proof -
  note new = insert_rows_new[OF ins ne]
  from fr obtain olds news where parts: "facts db' = olds @ news"
      "list_all2 (touched C (ctx_now ctx)) (facts db) olds"
      "\<forall>f \<in> set news. batch_row P ctx {draws db..<draws db'} f" "draws db \<le> draws db'" "db_ok P db'"
    unfolding frame_def by blast
  have "batch_row P ctx {draws db..<draws db''} f" if f: "f \<in> set fs" for f
  proof -
    obtain r n where "f = row_maker P ctx r n" "n \<in> {draws db'..<draws db''}" using new(5)[OF f] by blast
    then show ?thesis using parts(4) by (auto simp: batch_row_def)
  qed
  moreover have "batch_row P ctx {draws db..<draws db''} f" if "f \<in> set news" for f
    using parts(3) that new(4) by (auto simp: batch_row_def)
  ultimately show ?thesis unfolding frame_def
    using parts new(1,4) db_ok_insert[OF parts(5) ins ne]
    by (intro conjI exI[of _ olds] exI[of _ "news @ fs"]) auto
qed

text \<open>Rows inserted after \<open>db\<close> have ids that \<open>db\<close> does not know.\<close>

lemma new_ids_fresh:
  assumes ok: "db_ok P db" and fr: "frame P ctx C db db'"
    and ins: "insert_rows P ctx rows db' = Inr (fs, db'')" and ne: "rows \<noteq> []" and f: "f \<in> set fs"
  shows "f_id f \<notin> f_id ` set (facts db)"
proof -
  obtain r n where "f = row_maker P ctx r n" "n \<in> {draws db'..<draws db''}"
    using insert_rows_new(5)[OF ins ne f] by blast
  moreover have "draws db \<le> draws db'" using fr by (simp add: frame_def)
  ultimately have "f_id f = gen_random_uuid P n" "draws db \<le> n" by auto
  then have "f_id f \<notin> gen_random_uuid P ` {..<draws db}" by (auto dest!: injD[OF uuid_inj])
  then show ?thesis using ok by (auto simp: db_ok_def)
qed

end

lemma is_closed_insert:
  "is_closed now i db \<Longrightarrow> insert_rows P ctx rows db = Inr (fs, db') \<Longrightarrow> rows \<noteq> [] \<Longrightarrow> is_closed now i db'"
  by (auto simp: is_closed_def insert_rows_new(1))

end
