(* ===== verification/Supersession_Invariant.thy ===== *)
theory Supersession_Invariant
  imports Supersession_Frame
begin

text \<open>
  The invariant of an ingestion, through closing, inserting, pairing and lineage: the frame of
  the fact table, and that every transition on record closes a row it was allowed to close
  and names a successor this batch created.
\<close>

section \<open>The loops without their bookkeeping\<close>

definition close_all :: "datetime \<Rightarrow> fact list \<Rightarrow> fact_db \<Rightarrow> fact_db res" where
  "close_all now cs = exc_fold (\<lambda>c. set_valid_to (f_id c) now) cs"

definition count_closed :: "uuid list \<Rightarrow> batch_state \<Rightarrow> batch_state" where
  "count_closed is st = st\<lparr>closed_ids := is @ closed_ids st, superseded_count := superseded_count st + length is\<rparr>"

definition drop_closed :: "name_identity \<Rightarrow> fact \<Rightarrow> batch_state \<Rightarrow> batch_state" where
  "drop_closed n c st =
     (let st' = st\<lparr>superseded_count := Suc (superseded_count st)\<rparr>
      in if c \<in> set (in_batch st n) then st'\<lparr>in_batch := (in_batch st)(n := remove1 c (in_batch st n))\<rparr>
         else st'\<lparr>closed_ids := f_id c # closed_ids st\<rparr>)"

lemma close_one_loop:
  "exc_fold (close_one now) cs (db, st) =
     exc_bind (close_all now cs db) (\<lambda>db'. Inr (db', count_closed (rev (map f_id cs)) st))"
proof (induction cs arbitrary: db st)
  case Nil
  then show ?case by (simp add: close_all_def count_closed_def)
next
  case (Cons c cs)
  show ?case
  proof (cases "set_valid_to (f_id c) now db")
    case (Inr db1)
    then have "exc_fold (close_one now) (c # cs) (db, st) = exc_fold (close_one now) cs (db1, count_closed [f_id c] st)"
      by (simp add: close_one_def count_closed_def)
    also have "\<dots> = exc_bind (close_all now (c # cs) db) (\<lambda>db'. Inr (db', count_closed (rev (map f_id (c # cs))) st))"
      unfolding Cons.IH using Inr by (simp add: close_all_def count_closed_def)
    finally show ?thesis .
  qed (simp add: close_one_def close_all_def)
qed

lemma close_sequential_loop:
  "exc_fold (close_sequential now n) cs (db, st) =
     exc_bind (close_all now cs db) (\<lambda>db'. Inr (db', fold (drop_closed n) cs st))"
proof (induction cs arbitrary: db st)
  case Nil
  then show ?case by (simp add: close_all_def)
next
  case (Cons c cs)
  show ?case
  proof (cases "set_valid_to (f_id c) now db")
    case (Inr db1)
    then have "exc_fold (close_sequential now n) (c # cs) (db, st)
        = exc_fold (close_sequential now n) cs (db1, drop_closed n c st)"
      by (simp add: close_sequential_def drop_closed_def Let_def)
    then show ?thesis unfolding Cons.IH using Inr by (simp add: close_all_def)
  qed (simp add: close_sequential_def close_all_def)
qed

text \<open>What the bookkeeping leaves alone.\<close>

lemma count_closed_simps [simp]:
  "created (count_closed is st) = created st" "events (count_closed is st) = events st"
  "in_batch (count_closed is st) = in_batch st" "skipped_count (count_closed is st) = skipped_count st"
  "superseded_count (count_closed is st) = superseded_count st + length is"
  by (simp_all add: count_closed_def)

lemma skip_entry_simps [simp]:
  "created (skip_entry st) = created st" "events (skip_entry st) = events st"
  "in_batch (skip_entry st) = in_batch st" "closed_ids (skip_entry st) = closed_ids st"
  "skipped_count (skip_entry st) = Suc (skipped_count st)" "superseded_count (skip_entry st) = superseded_count st"
  by (simp_all add: skip_entry_def)

lemma drop_closed_simps [simp]:
  "created (drop_closed n c st) = created st" "events (drop_closed n c st) = events st"
  "skipped_count (drop_closed n c st) = skipped_count st"
  "superseded_count (drop_closed n c st) = Suc (superseded_count st)"
  "set (in_batch (drop_closed n c st) m) \<subseteq> set (in_batch st m)"
  using set_remove1_subset[of c "in_batch st n"] by (simp_all add: drop_closed_def Let_def)

lemma drop_closed_fold [simp]:
  "created (fold (drop_closed n) cs st) = created st" "events (fold (drop_closed n) cs st) = events st"
  "skipped_count (fold (drop_closed n) cs st) = skipped_count st"
  "superseded_count (fold (drop_closed n) cs st) = superseded_count st + length cs"
  by (induction cs arbitrary: st) simp_all

lemma drop_closed_fold_in_batch: "set (in_batch (fold (drop_closed n) cs st) m) \<subseteq> set (in_batch st m)"
proof (induction cs arbitrary: st)
  case Nil
  then show ?case by simp
next
  case (Cons c cs)
  then show ?case using drop_closed_simps(5)[of n c st m] by (auto simp del: drop_closed_simps(5))
qed

lemma note_event_fold [simp]:
  "created (fold (note_event e new) olds st) = created st"
  "in_batch (fold (note_event e new) olds st) = in_batch st"
  "closed_ids (fold (note_event e new) olds st) = closed_ids st"
  "skipped_count (fold (note_event e new) olds st) = skipped_count st"
  "superseded_count (fold (note_event e new) olds st) = superseded_count st"
  "events (fold (note_event e new) olds st)
     = events st @ map (\<lambda>old. make_supersession_event old (Some new) (e_triple e)) olds"
  by (induction olds arbitrary: st) (simp_all add: note_event_def)

definition kept_events :: "fact list \<Rightarrow> entry \<times> fact list \<Rightarrow> supersession_event list" where
  "kept_events rows k =
     (case bucket rows (e_name_identity (fst k)) of
        [] \<Rightarrow> []
      | new # _ \<Rightarrow> map (\<lambda>old. make_supersession_event old (Some new) (e_triple (fst k))) (snd k))"

lemma pair_kept_simps [simp]:
  "created (pair_kept rows k st) = created st" "in_batch (pair_kept rows k st) = in_batch st"
  "skipped_count (pair_kept rows k st) = skipped_count st"
  "superseded_count (pair_kept rows k st) = superseded_count st"
  "events (pair_kept rows k st) = events st @ kept_events rows k"
  by (auto simp: pair_kept_def kept_events_def split: prod.split list.split)

lemma pair_kept_fold [simp]:
  "created (fold (pair_kept rows) ks st) = created st" "in_batch (fold (pair_kept rows) ks st) = in_batch st"
  "skipped_count (fold (pair_kept rows) ks st) = skipped_count st"
  "superseded_count (fold (pair_kept rows) ks st) = superseded_count st"
  "events (fold (pair_kept rows) ks st) = events st @ concat (map (kept_events rows) ks)"
  by (induction ks arbitrary: st) simp_all

lemma event_ids [simp]:
  "old_fact_id (make_supersession_event old new tr) = f_id old"
  "new_fact_id (make_supersession_event old new tr) = map_option f_id new"
  by (simp_all add: make_supersession_event_def Let_def)

text \<open>The two ends of a sequential step.\<close>

definition note_inserted :: "entry \<Rightarrow> fact list \<Rightarrow> fact list \<Rightarrow> batch_state \<Rightarrow> batch_state" where
  "note_inserted e conflicts inserted st =
     (case inserted of
        [] \<Rightarrow> st
      | new_fact # _ \<Rightarrow>
          fold (note_event e new_fact) conflicts
            (st\<lparr>in_batch := (in_batch st)(e_name_identity e := in_batch st (e_name_identity e) @ inserted),
                created := created st @ inserted\<rparr>))"

lemma sequential_step_cases [consumes 1, case_names skip insert]:
  assumes "sequential_step P ctx candidates tombstones e (db, st) = Inr (db', st')"
  obtains "db' = db" "st' = skip_entry st"
    "identical_content e (matching_conflicts e (bucket candidates (e_name_identity e) @ in_batch st (e_name_identity e)) (closed_ids st))
     \<or> list_ex (candidate_conflicts e) (bucket tombstones (e_name_identity e))"
  | db1 fs where "close_all (ctx_now ctx) (matching_conflicts e (bucket candidates (e_name_identity e) @ in_batch st (e_name_identity e)) (closed_ids st)) db = Inr db1"
    "insert_rows P ctx [e_row e] db1 = Inr (fs, db')"
    "st' = note_inserted e (matching_conflicts e (bucket candidates (e_name_identity e) @ in_batch st (e_name_identity e)) (closed_ids st)) fs
       (fold (drop_closed (e_name_identity e)) (matching_conflicts e (bucket candidates (e_name_identity e) @ in_batch st (e_name_identity e)) (closed_ids st)) st)"
    "\<not> identical_content e (matching_conflicts e (bucket candidates (e_name_identity e) @ in_batch st (e_name_identity e)) (closed_ids st))"
    "\<not> list_ex (candidate_conflicts e) (bucket tombstones (e_name_identity e))"
proof -
  let ?n = "e_name_identity e"
  let ?cs = "matching_conflicts e (bucket candidates ?n @ in_batch st ?n) (closed_ids st)"
  show thesis
  proof (cases "identical_content e ?cs \<or> list_ex (candidate_conflicts e) (bucket tombstones ?n)")
    case True
    then have "sequential_step P ctx candidates tombstones e (db, st) = Inr (db, skip_entry st)"
      by (auto simp: sequential_step_def Let_def)
    then show thesis using assms that(1) True by simp
  next
    case False
    then obtain db1 fs db2 where cl: "close_all (ctx_now ctx) ?cs db = Inr db1"
        and ins: "insert_rows P ctx [e_row e] db1 = Inr (fs, db2)"
        and r: "(case fs of [] \<Rightarrow> Inr (db2, fold (drop_closed ?n) ?cs st)
            | new_fact # _ \<Rightarrow> Inr (db2, fold (note_event e new_fact) ?cs
                  ((fold (drop_closed ?n) ?cs st)\<lparr>in_batch := (in_batch (fold (drop_closed ?n) ?cs st))
                      (?n := in_batch (fold (drop_closed ?n) ?cs st) ?n @ fs),
                     created := created (fold (drop_closed ?n) ?cs st) @ fs\<rparr>))) = (Inr (db', st') :: (fact_db \<times> batch_state) res)"
      using assms unfolding sequential_step_def Let_def prod.case close_sequential_loop exc_bind_assoc
      by (simp only: exc_bind_Inr_iff if_False de_Morgan_disj split_paired_Ex prod.case exc_bind.simps) blast
    have "db' = db2" "st' = note_inserted e ?cs fs (fold (drop_closed ?n) ?cs st)"
      using r by (simp_all add: note_inserted_def split: list.splits)
    then show thesis using that(2)[OF cl] ins False by simp
  qed
qed

section \<open>Closing\<close>

definition closable :: "uuid set \<Rightarrow> fact_db \<Rightarrow> uuid \<Rightarrow> bool" where
  "closable C db0 i \<longleftrightarrow> i \<in> C \<or> i \<notin> f_id ` set (facts db0)"

lemma close_all_frame:
  assumes "close_all (ctx_now ctx) cs db = Inr db'" and "frame P ctx C db0 db"
    and "\<And>c. c \<in> set cs \<Longrightarrow> closable C db0 (f_id c) \<and> f_id c \<in> f_id ` set (facts db)"
  shows "frame P ctx C db0 db'" and "f_id ` set (facts db') = f_id ` set (facts db)"
    and "inv_events db' = inv_events db"
    and "\<And>i. is_closed (ctx_now ctx) i db \<Longrightarrow> is_closed (ctx_now ctx) i db'"
    and "\<And>c. c \<in> set cs \<Longrightarrow> is_closed (ctx_now ctx) (f_id c) db'"
proof -
  have "frame P ctx C db0 db' \<and> f_id ` set (facts db') = f_id ` set (facts db) \<and> inv_events db' = inv_events db
    \<and> (\<forall>i. is_closed (ctx_now ctx) i db \<longrightarrow> is_closed (ctx_now ctx) i db')
    \<and> (\<forall>c \<in> set cs. is_closed (ctx_now ctx) (f_id c) db')"
    using assms
  proof (induction cs arbitrary: db)
    case Nil
    then show ?case by (simp add: close_all_def)
  next
    case (Cons c cs)
    from Cons.prems(1) obtain db1 where s: "set_valid_to (f_id c) (ctx_now ctx) db = Inr db1"
        and r: "close_all (ctx_now ctx) cs db1 = Inr db'"
      by (auto simp: close_all_def exc_bind_Inr_iff)
    have fr: "frame P ctx C db0 db1"
      using frame_close[OF Cons.prems(2) _ s] Cons.prems(3)[of c] by (simp add: closable_def)
    note ids = ids_valid_to[OF s]
    have "inv_events db1 = inv_events db" by (simp add: set_valid_to_Inr[OF s])
    moreover have "is_closed (ctx_now ctx) (f_id c) db1"
      using is_closed_now[OF s] Cons.prems(3)[of c] by simp
    moreover have "is_closed (ctx_now ctx) i db \<Longrightarrow> is_closed (ctx_now ctx) i db1" for i
      using is_closed_valid_to[OF _ s] by simp
    ultimately show ?case using Cons.IH[OF r fr] Cons.prems(3) ids by auto
  qed
  then show "frame P ctx C db0 db'" "f_id ` set (facts db') = f_id ` set (facts db)" "inv_events db' = inv_events db"
    "\<And>i. is_closed (ctx_now ctx) i db \<Longrightarrow> is_closed (ctx_now ctx) i db'"
    "\<And>c. c \<in> set cs \<Longrightarrow> is_closed (ctx_now ctx) (f_id c) db'" by blast+
qed

section \<open>The invariant\<close>

definition event_ok ::
  "batch_ctx \<Rightarrow> uuid set \<Rightarrow> fact_db \<Rightarrow> fact_db \<Rightarrow> fact list \<Rightarrow> supersession_event \<Rightarrow> bool" where
  "event_ok ctx C db0 db rows e \<longleftrightarrow>
     closable C db0 (old_fact_id e) \<and> is_closed (ctx_now ctx) (old_fact_id e) db
     \<and> new_fact_id e \<in> Some ` f_id ` set rows"

definition batch_inv :: "pg \<Rightarrow> batch_ctx \<Rightarrow> uuid set \<Rightarrow> fact_db \<Rightarrow> fact_db \<times> batch_state \<Rightarrow> bool" where
  "batch_inv P ctx C db0 s \<longleftrightarrow>
     (case s of (db, st) \<Rightarrow>
        frame P ctx C db0 db \<and> inv_events db = inv_events db0
        \<and> f_id ` set (facts db0) \<subseteq> f_id ` set (facts db)
        \<and> (\<forall>f \<in> set (created st). f_id f \<notin> f_id ` set (facts db0) \<and> f_id f \<in> f_id ` set (facts db))
        \<and> (\<forall>n. set (in_batch st n) \<subseteq> set (created st))
        \<and> (\<forall>e \<in> set (events st). event_ok ctx C db0 db (created st) e))"

lemma batch_inv_skip: "batch_inv P ctx C db0 (db, st) \<Longrightarrow> batch_inv P ctx C db0 (db, skip_entry st)"
  by (simp add: batch_inv_def)

lemma batch_invD:
  assumes "batch_inv P ctx C db0 (db, st)"
  shows "frame P ctx C db0 db" and "inv_events db = inv_events db0"
    and "f_id ` set (facts db0) \<subseteq> f_id ` set (facts db)"
    and "f \<in> set (created st) \<Longrightarrow> f_id f \<notin> f_id ` set (facts db0) \<and> f_id f \<in> f_id ` set (facts db)"
    and "set (in_batch st n) \<subseteq> set (created st)"
    and "e \<in> set (events st) \<Longrightarrow> event_ok ctx C db0 db (created st) e"
  using assms unfolding batch_inv_def prod.case by blast+

lemma batch_invI:
  assumes "frame P ctx C db0 db" and "inv_events db = inv_events db0"
    and "f_id ` set (facts db0) \<subseteq> f_id ` set (facts db)"
    and "\<And>f. f \<in> set (created st) \<Longrightarrow> f_id f \<notin> f_id ` set (facts db0) \<and> f_id f \<in> f_id ` set (facts db)"
    and "\<And>n. set (in_batch st n) \<subseteq> set (created st)"
    and "\<And>e. e \<in> set (events st) \<Longrightarrow> event_ok ctx C db0 db (created st) e"
  shows "batch_inv P ctx C db0 (db, st)"
  using assms unfolding batch_inv_def prod.case by blast

lemma event_ok_mono:
  "event_ok ctx C db0 db rows e \<Longrightarrow> (\<And>i. is_closed (ctx_now ctx) i db \<Longrightarrow> is_closed (ctx_now ctx) i db')
   \<Longrightarrow> set rows \<subseteq> set rows' \<Longrightarrow> event_ok ctx C db0 db' rows' e"
  by (auto simp: event_ok_def)

lemma batch_inv_close:
  assumes inv: "batch_inv P ctx C db0 (db, st)" and cl: "close_all (ctx_now ctx) cs db = Inr db'"
    and cs: "\<And>c. c \<in> set cs \<Longrightarrow> closable C db0 (f_id c) \<and> f_id c \<in> f_id ` set (facts db)"
    and st: "created st' = created st" "events st' = events st" "\<And>n. set (in_batch st' n) \<subseteq> set (in_batch st n)"
  shows "batch_inv P ctx C db0 (db', st')"
    and "\<And>c. c \<in> set cs \<Longrightarrow> is_closed (ctx_now ctx) (f_id c) db'"
    and "\<And>i. is_closed (ctx_now ctx) i db \<Longrightarrow> is_closed (ctx_now ctx) i db'"
proof -
  have "frame P ctx C db0 db" using inv by (simp add: batch_inv_def)
  note c = close_all_frame[OF cl this cs]
  show "batch_inv P ctx C db0 (db', st')"
  proof (rule batch_invI)
    show "set (in_batch st' n) \<subseteq> set (created st')" for n
      using batch_invD(5)[OF inv] st(3) unfolding st(1) by (rule subset_trans[rotated])
    show "event_ok ctx C db0 db' (created st') e" if "e \<in> set (events st')" for e
      unfolding st(1) by (rule event_ok_mono[OF batch_invD(6)[OF inv] c(4) order_refl]) (use that st(2) in simp_all)
  qed (use c(1-3) st(1) batch_invD[OF inv] in simp_all)
  show "\<And>c. c \<in> set cs \<Longrightarrow> is_closed (ctx_now ctx) (f_id c) db'"
    "\<And>i. is_closed (ctx_now ctx) i db \<Longrightarrow> is_closed (ctx_now ctx) i db'" using c(4,5) by blast+
qed

definition kept_ok :: "batch_ctx \<Rightarrow> uuid set \<Rightarrow> fact_db \<Rightarrow> kept \<Rightarrow> bool" where
  "kept_ok ctx C db kept \<longleftrightarrow> (\<forall>(e, olds) \<in> set kept. \<forall>f \<in> set olds. f_id f \<in> C \<and> is_closed (ctx_now ctx) (f_id f) db)"

context postgres
begin

lemma batch_inv_insert:
  assumes inv: "batch_inv P ctx C db0 (db, st)" and ok: "db_ok P db0"
    and ins: "insert_rows P ctx rows db = Inr (fs, db')" and ne: "rows \<noteq> []"
    and st: "created st' = created st @ fs" "\<And>n. set (in_batch st' n) \<subseteq> set (in_batch st n) \<union> set fs"
      "\<And>e. e \<in> set (events st') \<Longrightarrow> e \<in> set (events st) \<or> event_ok ctx C db0 db' (created st') e"
  shows "batch_inv P ctx C db0 (db', st')"
proof -
  note new = insert_rows_new[OF ins ne]
  have fr: "frame P ctx C db0 db" using inv by (simp add: batch_inv_def)
  have "event_ok ctx C db0 db' (created st') e" if "e \<in> set (events st')" for e
    using st(3)[OF that]
  proof
    assume "e \<in> set (events st)"
    then have "event_ok ctx C db0 db (created st) e" using inv by (simp add: batch_inv_def)
    then show ?thesis by (rule event_ok_mono) (auto simp: is_closed_insert[OF _ ins ne] st(1))
  qed
  moreover have "f_id f \<notin> f_id ` set (facts db0) \<and> f_id f \<in> f_id ` set (facts db')" if "f \<in> set (created st')" for f
    using that new_ids_fresh[OF ok fr ins ne, of f] batch_invD(4)[OF inv, of f] unfolding st(1) new(1) by auto
  moreover have "set (in_batch st' n) \<subseteq> set (created st')" for n
    using st(2)[of n] batch_invD(5)[OF inv, of n] unfolding st(1) set_append by blast
  ultimately show ?thesis
    using new(1,2) frame_insert[OF fr ins ne] batch_invD(2,3)[OF inv] by (intro batch_invI) auto
qed

section \<open>The two paths\<close>

lemma batch_safe_step_inv:
  assumes inv: "batch_inv P ctx C db0 (db, st)" "kept_ok ctx C db kept" "created st = []"
    and step: "batch_safe_step ctx candidates tombstones e (db, st, kept) = Inr (db', st', kept')"
    and cand: "C = f_id ` set candidates" "C \<subseteq> f_id ` set (facts db0)"
  shows "batch_inv P ctx C db0 (db', st') \<and> kept_ok ctx C db' kept' \<and> created st' = []"
proof -
  let ?cs = "matching_conflicts e (bucket candidates (e_name_identity e)) (closed_ids st)"
  show ?thesis
  proof (cases "identical_content e ?cs \<or> list_ex (candidate_conflicts e) (bucket tombstones (e_name_identity e))")
    case True
    then have "(db', st', kept') = (db, skip_entry st, kept)"
      using step by (auto simp: batch_safe_step_def Let_def split: if_splits)
    then show ?thesis using inv batch_inv_skip by simp
  next
    case False
    then obtain db1 where cl: "close_all (ctx_now ctx) ?cs db = Inr db1"
        and r: "db' = db1" "st' = count_closed (rev (map f_id ?cs)) st" "kept' = kept @ [(e, ?cs)]"
      using step by (auto simp: batch_safe_step_def Let_def close_one_loop exc_bind_Inr_iff exc_bind_assoc)
    have cs: "f_id c \<in> C \<and> closable C db0 (f_id c) \<and> f_id c \<in> f_id ` set (facts db)" if "c \<in> set ?cs" for c
      using that cand inv(1) by (auto simp: matching_conflicts_def bucket_def closable_def batch_inv_def)
    note b = batch_inv_close[OF inv(1) cl, of st']
    have "batch_inv P ctx C db0 (db', st')" using b(1) cs r by simp
    moreover have "is_closed (ctx_now ctx) (f_id c) db'" if "c \<in> set ?cs" for c using b(2)[OF _ _ _ _ that] cs r by simp
    moreover have "is_closed (ctx_now ctx) i db \<Longrightarrow> is_closed (ctx_now ctx) i db'" for i using b(3) cs r by simp
    ultimately show ?thesis using inv(2,3) r cs by (auto simp: kept_ok_def)
  qed
qed

lemma bucket_hd: "bucket rows n = new # rest \<Longrightarrow> new \<in> set rows \<and> name_identity_of_fact new = n"
  unfolding bucket_def by (metis (mono_tags, lifting) list.set_intros(1) mem_Collect_eq set_filter)

lemma kept_events_ok:
  assumes "kept_ok ctx C db kept" and "e \<in> set (concat (map (kept_events rows) kept))"
  shows "event_ok ctx C db0 db rows e"
proof -
  obtain en olds where k: "(en, olds) \<in> set kept" "e \<in> set (kept_events rows (en, olds))" using assms(2) by auto
  then obtain new rest where b: "bucket rows (e_name_identity en) = new # rest"
    by (cases "bucket rows (e_name_identity en)") (auto simp: kept_events_def)
  then obtain old where "old \<in> set olds" "e = make_supersession_event old (Some new) (e_triple en)"
    using k(2) by (auto simp: kept_events_def)
  then show ?thesis using assms(1) k(1) bucket_hd[OF b] by (auto simp: kept_ok_def event_ok_def closable_def)
qed

lemma kept_ok_insert:
  "kept_ok ctx C db kept \<Longrightarrow> insert_rows P ctx rows db = Inr (fs, db') \<Longrightarrow> rows \<noteq> [] \<Longrightarrow> kept_ok ctx C db' kept"
  using is_closed_insert by (fastforce simp: kept_ok_def)

lemma supersede_batch_safe_inv:
  assumes run: "supersede_batch_safe P ctx es candidates tombstones (db, new_batch_state) = Inr (db', st')"
    and ok: "db_ok P db0" and inv: "batch_inv P ctx C db0 (db, new_batch_state)"
    and cand: "C = f_id ` set candidates" "C \<subseteq> f_id ` set (facts db0)"
  shows "batch_inv P ctx C db0 (db', st')"
proof -
  let ?I = "\<lambda>(db, st, kept). batch_inv P ctx C db0 (db, st) \<and> kept_ok ctx C db kept \<and> created st = []"
  from run obtain db1 st1 kept new db2 where
      loop: "exc_fold (batch_safe_step ctx candidates tombstones) es (db, new_batch_state, []) = Inr (db1, st1, kept)"
      and ins: "(if kept = [] then Inr ([], db1) else insert_rows P ctx (map (e_row \<circ> fst) kept) db1) = Inr (new, db2)"
      and r: "db' = db2" "st' = fold (pair_kept (created st1 @ new)) kept (st1\<lparr>created := created st1 @ new\<rparr>)"
    by (auto simp: supersede_batch_safe_def exc_bind_Inr_iff Let_def)
  have "?I (db1, st1, kept)"
  proof (rule exc_fold_invariant[OF loop, where I = ?I])
    show "?I (db, new_batch_state, [])" using inv by (simp add: kept_ok_def new_batch_state_def)
    show "?I v" if "?I u" "batch_safe_step ctx candidates tombstones x u = Inr v" for x u v
    proof -
      obtain d t k d' t' k' where uv: "u = (d, t, k)" "v = (d', t', k')" by (metis prod_cases3)
      show ?thesis using that unfolding uv prod.case using batch_safe_step_inv[OF _ _ _ _ cand] by blast
    qed
  qed
  then have I: "batch_inv P ctx C db0 (db1, st1)" "kept_ok ctx C db1 kept" "created st1 = []" by auto
  show ?thesis
  proof (cases "kept = []")
    case True
    then show ?thesis using I ins r by (cases st1) simp
  next
    case False
    then have ins': "insert_rows P ctx (map (e_row \<circ> fst) kept) db1 = Inr (new, db2)" using ins by simp
    have "kept_ok ctx C db2 kept" by (rule kept_ok_insert[OF I(2) ins']) (use False in simp)
    then have "event_ok ctx C db0 db2 (created st1 @ new) e" if "e \<in> set (concat (map (kept_events (created st1 @ new)) kept))" for e
      using that by (rule kept_events_ok)
    then show ?thesis unfolding r
      by (intro batch_inv_insert[OF I(1) ok ins']) (use False in \<open>auto simp del: set_concat\<close>)
  qed
qed

lemma sequential_step_inv:
  assumes inv: "batch_inv P ctx C db0 (db, st)" and ok: "db_ok P db0"
    and step: "sequential_step P ctx candidates tombstones e (db, st) = Inr (db', st')"
    and cand: "C = f_id ` set candidates" "C \<subseteq> f_id ` set (facts db0)"
  shows "batch_inv P ctx C db0 (db', st')"
proof -
  let ?n = "e_name_identity e"
  let ?cs = "matching_conflicts e (bucket candidates ?n @ in_batch st ?n) (closed_ids st)"
  let ?st1 = "fold (drop_closed ?n) ?cs st"
  from step show ?thesis
  proof (cases rule: sequential_step_cases)
    case skip
    then show ?thesis using inv batch_inv_skip by simp
  next
    case (insert db1 fs)
    have cs: "closable C db0 (f_id c) \<and> f_id c \<in> f_id ` set (facts db)" if "c \<in> set ?cs" for c
    proof -
      have "c \<in> set candidates \<or> c \<in> set (in_batch st ?n)"
        using that by (auto simp: matching_conflicts_def bucket_def)
      then have "c \<in> set candidates \<or> c \<in> set (created st)" using batch_invD(5)[OF inv, of ?n] by blast
      then show ?thesis using cand batch_invD(3,4)[OF inv] unfolding closable_def by blast
    qed
    note b = batch_inv_close[OF inv insert(1), of ?st1]
    have I: "batch_inv P ctx C db0 (db1, ?st1)" using b(1) cs drop_closed_fold_in_batch by simp
    have closed: "is_closed (ctx_now ctx) (f_id c) db1" if "c \<in> set ?cs" for c
      using b(2)[OF _ _ _ _ that] cs drop_closed_fold_in_batch by simp
    have ev: "event_ok ctx C db0 db' (created ?st1 @ fs) (make_supersession_event c (Some new) tr)"
      if "c \<in> set ?cs" "new \<in> set fs" for c new tr
      using cs[OF that(1)] is_closed_insert[OF closed[OF that(1)] insert(2)] that(2) by (simp add: event_ok_def)
    show ?thesis unfolding insert(3)
    proof (rule batch_inv_insert[OF I ok insert(2)])
      show "set (in_batch (note_inserted e ?cs fs ?st1) m) \<subseteq> set (in_batch ?st1 m) \<union> set fs" for m
        by (cases fs) (auto simp: note_inserted_def)
      show "x \<in> set (events ?st1) \<or> event_ok ctx C db0 db' (created (note_inserted e ?cs fs ?st1)) x"
        if "x \<in> set (events (note_inserted e ?cs fs ?st1))" for x
        using that ev[of _ "hd fs" "e_triple e"] by (cases fs) (auto simp: note_inserted_def simp del: drop_closed_fold)
    qed (simp_all add: note_inserted_def split: list.split)
  qed
qed

lemma supersede_sequential_inv:
  assumes "supersede_sequential P ctx es candidates tombstones s = Inr s'"
    and "db_ok P db0" and "batch_inv P ctx C db0 s"
    and "C = f_id ` set candidates" "C \<subseteq> f_id ` set (facts db0)"
  shows "batch_inv P ctx C db0 s'"
  using assms(1) unfolding supersede_sequential_def
proof (rule exc_fold_invariant[where I = "batch_inv P ctx C db0"])
  show "batch_inv P ctx C db0 v"
    if "batch_inv P ctx C db0 u" "sequential_step P ctx candidates tombstones x u = Inr v" for x u v
  proof -
    obtain d t d' t' where uv: "u = (d, t)" "v = (d', t')" by (metis surj_pair)
    show ?thesis using that unfolding uv using sequential_step_inv[OF _ assms(2) _ assms(4,5)] by blast
  qed
qed (rule assms(3))

end

end
