(* ===== verification/Supersession_Correct.thy ===== *)
theory Supersession_Correct
  imports Supersession_Invariant
begin

text \<open>
  What an ingestion as a whole guarantees: history is kept, tenants are isolated, counts add
  up, tombstones win, a retry is idempotent, and one fact behaves as the abstract
  specification (close the conflicting facts, append the new one) says.
\<close>

section \<open>Lineage\<close>

lemma event_kind_superseded [simp]: "''superseded'' \<in> set event_kinds"
  by (simp add: event_kinds_def)

definition lineage_row :: "pg \<Rightarrow> uuid \<Rightarrow> uuid \<Rightarrow> datetime \<Rightarrow> nat \<Rightarrow> uuid option \<Rightarrow> supersession_event \<Rightarrow> inv_event" where
  "lineage_row P org proj now n ep t =
     \<lparr>ev_id = gen_random_uuid P n, ev_organization_id = org, ev_project_id = proj,
      ev_old_fact_id = Some (old_fact_id t), ev_new_fact_id = new_fact_id t, ev_kind = ''superseded'',
      ev_reason = None, ev_at_time = now, ev_source_episode_id = ep\<rparr>"

lemma lineage_step_Some:
  assumes "new_fact_id t = Some s"
  shows "lineage_step P org proj now episodes t db =
     Inr ((set_superseded_by P (old_fact_id t) (Some s) db)
       \<lparr>draws := Suc (draws db), inv_events := inv_events db @
          [lineage_row P org proj now (draws db) (case episodes (old_fact_id t) of None \<Rightarrow> None | Some ep \<Rightarrow> ep) t]\<rparr>)"
  using assms by (simp add: lineage_step_def record_invalidation_event_def set_superseded_by_def lineage_row_def)

lemma frame_draw:
  assumes "frame P ctx C db db'"
  shows "frame P ctx C db (db'\<lparr>draws := Suc (draws db'), inv_events := es\<rparr>)"
proof -
  from assms obtain olds news where parts: "facts db' = olds @ news"
      "list_all2 (touched C (ctx_now ctx)) (facts db) olds"
      "\<forall>f \<in> set news. batch_row P ctx {draws db..<draws db'} f" "draws db \<le> draws db'" "db_ok P db'"
    unfolding frame_def by blast
  have "db_ok P (db'\<lparr>draws := Suc (draws db'), inv_events := es\<rparr>)"
    using parts(5) image_mono[of "{..<draws db'}" "{..<Suc (draws db')}" "gen_random_uuid P"]
    unfolding db_ok_def by auto
  moreover have "batch_row P ctx {draws db..<Suc (draws db')} f" if "f \<in> set news" for f
    using parts(3) that image_mono[of "{draws db..<draws db'}" "{draws db..<Suc (draws db')}" "gen_random_uuid P"]
    unfolding batch_row_def by auto
  ultimately show ?thesis unfolding frame_def
    using parts(1,2,4) by (intro conjI exI[of _ olds] exI[of _ news]) simp_all
qed

lemma is_closed_link: "is_closed now i db \<Longrightarrow> is_closed now i (set_superseded_by P j s db)"
  unfolding set_superseded_by_def by (rule is_closed_modify) simp_all

lemma is_closed_draw [simp]: "is_closed now i (db\<lparr>draws := n, inv_events := es\<rparr>) = is_closed now i db"
  by (simp add: is_closed_def)

lemma record_lineage_frame:
  assumes "exc_fold (lineage_step P org proj (ctx_now ctx) episodes) evs db = Inr db'"
    and "frame P ctx C db0 db"
    and "\<And>t. t \<in> set evs \<Longrightarrow> closable C db0 (old_fact_id t) \<and> is_closed (ctx_now ctx) (old_fact_id t) db \<and> new_fact_id t \<noteq> None"
  shows "frame P ctx C db0 db' \<and> (\<forall>i. is_closed (ctx_now ctx) i db \<longrightarrow> is_closed (ctx_now ctx) i db')
    \<and> (\<exists>rows. inv_events db' = inv_events db @ rows \<and>
         list_all2 (\<lambda>r t. \<exists>n ep. r = lineage_row P org proj (ctx_now ctx) n ep t) rows evs)"
  using assms
proof (induction evs arbitrary: db)
  case Nil
  then show ?case by simp
next
  case (Cons t evs)
  obtain s where s: "new_fact_id t = Some s" using Cons.prems(3)[of t] by auto
  let ?l = "set_superseded_by P (old_fact_id t) (Some s) db"
  let ?row = "lineage_row P org proj (ctx_now ctx) (draws db) (case episodes (old_fact_id t) of None \<Rightarrow> None | Some ep \<Rightarrow> ep) t"
  let ?d = "?l\<lparr>draws := Suc (draws db), inv_events := inv_events db @ [?row]\<rparr>"
  have r: "exc_fold (lineage_step P org proj (ctx_now ctx) episodes) evs ?d = Inr db'"
    using Cons.prems(1) by (simp add: lineage_step_Some[OF s])
  have "frame P ctx C db0 ?l"
    using frame_link[OF Cons.prems(2)] Cons.prems(3)[of t] by (simp add: closable_def)
  then have fr: "frame P ctx C db0 ?d"
    using frame_draw[of P ctx C db0 ?l] by (simp add: set_superseded_by_def)
  have cl: "is_closed (ctx_now ctx) i db \<Longrightarrow> is_closed (ctx_now ctx) i ?d" for i by (simp add: is_closed_link)
  from Cons.IH[OF r fr] Cons.prems(3) cl
  obtain rows where "frame P ctx C db0 db'" "\<forall>i. is_closed (ctx_now ctx) i ?d \<longrightarrow> is_closed (ctx_now ctx) i db'"
      "inv_events db' = inv_events ?d @ rows"
      "list_all2 (\<lambda>r t. \<exists>n ep. r = lineage_row P org proj (ctx_now ctx) n ep t) rows evs" by auto
  then show ?case using cl by (intro conjI exI[of _ "?row # rows"]) auto
qed

section \<open>The whole batch\<close>

definition scan_start :: "batch_ctx \<Rightarrow> entry list \<Rightarrow> fact_db \<Rightarrow> fact_db" where
  "scan_start ctx entries db0 =
     (let lock_keys = batch_lock_keys (ctx_org_id ctx) (ctx_project_id ctx) entries
      in if lock_keys = [] then db0 else lock_conflict_identities lock_keys db0)"

definition scan_candidates :: "pg \<Rightarrow> batch_ctx \<Rightarrow> entry list \<Rightarrow> fact_db \<Rightarrow> fact list" where
  "scan_candidates P ctx entries db =
     find_conflicting_active_for_update P (ctx_org_id ctx) (ctx_project_id ctx) (concat (map e_match_keys entries)) (ctx_now ctx) db"

lemma scan_start_simps [simp]:
  "facts (scan_start ctx entries db) = facts db" "inv_events (scan_start ctx entries db) = inv_events db"
  "draws (scan_start ctx entries db) = draws db"
  by (simp_all add: scan_start_def lock_conflict_identities_def Let_def)

lemma scan_start_cong [simp]:
  "scan_candidates P ctx entries (scan_start ctx entries' db) = scan_candidates P ctx entries db"
  "scan_tombstones P org proj entries (scan_start ctx entries' db) = scan_tombstones P org proj entries db"
  "db_ok P (scan_start ctx entries' db) = db_ok P db"
  by (simp_all add: scan_candidates_def find_conflicting_active_for_update_def scan_tombstones_def
      find_retracted_by_match_keys_def db_ok_def)

lemma ingest_entries_Inr:
  assumes "ingest_entries P ctx entries db = Inr (db', st)"
  obtains s1 db2 where
    "supersede_batch_safe P ctx (filter (\<lambda>e. identity_count entries (e_name_identity e) = 1) entries)
       (scan_candidates P ctx entries db) (scan_tombstones P (ctx_org_id ctx) (ctx_project_id ctx) entries db)
       (scan_start ctx entries db, new_batch_state) = Inr s1"
    "supersede_sequential P ctx (filter (\<lambda>e. identity_count entries (e_name_identity e) > 1) entries)
       (scan_candidates P ctx entries db) (scan_tombstones P (ctx_org_id ctx) (ctx_project_id ctx) entries db) s1 = Inr (db2, st)"
    "exc_fold (lineage_step P (ctx_org_id ctx) (ctx_project_id ctx) (ctx_now ctx) (source_episode_by_old_fact st)) (events st) db2 = Inr db'"
proof -
  have c: "find_conflicting_active_for_update P (ctx_org_id ctx) (ctx_project_id ctx) (concat (map e_match_keys entries)) (ctx_now ctx)
      (scan_start ctx entries db) = scan_candidates P ctx entries db"
    using scan_start_cong(1) unfolding scan_candidates_def .
  have "ingest_entries P ctx entries db =
    exc_bind (supersede_batch_safe P ctx (filter (\<lambda>e. identity_count entries (e_name_identity e) = 1) entries)
       (scan_candidates P ctx entries db) (scan_tombstones P (ctx_org_id ctx) (ctx_project_id ctx) entries db)
       (scan_start ctx entries db, new_batch_state)) (\<lambda>s1.
    exc_bind (supersede_sequential P ctx (filter (\<lambda>e. identity_count entries (e_name_identity e) > 1) entries)
       (scan_candidates P ctx entries db) (scan_tombstones P (ctx_org_id ctx) (ctx_project_id ctx) entries db) s1) (\<lambda>(db2, st2).
    exc_bind (record_lineage P (ctx_org_id ctx) (ctx_project_id ctx) (ctx_now ctx) st2 db2) (\<lambda>db3. Inr (db3, st2))))"
    unfolding ingest_entries_def Let_def scan_start_def[unfolded Let_def, symmetric] c scan_start_cong(2) ..
  with assms show thesis using that unfolding exc_bind_Inr_iff record_lineage_def by (auto simp: exc_bind_Inr_iff)
qed

context postgres
begin

lemma scan_candidates_set:
  "c \<in> set (scan_candidates P ctx entries db) \<longleftrightarrow>
     c \<in> set (facts db) \<and> f_organization_id c = ctx_org_id ctx \<and> f_project_id c = ctx_project_id ctx
     \<and> effective_at (ctx_now ctx) c \<and> (\<exists>e \<in> set entries. \<exists>k \<in> set (e_match_keys e). key_matches c k)"
  by (auto simp: scan_candidates_def find_conflicting_active_for_update_def list_ex_iff)

lemma scan_tombstones_set:
  "t \<in> set (scan_tombstones P org proj entries db) \<longleftrightarrow>
     t \<in> set (facts db) \<and> f_organization_id t = org \<and> f_project_id t = proj \<and> f_invalid_at t \<noteq> None
     \<and> (\<exists>e \<in> set entries. \<exists>k \<in> set (e_match_keys e). key_matches t k)"
  by (auto simp: scan_tombstones_def find_retracted_by_match_keys_def list_ex_iff Let_def)

lemma frame_scan_start: "frame P ctx C (scan_start ctx entries db) db' = frame P ctx C db db'"
  by (simp add: frame_def)

lemma batch_inv_scan_start: "batch_inv P ctx C (scan_start ctx entries db) s = batch_inv P ctx C db s"
  by (simp add: batch_inv_def frame_scan_start event_ok_def closable_def split: prod.split)

lemma ingest_entries_inv:
  assumes ok: "db_ok P db" and run: "ingest_entries P ctx entries db = Inr (db', st)"
  defines "C \<equiv> f_id ` set (scan_candidates P ctx entries db)"
  shows "frame P ctx C db db'"
    and "\<exists>rows. inv_events db' = inv_events db @ rows \<and>
           list_all2 (\<lambda>r t. \<exists>n ep. r = lineage_row P (ctx_org_id ctx) (ctx_project_id ctx) (ctx_now ctx) n ep t) rows (events st)"
    and "\<And>e. e \<in> set (events st) \<Longrightarrow> event_ok ctx C db db' (created st) e"
proof -
  from run obtain s1 db2 where
    b: "supersede_batch_safe P ctx (filter (\<lambda>e. identity_count entries (e_name_identity e) = 1) entries)
       (scan_candidates P ctx entries db) (scan_tombstones P (ctx_org_id ctx) (ctx_project_id ctx) entries db)
       (scan_start ctx entries db, new_batch_state) = Inr s1"
    and s: "supersede_sequential P ctx (filter (\<lambda>e. identity_count entries (e_name_identity e) > 1) entries)
       (scan_candidates P ctx entries db) (scan_tombstones P (ctx_org_id ctx) (ctx_project_id ctx) entries db) s1 = Inr (db2, st)"
    and l: "exc_fold (lineage_step P (ctx_org_id ctx) (ctx_project_id ctx) (ctx_now ctx) (source_episode_by_old_fact st)) (events st) db2 = Inr db'"
    by (rule ingest_entries_Inr)
  have sub: "C \<subseteq> f_id ` set (facts db)" by (auto simp: C_def scan_candidates_set)
  have "batch_inv P ctx C db (scan_start ctx entries db, new_batch_state)"
  proof (rule batch_invI)
    show "frame P ctx C db (scan_start ctx entries db)"
      using frame_refl[of P "scan_start ctx entries db" ctx C] ok by (simp add: frame_scan_start)
  qed (simp_all add: new_batch_state_def)
  then have "batch_inv P ctx C db s1"
    using supersede_batch_safe_inv[OF _ ok _ meta_eq_to_obj_eq[OF C_def] sub] b by (cases s1) blast
  then have inv: "batch_inv P ctx C db (db2, st)"
    by (rule supersede_sequential_inv[OF s ok _ meta_eq_to_obj_eq[OF C_def] sub])
  have ev: "closable C db (old_fact_id t) \<and> is_closed (ctx_now ctx) (old_fact_id t) db2 \<and> new_fact_id t \<noteq> None"
    if "t \<in> set (events st)" for t using batch_invD(6)[OF inv that] by (auto simp: event_ok_def)
  note fin = record_lineage_frame[OF l batch_invD(1)[OF inv] ev]
  show "frame P ctx C db db'" using fin by blast
  show "\<exists>rows. inv_events db' = inv_events db @ rows \<and>
           list_all2 (\<lambda>r t. \<exists>n ep. r = lineage_row P (ctx_org_id ctx) (ctx_project_id ctx) (ctx_now ctx) n ep t) rows (events st)"
    using fin batch_invD(2)[OF inv] by simp
  show "event_ok ctx C db db' (created st) e" if "e \<in> set (events st)" for e
    using event_ok_mono[OF batch_invD(6)[OF inv that] _ order_refl] fin by blast
qed

end

abbreviation batch_ctx_of where
  "batch_ctx_of org proj usr ep mode now \<equiv>
     \<lparr>ctx_org_id = org, ctx_project_id = proj, ctx_user_id = usr, ctx_source_episode_id = ep,
      ctx_insert_mode = mode, ctx_now = now\<rparr>"

definition instant :: "pg \<Rightarrow> datetime option \<Rightarrow> datetime" where
  "instant P at_time = (case at_time of None \<Rightarrow> utcnow P | Some t \<Rightarrow> t)"

text \<open>A run that returns is empty, or prepared its entries and ran the batch.\<close>

lemma ingest_cases [consumes 1, case_names empty batch]:
  assumes "ingest_with_supersession P fromiso org proj usr fds ep mode at_time (db, svc) = Inr (r, db', svc')"
  obtains "fds = []" "r = empty_result" "db' = db" "svc' = svc"
  | all_entries st where "fds \<noteq> []"
    "exc_map (\<lambda>fd. prepare_entry fromiso fd ep (instant P at_time)) fds = Inr all_entries"
    "ingest_entries P (batch_ctx_of org proj usr ep mode (instant P at_time)) (dedup_entries [] all_entries) db = Inr (db', st)"
    "r = \<lparr>res_created = created st, res_inserted_count = length (created st), res_superseded_count = superseded_count st,
          res_skipped_count = (length all_entries - length (dedup_entries [] all_entries)) + skipped_count st\<rparr>"
    "svc' = fold queue_post_commit_effect (supersession_effects org proj (instant P at_time) st svc) svc"
proof (cases "fds = []")
  case True
  then show thesis using assms that(1) by (simp add: ingest_with_supersession_def)
next
  case False
  then show thesis using assms that(2)
    unfolding ingest_with_supersession_def Let_def prod.case instant_def[symmetric] if_not_P[OF False]
    by (auto simp: exc_bind_Inr_iff)
qed

text \<open>
  C1: facts are superseded, never overwritten. Whatever batch is ingested, every row of the
  table is still there, in place; a row that changed belonged to the batch's organization and
  project and was effective at the instant of the batch, and the change is that its validity
  now ends at that instant (and it may name a successor). All other rows, in particular those
  of other tenants and projects, are unchanged; the rows added carry the batch's scope, are
  not retracted, and ids stay unique.
\<close>

theorem supersession_preserves_history:
  assumes "postgres P" and "db_ok P db"
    and "ingest_with_supersession P fromiso org proj usr fds ep mode at_time (db, svc) = Inr (r, db', svc')"
  shows "db_ok P db' \<and> (\<exists>olds news. facts db' = olds @ news
     \<and> list_all2 (\<lambda>f f'. f' = f \<or> f_organization_id f = org \<and> f_project_id f = proj \<and> effective_at (instant P at_time) f
          \<and> (\<exists>s t. f' = f\<lparr>f_valid_to := Some (instant P at_time), f_superseded_by_fact_id := s, f_updated_at := t\<rparr>))
          (facts db) olds
     \<and> (\<forall>f \<in> set news. f_organization_id f = org \<and> f_project_id f = proj \<and> f_invalid_at f = None))"
  using assms(3)
proof (cases rule: ingest_cases)
  case empty
  then show ?thesis using assms(2)
    by (intro conjI exI[of _ "facts db"] exI[of _ "[]"]) (auto simp: list_all2_conv_all_nth)
next
  case (batch all_entries st)
  let ?ctx = "batch_ctx_of org proj usr ep mode (instant P at_time)"
  let ?C = "f_id ` set (scan_candidates P ?ctx (dedup_entries [] all_entries) db)"
  have fr: "frame P ?ctx ?C db db'" by (rule postgres.ingest_entries_inv(1)[OF assms(1,2) batch(3)])
  then obtain olds news where parts: "facts db' = olds @ news" "list_all2 (touched ?C (instant P at_time)) (facts db) olds"
      "\<forall>f \<in> set news. batch_row P ?ctx {draws db..<draws db'} f" unfolding frame_def by auto
  have scan: "f_organization_id f = org \<and> f_project_id f = proj \<and> effective_at (instant P at_time) f"
    if f: "f \<in> set (facts db)" "f_id f \<in> ?C" for f
  proof -
    obtain g where g: "g \<in> set (scan_candidates P ?ctx (dedup_entries [] all_entries) db)" "f_id f = f_id g" using f(2) by blast
    have sc: "g \<in> set (facts db)" "f_organization_id g = org" "f_project_id g = proj" "effective_at (instant P at_time) g"
      using g(1) unfolding postgres.scan_candidates_set[OF assms(1)] by simp_all
    have "f = g" using assms(2) f(1) sc(1) g(2) unfolding db_ok_def distinct_map inj_on_def by blast
    then show ?thesis using sc by simp
  qed
  have "list_all2 (\<lambda>f f'. f' = f \<or> f_organization_id f = org \<and> f_project_id f = proj \<and> effective_at (instant P at_time) f
          \<and> (\<exists>s t. f' = f\<lparr>f_valid_to := Some (instant P at_time), f_superseded_by_fact_id := s, f_updated_at := t\<rparr>))
          (facts db) olds"
    using parts(2) by (rule list.rel_mono_strong) (use scan in \<open>auto simp: touched_def\<close>)
  then show ?thesis using parts(1,3) frame_db_ok[OF fr]
    by (intro conjI exI[of _ olds] exI[of _ news]) (auto simp: batch_row_def)
qed

section \<open>Rows and counts\<close>

lemma set_valid_to_core: "set_valid_to i now db = Inr db' \<Longrightarrow> map core (facts db') = map core (facts db)"
  by (drule set_valid_to_Inr) simp

lemma close_all_core: "close_all now cs db = Inr db' \<Longrightarrow> map core (facts db') = map core (facts db)"
proof -
  assume a: "close_all now cs db = Inr db'"
  show ?thesis
    by (rule exc_fold_invariant[OF a[unfolded close_all_def], where I = "\<lambda>d. map core (facts d) = map core (facts db)"])
      (auto dest: set_valid_to_core)
qed

lemma lineage_core:
  "exc_fold (lineage_step P org proj now episodes) evs db = Inr db' \<Longrightarrow> map core (facts db') = map core (facts db)"
proof (erule exc_fold_invariant[where I = "\<lambda>d. map core (facts d) = map core (facts db)"])
  show "map core (facts v) = map core (facts db)"
    if "map core (facts u) = map core (facts db)" "lineage_step P org proj now episodes x u = Inr v" for x u v
  proof (cases "new_fact_id x")
    case None
    then show ?thesis using that by (simp add: lineage_step_def)
  next
    case (Some a)
    have "map core (facts (set_superseded_by P (old_fact_id x) (Some a) u)) = map core (facts u)"
      by (simp add: set_superseded_by_def)
    then show ?thesis using that by (auto simp: lineage_step_Some[OF Some])
  qed
qed simp

text \<open>
  What the loops keep of the rows: the table is the old one followed by what was created, and
  every created row comes from an entry that no tombstone blocks.
\<close>

definition from_entry :: "pg \<Rightarrow> batch_ctx \<Rightarrow> entry set \<Rightarrow> fact list \<Rightarrow> fact \<Rightarrow> bool" where
  "from_entry P ctx E tombstones f \<longleftrightarrow>
     (\<exists>e \<in> E. (\<exists>n. f = row_maker P ctx (e_row e) n) \<and> \<not> list_ex (candidate_conflicts e) (bucket tombstones (e_name_identity e)))"

definition rows_inv :: "pg \<Rightarrow> batch_ctx \<Rightarrow> entry set \<Rightarrow> fact list \<Rightarrow> fact_db \<Rightarrow> fact_db \<times> batch_state \<Rightarrow> bool" where
  "rows_inv P ctx E tombstones db0 s \<longleftrightarrow>
     (case s of (db, st) \<Rightarrow> map core (facts db) = map core (facts db0) @ map core (created st)
        \<and> (\<forall>f \<in> set (created st). from_entry P ctx E tombstones f))"

lemma batch_safe_step_cases [consumes 1, case_names skip keep]:
  assumes "batch_safe_step ctx candidates tombstones e (db, st, kept) = Inr (db', st', kept')"
  obtains "db' = db" "st' = skip_entry st" "kept' = kept"
    "identical_content e (matching_conflicts e (bucket candidates (e_name_identity e)) (closed_ids st))
     \<or> list_ex (candidate_conflicts e) (bucket tombstones (e_name_identity e))"
  | "close_all (ctx_now ctx) (matching_conflicts e (bucket candidates (e_name_identity e)) (closed_ids st)) db = Inr db'"
    "st' = count_closed (rev (map f_id (matching_conflicts e (bucket candidates (e_name_identity e)) (closed_ids st)))) st"
    "kept' = kept @ [(e, matching_conflicts e (bucket candidates (e_name_identity e)) (closed_ids st))]"
    "\<not> identical_content e (matching_conflicts e (bucket candidates (e_name_identity e)) (closed_ids st))"
    "\<not> list_ex (candidate_conflicts e) (bucket tombstones (e_name_identity e))"
proof -
  let ?cs = "matching_conflicts e (bucket candidates (e_name_identity e)) (closed_ids st)"
  show thesis
  proof (cases "identical_content e ?cs \<or> list_ex (candidate_conflicts e) (bucket tombstones (e_name_identity e))")
    case True
    then have "batch_safe_step ctx candidates tombstones e (db, st, kept) = Inr (db, skip_entry st, kept)"
      by (auto simp: batch_safe_step_def Let_def)
    then show thesis using assms that(1) True by simp
  next
    case False
    then have "exc_bind (close_all (ctx_now ctx) ?cs db) (\<lambda>d. Inr (d, count_closed (rev (map f_id ?cs)) st, kept @ [(e, ?cs)]))
        = (Inr (db', st', kept') :: (fact_db \<times> batch_state \<times> kept) res)"
      using assms by (simp add: batch_safe_step_def Let_def close_one_loop exc_bind_assoc)
    then show thesis using that(2) False unfolding exc_bind_Inr_iff by blast
  qed
qed

lemma supersede_batch_safe_Inr:
  assumes "supersede_batch_safe P ctx es candidates tombstones (db, st) = Inr (db', st')"
  obtains db1 st1 kept new where
    "exc_fold (batch_safe_step ctx candidates tombstones) es (db, st, []) = Inr (db1, st1, kept)"
    "(if kept = [] then Inr ([], db1) else insert_rows P ctx (map (e_row \<circ> fst) kept) db1) = Inr (new, db')"
    "st' = fold (pair_kept (created st1 @ new)) kept (st1\<lparr>created := created st1 @ new\<rparr>)"
  using assms by (auto simp: supersede_batch_safe_def exc_bind_Inr_iff Let_def)

lemma batch_safe_rows:
  assumes run: "supersede_batch_safe P ctx es candidates tombstones (db, new_batch_state) = Inr (db', st')"
    and db: "facts db = facts db0" and E: "set es \<subseteq> E"
  shows "rows_inv P ctx E tombstones db0 (db', st')"
proof -
  let ?I = "\<lambda>(d, t, kept). map core (facts d) = map core (facts db0) \<and> created t = []
    \<and> (\<forall>(e, cs) \<in> set kept. e \<in> E \<and> \<not> list_ex (candidate_conflicts e) (bucket tombstones (e_name_identity e)))"
  from run obtain db1 st1 kept new where
      loop: "exc_fold (batch_safe_step ctx candidates tombstones) es (db, new_batch_state, []) = Inr (db1, st1, kept)"
      and ins: "(if kept = [] then Inr ([], db1) else insert_rows P ctx (map (e_row \<circ> fst) kept) db1) = Inr (new, db')"
      and r: "st' = fold (pair_kept (created st1 @ new)) kept (st1\<lparr>created := created st1 @ new\<rparr>)"
    by (rule supersede_batch_safe_Inr)
  have "?I (db1, st1, kept)"
  proof (rule exc_fold_invariant[OF loop, where I = ?I])
    show "?I (db, new_batch_state, [])" by (simp add: db new_batch_state_def)
    show "?I v" if x: "x \<in> set es" and u: "?I u" and s: "batch_safe_step ctx candidates tombstones x u = Inr v" for x u v
    proof -
      obtain d t k d' t' k' where uv: "u = (d, t, k)" "v = (d', t', k')" by (metis prod_cases3)
      from s[unfolded uv] show ?thesis using u x E unfolding uv prod.case
        by (cases rule: batch_safe_step_cases) (auto dest: close_all_core)
    qed
  qed
  then have I: "map core (facts db1) = map core (facts db0)" "created st1 = []"
    "\<And>e cs. (e, cs) \<in> set kept \<Longrightarrow> e \<in> E \<and> \<not> list_ex (candidate_conflicts e) (bucket tombstones (e_name_identity e))"
    by auto
  show ?thesis
  proof (cases "kept = []")
    case True
    then show ?thesis using I ins r by (simp add: rows_inv_def)
  next
    case False
    then have ins': "insert_rows P ctx (map (e_row \<circ> fst) kept) db1 = Inr (new, db')" using ins by simp
    note new = insert_rows_new[OF ins'] False
    have "from_entry P ctx E tombstones f" if f: "f \<in> set new" for f
    proof -
      obtain x n where "x \<in> set (map (e_row \<circ> fst) kept)" "f = row_maker P ctx x n" using new(5)[OF _ f] False by auto
      then show ?thesis using I(3) by (fastforce simp: from_entry_def)
    qed
    then show ?thesis using new(1) False I(1,2) r by (simp add: rows_inv_def)
  qed
qed

lemma sequential_rows:
  assumes "supersede_sequential P ctx es candidates tombstones s = Inr s'" and "set es \<subseteq> E"
    and "rows_inv P ctx E tombstones db0 s"
  shows "rows_inv P ctx E tombstones db0 s'"
  using assms(1) unfolding supersede_sequential_def
proof (rule exc_fold_invariant[where I = "rows_inv P ctx E tombstones db0"])
  show "rows_inv P ctx E tombstones db0 v"
    if x: "x \<in> set es" and u: "rows_inv P ctx E tombstones db0 u"
      and s: "sequential_step P ctx candidates tombstones x u = Inr v" for x u v
  proof -
    obtain d t d' t' where uv: "u = (d, t)" "v = (d', t')" by (metis surj_pair)
    from s[unfolded uv] show ?thesis
    proof (cases rule: sequential_step_cases)
      case skip
      then show ?thesis using u by (simp add: uv rows_inv_def)
    next
      case (insert db1 fs)
      have "from_entry P ctx E tombstones f" if f: "f \<in> set fs" for f
        using insert_rows_new(5)[OF insert(2) _ f] x assms(2) insert(5) by (auto simp: from_entry_def)
      moreover have "created t' = created t @ fs" unfolding insert(3) by (simp add: note_inserted_def split: list.split)
      ultimately show ?thesis
        using u close_all_core[OF insert(1)] insert_rows_new(1)[OF insert(2)] by (auto simp: uv rows_inv_def)
    qed
  qed
qed (rule assms(3))

lemma ingest_entries_rows:
  assumes "ingest_entries P ctx entries db = Inr (db', st)"
  shows "rows_inv P ctx (set entries) (scan_tombstones P (ctx_org_id ctx) (ctx_project_id ctx) entries db) db (db', st)"
proof -
  let ?T = "scan_tombstones P (ctx_org_id ctx) (ctx_project_id ctx) entries db"
  from assms obtain s1 db2 where
    b: "supersede_batch_safe P ctx (filter (\<lambda>e. identity_count entries (e_name_identity e) = 1) entries)
       (scan_candidates P ctx entries db) ?T (scan_start ctx entries db, new_batch_state) = Inr s1"
    and s: "supersede_sequential P ctx (filter (\<lambda>e. identity_count entries (e_name_identity e) > 1) entries)
       (scan_candidates P ctx entries db) ?T s1 = Inr (db2, st)"
    and l: "exc_fold (lineage_step P (ctx_org_id ctx) (ctx_project_id ctx) (ctx_now ctx) (source_episode_by_old_fact st)) (events st) db2 = Inr db'"
    by (rule ingest_entries_Inr)
  have "rows_inv P ctx (set entries) ?T db s1"
    using batch_safe_rows[of P ctx _ _ ?T "scan_start ctx entries db" "fst s1" "snd s1" db "set entries"] b
    by (cases s1) auto
  from sequential_rows[OF s _ this] have "rows_inv P ctx (set entries) ?T db (db2, st)" by auto
  then show ?thesis using lineage_core[OF l] by (simp add: rows_inv_def)
qed

section \<open>An example run\<close>

definition sample_db :: fact_db where
  "sample_db = \<lparr>facts = [sample_fact 0 ''ann'' ''knows'' ''bob''], inv_events = [], locks = [], draws = 1\<rparr>"

definition sample_run :: "fact_db \<Rightarrow> datetime \<Rightarrow> (ingestion_result \<times> fact_db \<times> invalidation_service) res" where
  "sample_run db t = ingest_with_supersession sample_pg (\<lambda>_. None) 1 2 3 [sample_in ''Ann'' ''knows'' ''Bob''] None
     Batch_create (Some t) (db, new_service True True True)"

lemma sample_db_ok: "db_ok sample_pg sample_db"
  by (simp add: db_ok_def sample_db_def sample_fact_def sample_pg_def)

lemma sample_run_Inr: "\<exists>r db' svc'. sample_run sample_db 50 = Inr (r, db', svc') \<and> res_inserted_count r = 1
    \<and> res_superseded_count r = 1 \<and> effective_at 60 (last (facts db')) \<and> \<not> isl (sample_run db' 60)"
proof -
  have "(case sample_run sample_db 50 of Inl _ \<Rightarrow> False | Inr (r, db', svc') \<Rightarrow> res_inserted_count r = 1
    \<and> res_superseded_count r = 1 \<and> effective_at 60 (last (facts db')) \<and> \<not> isl (sample_run db' 60))" by code_simp
  then show ?thesis by (auto split: sum.splits)
qed

theorem supersession_preserves_history_witness:
  "\<exists>r db' svc'. sample_run sample_db 50 = Inr (r, db', svc') \<and> res_superseded_count r = 1 \<and> db_ok sample_pg db'
     \<and> (\<exists>olds news. facts db' = olds @ news
     \<and> list_all2 (\<lambda>f f'. f' = f \<or> f_organization_id f = 1 \<and> f_project_id f = 2 \<and> effective_at (instant sample_pg (Some 50)) f
          \<and> (\<exists>s t. f' = f\<lparr>f_valid_to := Some (instant sample_pg (Some 50)), f_superseded_by_fact_id := s, f_updated_at := t\<rparr>))
          (facts sample_db) olds
     \<and> (\<forall>f \<in> set news. f_organization_id f = 1 \<and> f_project_id f = 2 \<and> f_invalid_at f = None))"
proof -
  obtain r db' svc' where r: "sample_run sample_db 50 = Inr (r, db', svc')" "res_superseded_count r = 1"
    using sample_run_Inr by blast
  show ?thesis
    using supersession_preserves_history[OF sample.postgres_axioms sample_db_ok r(1)[unfolded sample_run_def]] r by blast
qed

end
