(* ===== verification/Supersession_Spec.thy ===== *)
theory Supersession_Spec
  imports Supersession_Correct
begin

text \<open>
  The contract of an ingestion, seen from outside: counts and lineage, tombstones, and the
  abstract specification of the ingestion of one fact with its idempotence.
\<close>

section \<open>Counts\<close>

lemma insert_rows_each:
  assumes "insert_rows P ctx rows db = Inr (fs, db')" and "ctx_insert_mode ctx = Batch_create" and "r \<in> set rows"
  shows "\<exists>n. row_maker P ctx r n \<in> set fs"
proof -
  have *: "insert_facts False mks db = Inr (fs, db') \<Longrightarrow> mk \<in> set mks \<Longrightarrow> \<exists>n. mk n \<in> set fs" for mks mk db fs
    by (induction mks arbitrary: db fs) (fastforce simp: Let_def exc_bind_Inr_iff split: option.splits)+
  have "rows \<noteq> []" using assms(3) by auto
  from insert_rows_Inr[OF assms(1) this] assms(2)
  have "insert_facts False (map (row_maker P ctx) rows) db = Inr (fs, db')" by simp
  from *[OF this, of "row_maker P ctx r"] show ?thesis using assms(3) by simp
qed

lemma name_identity_row_maker: "entry_ok e \<Longrightarrow> name_identity_of_fact (row_maker P ctx (e_row e) n) = e_name_identity e"
  by (simp add: name_identity_of_fact_def entry_ok_def)

lemma kept_events_length:
  assumes "\<And>e cs. (e, cs) \<in> set kept \<Longrightarrow> bucket rows (e_name_identity e) \<noteq> []"
  shows "length (concat (map (kept_events rows) kept)) = sum_list (map (length \<circ> snd) kept)"
  using assms
proof (induction kept)
  case Nil
  then show ?case by simp
next
  case (Cons k kept)
  obtain e cs where k: "k = (e, cs)" by fastforce
  have "bucket rows (e_name_identity e) \<noteq> []" using Cons.prems[of e cs] k by simp
  then have "length (kept_events rows k) = length cs" by (simp add: k kept_events_def split: list.split)
  moreover have "length (concat (map (kept_events rows) kept)) = sum_list (map (length \<circ> snd) kept)"
    by (rule Cons.IH) (meson Cons.prems list.set_intros(2))
  ultimately show ?case using k by (simp add: comp_def)
qed

lemma batch_safe_counts:
  assumes run: "supersede_batch_safe P ctx es candidates tombstones (db, new_batch_state) = Inr (db', st')"
    and mode: "ctx_insert_mode ctx = Batch_create" and ok: "\<And>e. e \<in> set es \<Longrightarrow> entry_ok e"
  shows "skipped_count st' + length (created st') = length es" and "superseded_count st' = length (events st')"
proof -
  from run obtain db1 st1 kept new where
      loop: "exc_fold (batch_safe_step ctx candidates tombstones) es (db, new_batch_state, []) = Inr (db1, st1, kept)"
      and ins: "(if kept = [] then Inr ([], db1) else insert_rows P ctx (map (e_row \<circ> fst) kept) db1) = Inr (new, db')"
      and r: "st' = fold (pair_kept (created st1 @ new)) kept (st1\<lparr>created := created st1 @ new\<rparr>)"
    by (rule supersede_batch_safe_Inr)
  let ?m = "\<lambda>(d :: fact_db, t, k :: kept). skipped_count t + length k"
  let ?I = "\<lambda>(d :: fact_db, t, k :: kept). created t = [] \<and> events t = [] \<and> superseded_count t = sum_list (map (length \<circ> snd) k)
      \<and> (\<forall>(e, cs) \<in> set k. entry_ok e)"
  have step: "?I v \<and> ?m v = Suc (?m u)"
    if x: "x \<in> set es" and u: "?I u" and s: "batch_safe_step ctx candidates tombstones x u = Inr v" for x u v
  proof -
    obtain d t k d' t' k' where uv: "u = (d, t, k)" "v = (d', t', k')" by (metis prod_cases3)
    from s[unfolded uv] show ?thesis using u ok[OF x] unfolding uv prod.case
      by (cases rule: batch_safe_step_cases) auto
  qed
  have I0: "?I (db, new_batch_state, [])" by (simp add: new_batch_state_def)
  have I: "created st1 = []" "events st1 = []" "superseded_count st1 = sum_list (map (length \<circ> snd) kept)"
    "\<And>e cs. (e, cs) \<in> set kept \<Longrightarrow> entry_ok e"
    using exc_fold_invariant[OF loop, where I = ?I, OF I0] step by auto
  have m: "skipped_count st1 + length kept = length es"
    using exc_fold_count[OF loop, where I = ?I and m = ?m, OF I0 step] by (simp add: new_batch_state_def)
  have len: "length new = length kept"
    using ins insert_rows_all[OF _ mode] by (cases "kept = []") fastforce+
  show "skipped_count st' + length (created st') = length es" using m len I(1) by (simp add: r)
  have "bucket new (e_name_identity e) \<noteq> []" if k: "(e, cs) \<in> set kept" for e cs
  proof -
    have "insert_rows P ctx (map (e_row \<circ> fst) kept) db1 = Inr (new, db')" using ins k by (auto split: if_splits)
    from insert_rows_each[OF this mode] obtain n where "row_maker P ctx (e_row e) n \<in> set new" using k by force
    then show ?thesis using name_identity_row_maker[OF I(4)[OF k], of P ctx n] unfolding bucket_def filter_empty_conv by blast
  qed
  from kept_events_length[OF this] show "superseded_count st' = length (events st')" using I by (simp add: r)
qed

lemma sequential_counts:
  assumes run: "supersede_sequential P ctx es candidates tombstones (db, st) = Inr (db', st')"
    and mode: "ctx_insert_mode ctx = Batch_create" and eq: "superseded_count st = length (events st)"
  shows "skipped_count st' + length (created st') = skipped_count st + length (created st) + length es"
    and "superseded_count st' = length (events st')"
proof -
  let ?m = "\<lambda>(d :: fact_db, t). skipped_count t + length (created t)"
  let ?I = "\<lambda>(d :: fact_db, t). superseded_count t = length (events t)"
  have step: "?I v \<and> ?m v = Suc (?m u)"
    if u: "?I u" and s: "sequential_step P ctx candidates tombstones x u = Inr v" for x u v
  proof -
    obtain d t d' t' where uv: "u = (d, t)" "v = (d', t')" by (metis surj_pair)
    from s[unfolded uv] show ?thesis
    proof (cases rule: sequential_step_cases)
      case skip
      then show ?thesis using u by (simp add: uv)
    next
      case (insert db1 fs)
      obtain new where "fs = [new]" using insert_rows_all[OF insert(2) mode] by (cases fs) auto
      then show ?thesis using u unfolding uv insert(3) prod.case by (simp add: note_inserted_def)
    qed
  qed
  note loop = run[unfolded supersede_sequential_def]
  show "skipped_count st' + length (created st') = skipped_count st + length (created st) + length es"
    using exc_fold_count[OF loop, where I = ?I and m = ?m] step eq by simp
  show "superseded_count st' = length (events st')"
    using exc_fold_invariant[OF loop, where I = ?I] step eq by simp
qed

lemma identity_count_pos: "e \<in> set entries \<Longrightarrow> 0 < identity_count entries (e_name_identity e)"
  unfolding identity_count_def length_greater_0_conv filter_empty_conv by blast

lemma split_by_count:
  "length (filter (\<lambda>e. identity_count entries (e_name_identity e) = 1) entries)
   + length (filter (\<lambda>e. identity_count entries (e_name_identity e) > 1) entries) = length entries"
proof -
  have "filter (\<lambda>e. identity_count entries (e_name_identity e) > 1) entries
      = filter (\<lambda>e. \<not> identity_count entries (e_name_identity e) = 1) entries"
    using identity_count_pos by (intro filter_cong) force+
  then show ?thesis by (simp add: sum_length_filter_compl)
qed

lemma dedup_subset: "set (dedup_entries seen es) \<subseteq> set es"
proof (induction es arbitrary: seen)
  case Nil
  then show ?case by simp
next
  case (Cons e es)
  show ?case using Cons[of seen] Cons[of "(e_name_identity e, r_content (e_row e)) # seen"]
    by (simp add: Let_def) blast
qed

lemma dedup_length: "length (dedup_entries seen es) \<le> length es"
  by (induction es arbitrary: seen) (auto simp: Let_def intro: le_SucI)

lemma prepared_ok:
  assumes "exc_map (\<lambda>fd. prepare_entry fromiso fd ep now) fds = Inr all_entries" and "e \<in> set (dedup_entries [] all_entries)"
  obtains fd where "fd \<in> set fds" "prepare_entry fromiso fd ep now = Inr e" "entry_ok e"
  using exc_map_set[OF assms(1)] dedup_subset[of "[]" all_entries] assms(2) prepare_entry_row(1) that by blast

lemma ingest_entries_counts:
  assumes run: "ingest_entries P ctx entries db = Inr (db', st)" and mode: "ctx_insert_mode ctx = Batch_create"
    and ok: "\<And>e. e \<in> set entries \<Longrightarrow> entry_ok e"
  shows "skipped_count st + length (created st) = length entries" and "superseded_count st = length (events st)"
proof -
  from run obtain s1 db2 where
    b: "supersede_batch_safe P ctx (filter (\<lambda>e. identity_count entries (e_name_identity e) = 1) entries)
       (scan_candidates P ctx entries db) (scan_tombstones P (ctx_org_id ctx) (ctx_project_id ctx) entries db)
       (scan_start ctx entries db, new_batch_state) = Inr s1"
    and s: "supersede_sequential P ctx (filter (\<lambda>e. identity_count entries (e_name_identity e) > 1) entries)
       (scan_candidates P ctx entries db) (scan_tombstones P (ctx_org_id ctx) (ctx_project_id ctx) entries db) s1 = Inr (db2, st)"
    by (rule ingest_entries_Inr)
  obtain d1 t1 where s1: "s1 = (d1, t1)" by fastforce
  note cb = batch_safe_counts[OF b[unfolded s1] mode]
  have ok': "entry_ok e" if "e \<in> set (filter (\<lambda>e. identity_count entries (e_name_identity e) = 1) entries)" for e
    using ok that by simp
  note cs = sequential_counts[OF s[unfolded s1] mode cb(2)[OF ok']]
  show "superseded_count st = length (events st)" using cs(2) by blast
  show "skipped_count st + length (created st) = length entries"
    using cs(1) cb(1)[OF ok'] split_by_count[of entries] by simp
qed



section \<open>Tombstones\<close>

text \<open>Two triples with the same text up to case, and the same predicate.\<close>

definition same_text :: "fact \<Rightarrow> fact \<Rightarrow> bool" where
  "same_text f g \<longleftrightarrow> f_predicate f = f_predicate g
     \<and> map_option py_lower (f_subject f) = map_option py_lower (f_subject g)
     \<and> map_option py_lower (f_object f) = map_option py_lower (f_object g)"

definition no_entity_ids :: "fact_in \<Rightarrow> bool" where
  "no_entity_ids fd \<longleftrightarrow> i_subject_entity_id fd = None \<and> i_object_entity_id fd = None"

lemma prepare_no_entities:
  assumes "prepare_entry fromiso fd ep now = Inr e" and "no_entity_ids fd"
  shows "r_subject_entity_id (e_row e) = None" "r_object_entity_id (e_row e) = None"
proof -
  obtain sid oid vf vt where "e = build_entry fd ep sid oid vf vt"
    "resolve_eid (i_subject_entity_id fd) = Inr sid" "resolve_eid (i_object_entity_id fd) = Inr oid"
    by (rule prepare_entry_Inr[OF assms(1)])
  then show "r_subject_entity_id (e_row e) = None" "r_object_entity_id (e_row e) = None"
    using assms(2) by (simp_all add: no_entity_ids_def resolve_eid_def build_entry_def Let_def)
qed

lemma normalize_lower_eq:
  assumes "map_option py_lower a = map_option py_lower b"
  shows "normalize_identity_term a = normalize_identity_term b"
proof (cases a)
  case (Some s)
  then obtain t where "b = Some t" "py_lower s = py_lower t" using assms by (cases b) auto
  then show ?thesis using Some by (metis normalize_lower)
qed (use assms in simp)

text \<open>A string-form entry matches the rows with its text: they are found, in its bucket, and conflict.\<close>

lemma same_text_match:
  assumes ok: "entry_ok e" and str: "r_subject_entity_id (e_row e) = None"
    and t: "same_text (row_maker P ctx (e_row e) n) t"
  shows "\<exists>k \<in> set (e_match_keys e). key_matches t k" and "name_identity_of_fact t = e_name_identity e"
    and "candidate_conflicts e t"
proof -
  let ?r = "e_row e"
  have tx: "f_predicate t = Some (r_predicate ?r)" "map_option py_lower (f_subject t) = Some (py_lower (r_subject ?r))"
      "map_option py_lower (f_object t) = Some (py_lower (r_object ?r))"
    using t by (auto simp: same_text_def)
  have "key_matches t (KStr (r_subject ?r), r_predicate ?r, KStr (r_object ?r))"
    using tx by (auto simp: key_matches_def term_matches_def)
  then show "\<exists>k \<in> set (e_match_keys e). key_matches t k" using ok by (auto simp: entry_ok_def)
  have "normalize_identity_term (f_subject t) = normalize_identity_term (Some (r_subject ?r))"
    "normalize_identity_term (f_object t) = normalize_identity_term (Some (r_object ?r))"
    using tx by (intro normalize_lower_eq; simp)+
  then have nm: "names_match ?r t" using tx(1) by (simp add: names_match_def)
  then show "name_identity_of_fact t = e_name_identity e" using conflict_same_name[OF ok] by simp
  show "candidate_conflicts e t" using nm str unfolding candidate_conflicts_iff by (simp add: entity_form_def)
qed

lemma same_text_core: "core f = core g \<Longrightarrow> same_text f t = same_text g t"
proof -
  assume c: "core f = core g"
  have "f_predicate f = f_predicate g" "f_subject f = f_subject g" "f_object f = f_object g"
    using arg_cong[OF c, of f_predicate] arg_cong[OF c, of f_subject] arg_cong[OF c, of f_object] by simp_all
  then show ?thesis by (simp add: same_text_def)
qed

text \<open>
  C3: retraction is terminal. An ingestion of facts without entity ids (the public API) never
  adds a row whose triple, up to the case of subject and object, is that of a retracted row
  of the same organization and project.
\<close>

theorem tombstones_win:
  assumes "postgres P"
    and "ingest_with_supersession P fromiso org proj usr fds ep mode at_time (db, svc) = Inr (r, db', svc')"
    and "list_all no_entity_ids fds"
    and "f \<in> set (drop (length (facts db)) (facts db'))"
    and "t \<in> set (facts db)" "f_organization_id t = org" "f_project_id t = proj" "f_invalid_at t \<noteq> None"
  shows "\<not> same_text f t"
  using assms(2)
proof (cases rule: ingest_cases)
  case empty
  then show ?thesis using assms(4) by simp
next
  case (batch all_entries st)
  let ?ctx = "batch_ctx_of org proj usr ep mode (instant P at_time)"
  let ?es = "dedup_entries [] all_entries"
  let ?T = "scan_tombstones P org proj ?es db"
  have rows: "map core (facts db') = map core (facts db) @ map core (created st)"
    and src: "\<And>g. g \<in> set (created st) \<Longrightarrow> from_entry P ?ctx (set ?es) ?T g"
    using ingest_entries_rows[OF batch(3)] by (auto simp: rows_inv_def)
  have "map core (drop (length (facts db)) (facts db')) = map core (created st)"
    unfolding drop_map[symmetric] rows by simp
  then obtain g where g: "g \<in> set (created st)" "core f = core g"
    using assms(4) by (metis (no_types, opaque_lifting) imageE image_eqI set_map)
  obtain e n where e: "e \<in> set ?es" "g = row_maker P ?ctx (e_row e) n"
      "\<not> list_ex (candidate_conflicts e) (bucket ?T (e_name_identity e))"
    using src[OF g(1)] by (auto simp: from_entry_def)
  obtain fd where fd: "fd \<in> set fds" "prepare_entry fromiso fd ep (instant P at_time) = Inr e" "entry_ok e"
    by (rule prepared_ok[OF batch(2) e(1)])
  have str: "r_subject_entity_id (e_row e) = None"
    using prepare_no_entities(1)[OF fd(2)] fd(1) assms(3) by (simp add: list_all_iff)
  show ?thesis
  proof
    assume "same_text f t"
    then have st: "same_text (row_maker P ?ctx (e_row e) n) t" using same_text_core[OF g(2)] e(2) by simp
    note m = same_text_match[OF fd(3) str st]
    have "t \<in> set ?T" using m(1) e(1) assms(5-8) unfolding postgres.scan_tombstones_set[OF assms(1)] by blast
    then have "t \<in> set (bucket ?T (e_name_identity e))" using m(2) by (simp add: bucket_def)
    then show False using e(3) m(3) by (auto simp: list_ex_iff)
  qed
qed

text \<open>A database with a retracted row, and a batch that asserts it again next to another fact.\<close>

definition tombstone :: fact where
  "tombstone = (sample_fact 0 ''ann'' ''knows'' ''bob'')\<lparr>f_invalid_at := Some 10\<rparr>"

definition tombstone_db :: fact_db where
  "tombstone_db = \<lparr>facts = [tombstone], inv_events = [], locks = [], draws = 1\<rparr>"

definition tombstone_batch :: "fact_in list" where
  "tombstone_batch = [sample_in ''Ann'' ''knows'' ''Bob'', sample_in ''Cat'' ''likes'' ''fish'']"

definition tombstone_run :: "(ingestion_result \<times> fact_db \<times> invalidation_service) res" where
  "tombstone_run = ingest_with_supersession sample_pg (\<lambda>_. None) 1 2 3 tombstone_batch None
     Batch_create (Some 50) (tombstone_db, new_service True True True)"

theorem tombstones_win_witness:
  "\<exists>r db' svc' f. tombstone_run = Inr (r, db', svc') \<and> res_skipped_count r = 1
     \<and> drop (length (facts tombstone_db)) (facts db') = [f] \<and> \<not> same_text f tombstone"
proof -
  have "(case tombstone_run of Inl _ \<Rightarrow> False | Inr (r, db', svc') \<Rightarrow>
      res_skipped_count r = 1 \<and> length (drop (length (facts tombstone_db)) (facts db')) = 1)" by code_simp
  then obtain r db' svc' where r: "tombstone_run = Inr (r, db', svc')" "res_skipped_count r = 1"
      "length (drop (length (facts tombstone_db)) (facts db')) = 1" by (auto split: sum.splits)
  obtain f where f: "drop (length (facts tombstone_db)) (facts db') = [f]"
    using r(3) by (cases "drop (length (facts tombstone_db)) (facts db')") auto
  have "\<not> same_text f tombstone"
    by (rule tombstones_win[OF sample.postgres_axioms r(1)[unfolded tombstone_run_def]])
      (simp_all add: f, simp_all add: tombstone_batch_def no_entity_ids_def sample_in_def tombstone_db_def tombstone_def sample_fact_def)
  then show ?thesis using r f by blast
qed

end
