(* ===== verification/Supersession_Single.thy ===== *)
theory Supersession_Single
  imports Supersession_Spec
begin

text \<open>
  The ingestion of one fact against its specification: if an effective row with the same triple
  already has this content, or a row with the same triple was retracted, nothing changes;
  otherwise every effective row with the same triple is closed and linked to the new row,
  which is appended.
\<close>

section \<open>Specification\<close>

definition in_scope :: "batch_ctx \<Rightarrow> fact \<Rightarrow> bool" where
  "in_scope ctx f \<longleftrightarrow> f_organization_id f = ctx_org_id ctx \<and> f_project_id f = ctx_project_id ctx"

definition conflicting :: "batch_ctx \<Rightarrow> fact \<Rightarrow> fact \<Rightarrow> bool" where
  "conflicting ctx new f \<longleftrightarrow> in_scope ctx f \<and> effective_at (ctx_now ctx) f \<and> same_text new f"

definition retracted_twin :: "batch_ctx \<Rightarrow> fact \<Rightarrow> fact \<Rightarrow> bool" where
  "retracted_twin ctx new f \<longleftrightarrow> in_scope ctx f \<and> f_invalid_at f \<noteq> None \<and> same_text new f"

definition spec_ingest :: "pg \<Rightarrow> batch_ctx \<Rightarrow> fact_row \<Rightarrow> nat \<Rightarrow> fact list \<Rightarrow> fact list" where
  "spec_ingest P ctx row n fs =
     (let new = row_maker P ctx row n in
      if list_ex (\<lambda>f. conflicting ctx new f \<and> f_content f = r_content row) fs \<or> list_ex (retracted_twin ctx new) fs
      then fs
      else map (\<lambda>f. if conflicting ctx new f
                    then f\<lparr>f_valid_to := Some (ctx_now ctx), f_superseded_by_fact_id := Some (f_id new),
                           f_updated_at := utcnow P\<rparr>
                    else f) fs @ [new])"

section \<open>Refinement\<close>

lemma close_all_facts:
  "close_all now cs db = Inr db' \<Longrightarrow>
   facts db' = map (\<lambda>f. if f_id f \<in> f_id ` set cs then close_fact now f else f) (facts db) \<and> draws db' = draws db"
proof (induction cs arbitrary: db)
  case Nil
  then show ?case by (simp add: close_all_def)
next
  case (Cons c cs)
  then obtain db1 where s: "set_valid_to (f_id c) now db = Inr db1" and r: "close_all now cs db1 = Inr db'"
    by (auto simp: close_all_def exc_bind_Inr_iff)
  show ?case unfolding conjunct1[OF Cons.IH[OF r]] using Cons.IH[OF r] by (simp add: set_valid_to_Inr[OF s])
qed

lemma lineage_facts:
  "exc_fold (lineage_step P org proj now episodes) evs db = Inr db' \<Longrightarrow> \<forall>t \<in> set evs. new_fact_id t = Some s \<Longrightarrow>
   facts db' = map (\<lambda>f. if f_id f \<in> old_fact_id ` set evs then link_fact (utcnow P) (Some s) f else f) (facts db)"
proof (induction evs arbitrary: db)
  case Nil
  then show ?case by simp
next
  case (Cons t evs)
  have t: "new_fact_id t = Some s" using Cons.prems(2) by simp
  let ?d = "(set_superseded_by P (old_fact_id t) (Some s) db)
       \<lparr>draws := Suc (draws db), inv_events := inv_events db @
          [lineage_row P org proj now (draws db) (case episodes (old_fact_id t) of None \<Rightarrow> None | Some ep \<Rightarrow> ep) t]\<rparr>"
  have r: "exc_fold (lineage_step P org proj now episodes) evs ?d = Inr db'"
    using Cons.prems(1) by (simp add: lineage_step_Some[OF t])
  show ?case unfolding Cons.IH[OF r ballI] using Cons.prems(2) Cons.IH[OF r] by (simp add: set_superseded_by_def)
qed

lemma string_entry_keys:
  assumes "prepare_entry fromiso fd ep now = Inr e" and "no_entity_ids fd"
  shows "e_match_keys e = [(KStr (r_subject (e_row e)), r_predicate (e_row e), KStr (r_object (e_row e)))]"
proof -
  obtain sid oid vf vt where "e = build_entry fd ep sid oid vf vt" "resolve_eid (i_subject_entity_id fd) = Inr sid"
    by (rule prepare_entry_Inr[OF assms(1)])
  then show ?thesis using assms(2) by (simp add: no_entity_ids_def resolve_eid_def build_entry_def Let_def scan_keys_def)
qed

lemma key_matches_same_text:
  "key_matches f (KStr (r_subject r), r_predicate r, KStr (r_object r)) \<longleftrightarrow> same_text (row_maker P ctx r n) f"
  by (auto simp: key_matches_def term_matches_def same_text_def split: option.splits)

context postgres
begin

lemma single_scan:
  assumes e: "prepare_entry fromiso fd ep now = Inr e" "no_entity_ids fd"
  shows "set (matching_conflicts e (bucket (scan_candidates P ctx [e] db) (e_name_identity e)) [])
      = {f \<in> set (facts db). conflicting ctx (row_maker P ctx (e_row e) n) f}"
    and "list_ex (candidate_conflicts e) (bucket (scan_tombstones P (ctx_org_id ctx) (ctx_project_id ctx) [e] db) (e_name_identity e))
      \<longleftrightarrow> list_ex (retracted_twin ctx (row_maker P ctx (e_row e) n)) (facts db)"
proof -
  let ?new = "row_maker P ctx (e_row e) n"
  note ok = prepare_entry_row(1)[OF e(1)]
  note m = same_text_match[OF ok prepare_no_entities(1)[OF e], of P ctx n]
  have key: "(\<exists>k \<in> set (e_match_keys e). key_matches f k) \<longleftrightarrow> same_text ?new f" for f
    using key_matches_same_text[of f "e_row e" P ctx n] by (simp add: string_entry_keys[OF e])
  show "set (matching_conflicts e (bucket (scan_candidates P ctx [e] db) (e_name_identity e)) [])
      = {f \<in> set (facts db). conflicting ctx ?new f}"
    unfolding matching_conflicts_def bucket_def set_filter scan_candidates_set conflicting_def in_scope_def
    using key m by auto
  show "list_ex (candidate_conflicts e) (bucket (scan_tombstones P (ctx_org_id ctx) (ctx_project_id ctx) [e] db) (e_name_identity e))
      \<longleftrightarrow> list_ex (retracted_twin ctx ?new) (facts db)"
    unfolding list_ex_iff bucket_def set_filter scan_tombstones_set retracted_twin_def in_scope_def using key m by auto
qed

lemma single_entry_run:
  assumes e: "prepare_entry fromiso fd ep now = Inr e" "no_entity_ids fd" and ok: "db_ok P db"
    and mode: "ctx_insert_mode ctx = Batch_create" and run: "ingest_entries P ctx [e] db = Inr (db', st)"
  shows "facts db' = spec_ingest P ctx (e_row e) (draws db) (facts db)"
proof -
  let ?new = "row_maker P ctx (e_row e) (draws db)" and ?now = "ctx_now ctx"
  let ?T = "scan_tombstones P (ctx_org_id ctx) (ctx_project_id ctx) [e] db"
  let ?cs = "matching_conflicts e (bucket (scan_candidates P ctx [e] db) (e_name_identity e)) []"
  note eok = prepare_entry_row(1)[OF e(1)]
  have cs: "set ?cs = {f \<in> set (facts db). conflicting ctx ?new f}" by (rule single_scan(1)[OF e])
  have tomb: "list_ex (candidate_conflicts e) (bucket ?T (e_name_identity e)) \<longleftrightarrow> list_ex (retracted_twin ctx ?new) (facts db)"
    by (rule single_scan(2)[OF e])
  have ident: "identical_content e ?cs \<longleftrightarrow> list_ex (\<lambda>f. conflicting ctx ?new f \<and> f_content f = r_content (e_row e)) (facts db)"
    unfolding identical_content_def list_ex_iff cs by blast
  have one: "filter (\<lambda>x. identity_count [e] (e_name_identity x) = 1) [e] = [e]"
    "filter (\<lambda>x. identity_count [e] (e_name_identity x) > 1) [e] = []" by (simp_all add: identity_count_def)
  from run obtain s1 db2 where
    b: "supersede_batch_safe P ctx [e] (scan_candidates P ctx [e] db) ?T (scan_start ctx [e] db, new_batch_state) = Inr s1"
    and s: "supersede_sequential P ctx [] (scan_candidates P ctx [e] db) ?T s1 = Inr (db2, st)"
    and l: "exc_fold (lineage_step P (ctx_org_id ctx) (ctx_project_id ctx) ?now (source_episode_by_old_fact st)) (events st) db2 = Inr db'"
    using ingest_entries_Inr[of P ctx "[e]" db db' st] unfolding one by metis
  have s1: "s1 = (db2, st)" using s by (simp add: supersede_sequential_def)
  from b[unfolded s1] obtain db1 st1 kept new where
      loop: "exc_fold (batch_safe_step ctx (scan_candidates P ctx [e] db) ?T) [e] (scan_start ctx [e] db, new_batch_state, []) = Inr (db1, st1, kept)"
      and ins: "(if kept = [] then Inr ([], db1) else insert_rows P ctx (map (e_row \<circ> fst) kept) db1) = Inr (new, db2)"
      and r: "st = fold (pair_kept (created st1 @ new)) kept (st1\<lparr>created := created st1 @ new\<rparr>)"
    by (rule supersede_batch_safe_Inr)
  have c0: "closed_ids new_batch_state = []" "events new_batch_state = []" "created new_batch_state = []"
    by (simp_all add: new_batch_state_def)
  have step: "batch_safe_step ctx (scan_candidates P ctx [e] db) ?T e (scan_start ctx [e] db, new_batch_state, []) = Inr (db1, st1, kept)"
    using loop by (simp add: exc_bind_Inr_iff)
  then show ?thesis
  proof (cases rule: batch_safe_step_cases)
    case skip
    have "events st = []" using r skip c0 by simp
    then have "db' = scan_start ctx [e] db" using l ins skip by simp
    then have "facts db' = facts db" by simp
    then show ?thesis using skip(4) unfolding c0 ident tomb by (simp add: spec_ingest_def)
  next
    case keep
    note cl = close_all_facts[OF keep(1)[unfolded c0]]
    have ins': "insert_rows P ctx [e_row e] db1 = Inr (new, db2)" using ins keep(3) by simp
    have d1: "draws db1 = draws db" using cl by simp
    obtain g where g: "new = [g]" using insert_rows_all[OF ins' mode] by (cases new) auto
    then obtain n where "n \<in> {draws db1..<draws db2}" "g = row_maker P ctx (e_row e) n"
      using insert_rows_new(5)[OF ins', of g] by auto
    then have new: "new = [?new]" using insert_rows_new(4)[OF ins'] d1 g by (simp add: le_less_Suc_eq)
    have "bucket new (e_name_identity e) = [?new]" by (simp add: new bucket_def name_identity_row_maker[OF eok])
    then have ev: "events st = map (\<lambda>old. make_supersession_event old (Some ?new) (e_triple e)) ?cs"
      using keep c0 by (simp add: r kept_events_def new)
    have "facts db' = map (\<lambda>f. if f_id f \<in> f_id ` set ?cs then link_fact (utcnow P) (Some (f_id ?new)) f else f) (facts db2)"
      using lineage_facts[OF l, of "f_id ?new"] unfolding ev by (simp add: image_image)
    also have "facts db2 = map (\<lambda>f. if f_id f \<in> f_id ` set ?cs then close_fact ?now f else f) (facts db) @ [?new]"
      using insert_rows_new(1)[OF ins'] cl unfolding new by simp
    finally have fin: "facts db' = map (\<lambda>f. if f_id f \<in> f_id ` set ?cs then link_fact (utcnow P) (Some (f_id ?new)) f else f)
        (map (\<lambda>f. if f_id f \<in> f_id ` set ?cs then close_fact ?now f else f) (facts db) @ [?new])" .
    have "gen_random_uuid P (draws db) \<notin> f_id ` set (facts db)" using ok by (auto simp: db_ok_def dest!: injD[OF uuid_inj])
    then have nn: "f_id ?new \<notin> f_id ` set ?cs" unfolding cs by auto
    have iff: "f_id f \<in> f_id ` set ?cs \<longleftrightarrow> conflicting ctx ?new f" if "f \<in> set (facts db)" for f
      using ok that unfolding cs db_ok_def distinct_map inj_on_def by blast
    have "facts db' = map (\<lambda>f. if conflicting ctx ?new f
                    then f\<lparr>f_valid_to := Some ?now, f_superseded_by_fact_id := Some (f_id ?new), f_updated_at := utcnow P\<rparr>
                    else f) (facts db) @ [?new]"
      unfolding fin using nn iff by simp
    then show ?thesis using keep(4,5) unfolding c0 ident tomb by (simp add: spec_ingest_def Let_def)
  qed
qed

end

text \<open>
  C2: refinement. Ingesting one fact without entity ids through the whole pipeline (entry
  preparation, dedup, locks, scans, batch path, insert, pairing, lineage) changes the fact
  table exactly as the specification \<^const>\<open>spec_ingest\<close> says.
\<close>

theorem single_fact_refines_spec:
  assumes "postgres P" and "db_ok P db" and "no_entity_ids fd"
    and "ingest_with_supersession P fromiso org proj usr [fd] ep Batch_create at_time (db, svc) = Inr (r, db', svc')"
  shows "\<exists>e. prepare_entry fromiso fd ep (instant P at_time) = Inr e
    \<and> facts db' = spec_ingest P (batch_ctx_of org proj usr ep Batch_create (instant P at_time)) (e_row e) (draws db) (facts db)"
  using assms(4)
proof (cases rule: ingest_cases)
  case (batch all_entries st)
  then obtain e where e: "prepare_entry fromiso fd ep (instant P at_time) = Inr e" and "all_entries = [e]"
    by (auto simp: exc_bind_Inr_iff)
  then have "ingest_entries P (batch_ctx_of org proj usr ep Batch_create (instant P at_time)) [e] db = Inr (db', st)"
    using batch(3) by simp
  from postgres.single_entry_run[OF assms(1) e assms(3,2) _ this] e show ?thesis by simp
qed simp

lemma sample_in_no_entities: "no_entity_ids (sample_in s p ob)"
  by (simp add: no_entity_ids_def sample_in_def)

theorem single_fact_refines_spec_witness:
  "\<exists>r db' svc'. sample_run sample_db 50 = Inr (r, db', svc') \<and> res_superseded_count r = 1
     \<and> (\<exists>e. prepare_entry (\<lambda>_. None) (sample_in ''Ann'' ''knows'' ''Bob'') None (instant sample_pg (Some 50)) = Inr e
       \<and> facts db' = spec_ingest sample_pg (batch_ctx_of 1 2 3 None Batch_create (instant sample_pg (Some 50))) (e_row e)
           (draws sample_db) (facts sample_db))"
proof -
  obtain r db' svc' where r: "sample_run sample_db 50 = Inr (r, db', svc')" "res_superseded_count r = 1"
    using sample_run_Inr by blast
  show ?thesis
    using single_fact_refines_spec[OF sample.postgres_axioms sample_db_ok sample_in_no_entities r(1)[unfolded sample_run_def]] r
    by blast
qed

text \<open>A row present with the content, effective at the later instant, makes the retry a no-op.\<close>

lemma spec_ingest_retry:
  assumes "g \<in> set fs" "same_text (row_maker P ctx row n) g" "in_scope ctx g" "effective_at (ctx_now ctx) g"
    and "f_content g = r_content row"
  shows "spec_ingest P ctx row n fs = fs"
proof -
  have "list_ex (\<lambda>f. conflicting ctx (row_maker P ctx row n) f \<and> f_content f = r_content row) fs"
    using assms unfolding list_ex_iff conflicting_def by blast
  then show ?thesis by (simp add: spec_ingest_def Let_def)
qed

lemma prepare_same_text:
  assumes "prepare_entry fromiso fd ep now = Inr e" and "prepare_entry fromiso fd ep' now' = Inr e'"
  shows "r_subject (e_row e') = r_subject (e_row e) \<and> r_predicate (e_row e') = r_predicate (e_row e)
    \<and> r_object (e_row e') = r_object (e_row e) \<and> r_content (e_row e') = r_content (e_row e)"
proof -
  obtain sid oid vf vt where "e = build_entry fd ep sid oid vf vt" by (rule prepare_entry_Inr[OF assms(1)])
  moreover obtain sid' oid' vf' vt' where "e' = build_entry fd ep' sid' oid' vf' vt'" by (rule prepare_entry_Inr[OF assms(2)])
  ultimately show ?thesis by (simp add: build_entry_def Let_def)
qed

text \<open>
  C5: a retry is idempotent. When a fact was inserted, ingesting the same input again at a later
  instant leaves the fact table as it is, as long as the inserted row is still effective then
  (its validity has begun and has not ended).
\<close>

theorem ingestion_retry_idempotent:
  assumes "postgres P" and "db_ok P db" and "no_entity_ids fd"
    and run: "ingest_with_supersession P fromiso org proj usr [fd] ep Batch_create at_time (db, svc) = Inr (r, db', svc')"
    and ins: "res_inserted_count r = 1" and eff: "effective_at (instant P at_time') (last (facts db'))"
    and again: "ingest_with_supersession P fromiso org proj usr' [fd] ep' Batch_create at_time' (db', svc1) = Inr (r', db'', svc'')"
  shows "facts db'' = facts db'"
proof -
  let ?ctx = "batch_ctx_of org proj usr ep Batch_create (instant P at_time)"
  let ?ctx' = "batch_ctx_of org proj usr' ep' Batch_create (instant P at_time')"
  obtain e st where e: "prepare_entry fromiso fd ep (instant P at_time) = Inr e"
      and b: "ingest_entries P ?ctx [e] db = Inr (db', st)" and c: "res_inserted_count r = length (created st)"
    using run by (cases rule: ingest_cases) (auto simp: exc_bind_Inr_iff)
  have ok': "db_ok P db'" using frame_db_ok[OF postgres.ingest_entries_inv(1)[OF assms(1,2) b]] .
  have spec: "facts db' = spec_ingest P ?ctx (e_row e) (draws db) (facts db)"
    by (rule postgres.single_entry_run[OF assms(1) e assms(3,2) _ b]) simp
  have "map core (facts db') = map core (facts db) @ map core (created st)"
    using ingest_entries_rows[OF b] by (simp add: rows_inv_def)
  then have "length (facts db') = Suc (length (facts db))" using ins c by (metis One_nat_def add_Suc_right add.right_neutral length_append length_map)
  then have last: "last (facts db') = row_maker P ?ctx (e_row e) (draws db)" "last (facts db') \<in> set (facts db')"
    unfolding spec spec_ingest_def Let_def by (auto split: if_splits)
  obtain e' st' where e': "prepare_entry fromiso fd ep' (instant P at_time') = Inr e'"
      and b': "ingest_entries P ?ctx' [e'] db' = Inr (db'', st')"
    using again by (cases rule: ingest_cases) (auto simp: exc_bind_Inr_iff)
  have "facts db'' = spec_ingest P ?ctx' (e_row e') (draws db') (facts db')"
    by (rule postgres.single_entry_run[OF assms(1) e' assms(3) ok' _ b']) simp
  also have "\<dots> = facts db'"
  proof (rule spec_ingest_retry[OF last(2)])
    have content: "r_content (e_row e) \<noteq> []" using prepare_entry_row(1)[OF e] by (simp add: entry_ok_def)
    note same = prepare_same_text[OF e e']
    show "f_content (last (facts db')) = r_content (e_row e')" using same content by (simp add: last(1))
    show "same_text (row_maker P ?ctx' (e_row e') (draws db')) (last (facts db'))"
      using same by (simp add: last(1) same_text_def)
  qed (use eff in \<open>simp_all add: last(1) in_scope_def\<close>)
  finally show ?thesis .
qed

theorem ingestion_retry_idempotent_witness:
  "\<exists>r db' svc' r' db'' svc''. sample_run sample_db 50 = Inr (r, db', svc') \<and> res_inserted_count r = 1
     \<and> sample_run db' 60 = Inr (r', db'', svc'') \<and> facts db'' = facts db'"
proof -
  obtain r db' svc' where r: "sample_run sample_db 50 = Inr (r, db', svc')" "res_inserted_count r = 1"
      "effective_at 60 (last (facts db'))" "\<not> isl (sample_run db' 60)"
    using sample_run_Inr by blast
  then obtain r' db'' svc'' where r': "sample_run db' 60 = Inr (r', db'', svc'')" by (cases "sample_run db' 60") auto
  have "facts db'' = facts db'"
    by (rule ingestion_retry_idempotent[OF sample.postgres_axioms sample_db_ok sample_in_no_entities
          r(1)[unfolded sample_run_def] r(2) _ r'[unfolded sample_run_def]]) (use r(3) in \<open>simp add: instant_def\<close>)
  then show ?thesis using r r' by blast
qed

end
