(* ===== verification/Redis.thy ===== *)
theory Redis
  imports Prelude
begin

text \<open>
  The Redis commands the services use. Redis itself is not part of the sources: a client is a
  record of commands over an unknown state, a parameter of every definition that uses it, and
  each command may raise. The locale \<open>redis_server\<close> states the documented behaviour the
  services rely on, as a simulation: on a view of the server's state as a key space with
  times to live, a command answers and acts like the reference command below. A program
  built from commands by sequencing then acts like the same program on the reference store.
\<close>

section \<open>Clients\<close>

text \<open>
  A value is a text, a text that is a decimal integer (what INCR makes and \<^verbatim>\<open>int(...)\<close> reads),
  a sorted set or a hash.
\<close>

datatype rval = Txt string | Num int | Zset "(string \<times> int) list" | Hash "(string \<times> rval) list"

record 's redis =
  redis_ping :: "('s, unit) sx"
  redis_get :: "string \<Rightarrow> ('s, rval option) sx"
  redis_setex :: "string \<Rightarrow> nat \<Rightarrow> rval \<Rightarrow> ('s, unit) sx"
  redis_set_nx :: "string \<Rightarrow> rval \<Rightarrow> nat \<Rightarrow> ('s, bool) sx"
  redis_incr :: "string \<Rightarrow> ('s, int) sx"
  redis_decr :: "string \<Rightarrow> ('s, int) sx"
  redis_expire :: "string \<Rightarrow> nat \<Rightarrow> ('s, bool) sx"
  redis_delete :: "string list \<Rightarrow> ('s, unit) sx"
  redis_exists :: "string \<Rightarrow> ('s, bool) sx"
  redis_zremrangebyscore :: "string \<Rightarrow> int \<Rightarrow> int \<Rightarrow> ('s, unit) sx"
  redis_zcard :: "string \<Rightarrow> ('s, nat) sx"
  redis_zadd :: "string \<Rightarrow> string \<Rightarrow> int \<Rightarrow> ('s, unit) sx"
  redis_hgetall :: "string \<Rightarrow> ('s, (string \<times> rval) list) sx"
  redis_elapse :: "nat \<Rightarrow> 's \<Rightarrow> 's" \<comment> \<open>milliseconds pass\<close>

text \<open>
  Two commands of a MULTI/EXEC pipeline. The server runs every command of the pipeline, also
  after one that failed; the client raises the first failure once all have run.
\<close>

definition redis_pipe :: "('s, 'a) sx \<Rightarrow> ('s, 'b) sx \<Rightarrow> ('s, 'a \<times> 'b) sx" where
  "redis_pipe m n s =
     (case m s of (r, t) \<Rightarrow> case n t of (q, u) \<Rightarrow>
        (exc_bind r (\<lambda>x. exc_bind q (\<lambda>y. Inr (x, y))), u))"

section \<open>The reference store\<close>

text \<open>A key holds a value and, if it is volatile, the milliseconds it has left.\<close>

type_synonym store = "string \<Rightarrow> (rval \<times> nat option) option"

definition st_get :: "string \<Rightarrow> (store, rval option) sx" where
  "st_get k st =
     (case st k of
        None \<Rightarrow> (Inr None, st)
      | Some (Zset _, _) \<Rightarrow> (Inl RedisError, st)
      | Some (Hash _, _) \<Rightarrow> (Inl RedisError, st)
      | Some (v, _) \<Rightarrow> (Inr (Some v), st))"

definition st_setex :: "string \<Rightarrow> nat \<Rightarrow> rval \<Rightarrow> (store, unit) sx" where
  "st_setex k sec v st = (if sec = 0 then (Inl RedisError, st) else (Inr (), st(k \<mapsto> (v, Some (1000 * sec)))))"

definition st_set_nx :: "string \<Rightarrow> rval \<Rightarrow> nat \<Rightarrow> (store, bool) sx" where
  "st_set_nx k v sec st =
     (if sec = 0 then (Inl RedisError, st)
      else if st k \<noteq> None then (Inr False, st) else (Inr True, st(k \<mapsto> (v, Some (1000 * sec)))))"

definition st_add :: "int \<Rightarrow> string \<Rightarrow> (store, int) sx" where
  "st_add d k st =
     (case st k of
        None \<Rightarrow> (Inr d, st(k \<mapsto> (Num d, None)))
      | Some (Num n, ttl) \<Rightarrow> (Inr (n + d), st(k \<mapsto> (Num (n + d), ttl)))
      | Some _ \<Rightarrow> (Inl RedisError, st))"

definition st_expire :: "string \<Rightarrow> nat \<Rightarrow> (store, bool) sx" where
  "st_expire k sec st =
     (case st k of
        None \<Rightarrow> (Inr False, st)
      | Some (v, _) \<Rightarrow> (Inr True, if sec = 0 then st(k := None) else st(k \<mapsto> (v, Some (1000 * sec)))))"

definition st_delete :: "string list \<Rightarrow> (store, unit) sx" where
  "st_delete ks st = (Inr (), \<lambda>k. if k \<in> set ks then None else st k)"

definition st_exists :: "string \<Rightarrow> (store, bool) sx" where
  "st_exists k st = (Inr (st k \<noteq> None), st)"

definition st_zset :: "string \<Rightarrow> store \<Rightarrow> ((string \<times> int) list \<times> nat option) option" where
  "st_zset k st = (case st k of None \<Rightarrow> Some ([], None) | Some (Zset m, ttl) \<Rightarrow> Some (m, ttl) | _ \<Rightarrow> None)"

text \<open>An empty sorted set is no key.\<close>

definition put_zset :: "string \<Rightarrow> (string \<times> int) list \<Rightarrow> nat option \<Rightarrow> store \<Rightarrow> store" where
  "put_zset k m ttl st = (if m = [] then st(k := None) else st(k \<mapsto> (Zset m, ttl)))"

definition st_zremrangebyscore :: "string \<Rightarrow> int \<Rightarrow> int \<Rightarrow> (store, unit) sx" where
  "st_zremrangebyscore k lo hi st =
     (case st_zset k st of
        None \<Rightarrow> (Inl RedisError, st)
      | Some (m, ttl) \<Rightarrow> (Inr (), put_zset k (filter (\<lambda>(_, x). \<not> (lo \<le> x \<and> x \<le> hi)) m) ttl st))"

definition st_zcard :: "string \<Rightarrow> (store, nat) sx" where
  "st_zcard k st = (case st_zset k st of None \<Rightarrow> (Inl RedisError, st) | Some (m, _) \<Rightarrow> (Inr (length m), st))"

definition st_zadd :: "string \<Rightarrow> string \<Rightarrow> int \<Rightarrow> (store, unit) sx" where
  "st_zadd k member score st =
     (case st_zset k st of
        None \<Rightarrow> (Inl RedisError, st)
      | Some (m, ttl) \<Rightarrow> (Inr (), put_zset k (filter (\<lambda>(x, _). x \<noteq> member) m @ [(member, score)]) ttl st))"

definition st_hgetall :: "string \<Rightarrow> (store, (string \<times> rval) list) sx" where
  "st_hgetall k st =
     (case st k of
        None \<Rightarrow> (Inr [], st)
      | Some (Hash h, _) \<Rightarrow> (Inr h, st)
      | Some _ \<Rightarrow> (Inl RedisError, st))"

definition st_ping :: "(store, unit) sx" where
  "st_ping st = (Inr (), st)"

definition st_elapse :: "nat \<Rightarrow> store \<Rightarrow> store" where
  "st_elapse ms st = (\<lambda>k. case st k of
     Some (v, Some left) \<Rightarrow> if left \<le> ms then None else Some (v, Some (left - ms))
   | x \<Rightarrow> x)"

definition mem_redis :: "store redis" where
  "mem_redis =
     \<lparr>redis_ping = st_ping, redis_get = st_get, redis_setex = st_setex, redis_set_nx = st_set_nx, redis_incr = st_add 1,
      redis_decr = st_add (-1), redis_expire = st_expire, redis_delete = st_delete,
      redis_exists = st_exists, redis_zremrangebyscore = st_zremrangebyscore, redis_zcard = st_zcard,
      redis_zadd = st_zadd, redis_hgetall = st_hgetall, redis_elapse = st_elapse\<rparr>"

section \<open>Simulation\<close>

definition sim :: "('s \<Rightarrow> 't) \<Rightarrow> ('s, 'a) sx \<Rightarrow> ('t, 'a) sx \<Rightarrow> bool" where
  "sim view m m' \<longleftrightarrow> (\<forall>s. \<exists>s'. m s = (fst (m' (view s)), s') \<and> view s' = snd (m' (view s)))"

lemma simD: "sim view m m' \<Longrightarrow> m s = (r, t) \<Longrightarrow> m' (view s) = (r, view t)"
  unfolding sim_def by (metis fst_conv prod.collapse snd_conv)

lemma sim_return [intro]: "sim view (sx_return x) (sx_return x)"
  by (simp add: sim_def sx_return_def)

lemma sim_raise [intro]: "sim view (sx_raise e) (sx_raise e)"
  by (simp add: sim_def sx_raise_def)

lemma sim_bind [intro]:
  assumes "sim view m m'" and "\<And>x. sim view (f x) (f' x)"
  shows "sim view (sx_bind m f) (sx_bind m' f')"
  unfolding sim_def
proof
  fix s
  obtain r t where m: "m s = (r, t)" by fastforce
  note m' = simD[OF assms(1) m]
  show "\<exists>s'. sx_bind m f s = (fst (sx_bind m' f' (view s)), s') \<and> view s' = snd (sx_bind m' f' (view s))"
  proof (cases r)
    case (Inl e)
    then show ?thesis using m m' by (simp add: sx_bind_def)
  next
    case (Inr x)
    obtain r1 t1 where f: "f x t = (r1, t1)" by fastforce
    then show ?thesis using Inr m m' simD[OF assms(2) f] by (simp add: sx_bind_def)
  qed
qed

lemma sim_if [intro]: "(b \<Longrightarrow> sim view m m') \<Longrightarrow> (\<not> b \<Longrightarrow> sim view n n') \<Longrightarrow> sim view (if b then m else n) (if b then m' else n')"
  by simp

lemma sim_pure: "sim view (\<lambda>s. (r, s)) (\<lambda>s. (r, s))"
  by (simp add: sim_def)

lemma sim_catch [intro]:
  assumes "sim view m m'" and "\<And>e. sim view (h e) (h' e)"
  shows "sim view (sx_catch m h) (sx_catch m' h')"
  unfolding sim_def
proof
  fix s
  obtain r t where m: "m s = (r, t)" by fastforce
  note m' = simD[OF assms(1) m]
  show "\<exists>s'. sx_catch m h s = (fst (sx_catch m' h' (view s)), s') \<and> view s' = snd (sx_catch m' h' (view s))"
  proof (cases r)
    case (Inl e)
    obtain r1 t1 where h: "h e t = (r1, t1)" by fastforce
    then show ?thesis using Inl m m' simD[OF assms(2) h] by (simp add: sx_catch_def)
  next
    case (Inr x)
    then show ?thesis using m m' by (simp add: sx_catch_def)
  qed
qed

lemma sim_pipe [intro]:
  assumes "sim view m m'" and "sim view n n'"
  shows "sim view (redis_pipe m n) (redis_pipe m' n')"
  unfolding sim_def
proof
  fix s
  obtain r t where m: "m s = (r, t)" by fastforce
  obtain q u where n: "n t = (q, u)" by fastforce
  show "\<exists>s'. redis_pipe m n s = (fst (redis_pipe m' n' (view s)), s') \<and> view s' = snd (redis_pipe m' n' (view s))"
    using m n simD[OF assms(1) m] simD[OF assms(2) n] by (simp add: redis_pipe_def)
qed

locale redis_server =
  fixes R :: "'s redis" and view :: "'s \<Rightarrow> store"
  assumes get_law: "sim view (redis_get R k) (redis_get mem_redis k)"
    and setex_law: "sim view (redis_setex R k n v) (redis_setex mem_redis k n v)"
    and set_nx_law: "sim view (redis_set_nx R k v n) (redis_set_nx mem_redis k v n)"
    and incr_law: "sim view (redis_incr R k) (redis_incr mem_redis k)"
    and decr_law: "sim view (redis_decr R k) (redis_decr mem_redis k)"
    and expire_law: "sim view (redis_expire R k n) (redis_expire mem_redis k n)"
    and delete_law: "sim view (redis_delete R ks) (redis_delete mem_redis ks)"
    and exists_law: "sim view (redis_exists R k) (redis_exists mem_redis k)"
    and zrem_law: "sim view (redis_zremrangebyscore R k lo hi) (redis_zremrangebyscore mem_redis k lo hi)"
    and zcard_law: "sim view (redis_zcard R k) (redis_zcard mem_redis k)"
    and zadd_law: "sim view (redis_zadd R k m x) (redis_zadd mem_redis k m x)"
    and hgetall_law: "sim view (redis_hgetall R k) (redis_hgetall mem_redis k)"
    and ping_law: "sim view (redis_ping R) (redis_ping mem_redis)"
    and elapse_law: "view (redis_elapse R d s) = redis_elapse mem_redis d (view s)"
begin

lemmas redis_laws = get_law setex_law set_nx_law incr_law decr_law expire_law delete_law exists_law
  zrem_law zcard_law zadd_law hgetall_law ping_law

end

lemma sim_id: "sim (\<lambda>s. s) m m"
  by (simp add: sim_def)

interpretation mem: redis_server mem_redis "\<lambda>s. s"
  by unfold_locales (rule sim_id refl)+

text \<open>
  A server that counts its commands besides storing: another implementation of the laws, on a
  richer state.
\<close>

definition counted :: "('t, 'a) sx \<Rightarrow> ('t \<times> nat, 'a) sx" where
  "counted m s = (case m (fst s) of (r, t) \<Rightarrow> (r, (t, Suc (snd s))))"

definition counting_redis :: "(store \<times> nat) redis" where
  "counting_redis =
     \<lparr>redis_ping = counted st_ping, redis_get = (\<lambda>k. counted (st_get k)), redis_setex = (\<lambda>k n v. counted (st_setex k n v)),
      redis_set_nx = (\<lambda>k v n. counted (st_set_nx k v n)), redis_incr = (\<lambda>k. counted (st_add 1 k)),
      redis_decr = (\<lambda>k. counted (st_add (-1) k)), redis_expire = (\<lambda>k n. counted (st_expire k n)),
      redis_delete = (\<lambda>ks. counted (st_delete ks)), redis_exists = (\<lambda>k. counted (st_exists k)),
      redis_zremrangebyscore = (\<lambda>k lo hi. counted (st_zremrangebyscore k lo hi)),
      redis_zcard = (\<lambda>k. counted (st_zcard k)), redis_zadd = (\<lambda>k m x. counted (st_zadd k m x)),
      redis_hgetall = (\<lambda>k. counted (st_hgetall k)), redis_elapse = (\<lambda>d s. (st_elapse d (fst s), snd s))\<rparr>"

lemma sim_counted: "sim fst (counted m) m"
  by (simp add: sim_def counted_def split: prod.split)

interpretation counting: redis_server counting_redis fst
  by unfold_locales (simp_all add: counting_redis_def mem_redis_def sim_counted)

lemma mem_redis_simps [simp]:
  "redis_get mem_redis = st_get" "redis_setex mem_redis = st_setex" "redis_set_nx mem_redis = st_set_nx"
  "redis_incr mem_redis = st_add 1" "redis_decr mem_redis = st_add (-1)" "redis_expire mem_redis = st_expire"
  "redis_delete mem_redis = st_delete" "redis_exists mem_redis = st_exists"
  "redis_zremrangebyscore mem_redis = st_zremrangebyscore" "redis_zcard mem_redis = st_zcard"
  "redis_zadd mem_redis = st_zadd" "redis_hgetall mem_redis = st_hgetall" "redis_ping mem_redis = st_ping" "redis_elapse mem_redis = st_elapse"
  by (simp_all add: mem_redis_def)

end
