(* ===== verification/Idempotency.thy ===== *)
theory Idempotency
  imports Redis
begin

text \<open>
  \<^verbatim>\<open>services/idempotency_service.py\<close>: HTTP idempotency keys, content-hash claims and the worker
  bitmask, with \<^verbatim>\<open>get_by_id_for_update\<close> and \<^verbatim>\<open>apply_enrichment_bits\<close> of
  \<^verbatim>\<open>repositories/episode_repository.py\<close> and the bits of \<^verbatim>\<open>workers/tasks/base.py\<close>.

  JSON (\<^verbatim>\<open>orjson\<close>) and SHA-256 are parameters: \<open>dumps\<close> and \<open>loads\<close> for cache entries, and
  \<open>digest\<close> for the digest of a canonical request. A Lua script runs as one command.
\<close>

unbundle bit_operations_syntax

section \<open>Settings\<close>

record idem_settings =
  idem_env :: string
  idem_ttl :: nat

definition idem_prefix :: "idem_settings \<Rightarrow> string" where
  "idem_prefix S = ''OpenZync:'' @ idem_env S @ '':idempotency:''"

definition content_prefix :: "idem_settings \<Rightarrow> string" where
  "content_prefix S = ''OpenZync:'' @ idem_env S @ '':contenthash:''"

definition max_key_length :: nat where
  "max_key_length = 255"

section \<open>HTTP level\<close>

datatype idempotency_status = NEW | REPLAY | CONFLICT

record 'd idempotency_result =
  ir_status :: idempotency_status
  ir_response_data :: "'d option"

record 'd idem_entry =
  ie_response_body :: "'d option"
  ie_request_body_hash :: "string option"
  ie_created_at :: string

definition idem_cache_key :: "idem_settings \<Rightarrow> string \<Rightarrow> string \<Rightarrow> string" where
  "idem_cache_key S org key = idem_prefix S @ org @ '':'' @ key"

definition check_idempotency_key ::
  "'s redis \<Rightarrow> idem_settings \<Rightarrow> (string \<Rightarrow> 'd idem_entry option) \<Rightarrow> string \<Rightarrow> string \<Rightarrow> string
   \<Rightarrow> ('s, 'd idempotency_result) sx" where
  "check_idempotency_key R S loads key body_hash org =
     (if py_len key > max_key_length then sx_raise ValueError
      else sx_bind (redis_get R (idem_cache_key S org key)) (\<lambda>cached.
        case cached of
          None \<Rightarrow> sx_return \<lparr>ir_status = NEW, ir_response_data = None\<rparr>
        | Some (Txt txt') \<Rightarrow>
            (case loads txt' of
               None \<Rightarrow> sx_return \<lparr>ir_status = NEW, ir_response_data = None\<rparr>
             | Some en \<Rightarrow>
                 if ie_request_body_hash en \<noteq> None \<and> ie_request_body_hash en \<noteq> Some body_hash
                 then sx_return \<lparr>ir_status = CONFLICT, ir_response_data = None\<rparr>
                 else sx_return \<lparr>ir_status = REPLAY, ir_response_data = ie_response_body en\<rparr>)
        | Some _ \<Rightarrow> sx_raise TypeError))"

definition store_idempotency_key ::
  "'s redis \<Rightarrow> idem_settings \<Rightarrow> ('d idem_entry \<Rightarrow> string) \<Rightarrow> string \<Rightarrow> string \<Rightarrow> string \<Rightarrow> 'd \<Rightarrow> string
   \<Rightarrow> ('s, unit) sx" where
  "store_idempotency_key R S dumps created_at key body_hash response_data org =
     redis_setex R (idem_cache_key S org key) (idem_ttl S)
       (Txt (dumps \<lparr>ie_response_body = Some response_data, ie_request_body_hash = Some body_hash,
                    ie_created_at = created_at\<rparr>))"

section \<open>Content level\<close>

text \<open>A message dictionary; \<^const>\<open>None\<close> for metadata and blobs is an absent key.\<close>

record 'j message =
  msg_role :: "string option"
  msg_content :: "string option"
  msg_metadata :: "'j option"
  msg_blobs :: "'j option"

record 'j canonical =
  can_org_id :: string
  can_user_id :: string
  can_session_id :: string
  can_messages :: "'j message list"

definition compute_content_hash ::
  "('j canonical \<Rightarrow> string) \<Rightarrow> string \<Rightarrow> string \<Rightarrow> string \<Rightarrow> 'j message list \<Rightarrow> string" where
  "compute_content_hash digest org usr session messages =
     digest \<lparr>can_org_id = org, can_user_id = usr, can_session_id = session, can_messages = messages\<rparr>"

definition content_key :: "idem_settings \<Rightarrow> string \<Rightarrow> string" where
  "content_key S content_hash = content_prefix S @ content_hash"

definition check_content_hash ::
  "'s redis \<Rightarrow> idem_settings \<Rightarrow> ('j canonical \<Rightarrow> string) \<Rightarrow> string \<Rightarrow> string \<Rightarrow> string \<Rightarrow> 'j message list
   \<Rightarrow> ('s, rval option) sx" where
  "check_content_hash R S digest org usr session messages =
     redis_get R (content_key S (compute_content_hash digest org usr session messages))"

definition store_content_hash ::
  "'s redis \<Rightarrow> idem_settings \<Rightarrow> ('j canonical \<Rightarrow> string) \<Rightarrow> string \<Rightarrow> string \<Rightarrow> string \<Rightarrow> 'j message list
   \<Rightarrow> string option \<Rightarrow> ('s, string) sx" where
  "store_content_hash R S digest org usr session messages payload =
     (let content_hash = compute_content_hash digest org usr session messages;
          value = (case payload of Some p \<Rightarrow> p | None \<Rightarrow> content_hash)
      in sx_bind (redis_set_nx R (content_key S content_hash) (Txt value) (idem_ttl S)) (\<lambda>_. sx_return content_hash))"

record content_hash_claim =
  won :: bool
  winner :: string

text \<open>The reply \<^verbatim>\<open>{flag, payload}\<close> of the script; the payload was stored as text.\<close>

definition claim_reply :: "bool \<Rightarrow> rval option \<Rightarrow> ('s, content_hash_claim) sx" where
  "claim_reply w v = (case v of Some (Txt p) \<Rightarrow> sx_return \<lparr>won = w, winner = p\<rparr> | _ \<Rightarrow> sx_raise TypeError)"

definition claim_script :: "'s redis \<Rightarrow> string \<Rightarrow> string \<Rightarrow> nat \<Rightarrow> ('s, content_hash_claim) sx" where
  "claim_script R key payload ttl =
     sx_bind (redis_get R key) (\<lambda>existing.
       case existing of
         Some v \<Rightarrow> claim_reply False (Some v)
       | None \<Rightarrow> sx_bind (redis_set_nx R key (Txt payload) ttl) (\<lambda>ok.
           if ok then claim_reply True (Some (Txt payload))
           else sx_bind (redis_get R key) (claim_reply False)))"

definition claim_content_hash ::
  "'s redis \<Rightarrow> idem_settings \<Rightarrow> ('j canonical \<Rightarrow> string) \<Rightarrow> string \<Rightarrow> string \<Rightarrow> string \<Rightarrow> 'j message list
   \<Rightarrow> string \<Rightarrow> ('s, content_hash_claim) sx" where
  "claim_content_hash R S digest org usr session messages payload =
     claim_script R (content_key S (compute_content_hash digest org usr session messages)) payload (idem_ttl S)"

definition release_content_hash ::
  "'s redis \<Rightarrow> idem_settings \<Rightarrow> ('j canonical \<Rightarrow> string) \<Rightarrow> string \<Rightarrow> string \<Rightarrow> string \<Rightarrow> 'j message list
   \<Rightarrow> ('s, unit) sx" where
  "release_content_hash R S digest org usr session messages s =
     (Inr (), snd (redis_delete R [content_key S (compute_content_hash digest org usr session messages)] s))"

section \<open>Worker level\<close>

record episode =
  ep_id :: uuid
  ep_enrichment_status :: int
  ep_is_deleted :: bool

definition ENRICHMENT_ENTITIES :: int where "ENRICHMENT_ENTITIES = push_bit 0 1"
definition ENRICHMENT_EMBEDDING :: int where "ENRICHMENT_EMBEDDING = push_bit 1 1"
definition ENRICHMENT_FACTS :: int where "ENRICHMENT_FACTS = push_bit 2 1"
definition ENRICHMENT_ENTITY_LINKS :: int where "ENRICHMENT_ENTITY_LINKS = push_bit 3 1"
definition ENRICHMENT_CLASSIFICATION :: int where "ENRICHMENT_CLASSIFICATION = push_bit 4 1"
definition ENRICHMENT_STRUCTURED_EXTRACTION :: int where "ENRICHMENT_STRUCTURED_EXTRACTION = push_bit 5 1"

definition ENRICHMENT_ALL :: int where
  "ENRICHMENT_ALL = ENRICHMENT_ENTITIES OR ENRICHMENT_EMBEDDING OR ENRICHMENT_FACTS OR ENRICHMENT_ENTITY_LINKS
     OR ENRICHMENT_CLASSIFICATION OR ENRICHMENT_STRUCTURED_EXTRACTION"

definition get_by_id_for_update :: "uuid \<Rightarrow> episode list \<Rightarrow> episode option" where
  "get_by_id_for_update i eps = List.find (\<lambda>e. ep_id e = i \<and> \<not> ep_is_deleted e) eps"

definition apply_enrichment_bits :: "uuid \<Rightarrow> int \<Rightarrow> episode list \<Rightarrow> episode list" where
  "apply_enrichment_bits i bitmask eps =
     map (\<lambda>e. if ep_id e = i \<and> \<not> ep_is_deleted e
              then e\<lparr>ep_enrichment_status := ep_enrichment_status e OR bitmask\<rparr> else e) eps"

definition update_enrichment_status :: "uuid \<Rightarrow> int \<Rightarrow> episode list \<Rightarrow> episode list" where
  "update_enrichment_status i bitmask eps =
     map (\<lambda>e. if ep_id e = i \<and> \<not> ep_is_deleted e then e\<lparr>ep_enrichment_status := bitmask\<rparr> else e) eps"

definition check_and_mark_worker :: "uuid \<Rightarrow> int \<Rightarrow> episode list \<Rightarrow> (bool \<times> episode list) res" where
  "check_and_mark_worker episode_id task_bit eps =
     (case get_by_id_for_update episode_id eps of
        None \<Rightarrow> Inl ValueError
      | Some ep \<Rightarrow>
          if ep_enrichment_status ep AND task_bit \<noteq> 0 then Inr (False, eps)
          else Inr (True, apply_enrichment_bits episode_id task_bit eps))"

section \<open>Claims\<close>

text \<open>Several submissions of one content, each followed by some time.\<close>

fun run_claims :: "'s redis \<Rightarrow> nat \<Rightarrow> string \<Rightarrow> (string \<times> nat) list \<Rightarrow> 's \<Rightarrow> content_hash_claim res list \<times> 's" where
  "run_claims R ttl key [] s = ([], s)"
| "run_claims R ttl key ((payload, delay) # cs) s =
     (case claim_script R key payload ttl s of (r, t) \<Rightarrow>
        case run_claims R ttl key cs (redis_elapse R delay t) of (rs, u) \<Rightarrow> (r # rs, u))"

context redis_server
begin

lemma claim_script_sim: "sim view (claim_script R key payload ttl) (claim_script mem_redis key payload ttl)"
  unfolding claim_script_def
proof (rule sim_bind[OF get_law])
  have reply: "sim view (claim_reply w v) (claim_reply w v)" for w v
    by (auto simp: claim_reply_def split: option.split rval.split)
  show "sim view
      (case x of None \<Rightarrow> sx_bind (redis_set_nx R key (Txt payload) ttl) (\<lambda>ok.
           if ok then claim_reply True (Some (Txt payload)) else sx_bind (redis_get R key) (claim_reply False))
       | Some v \<Rightarrow> claim_reply False (Some v))
      (case x of None \<Rightarrow> sx_bind (redis_set_nx mem_redis key (Txt payload) ttl) (\<lambda>ok.
           if ok then claim_reply True (Some (Txt payload)) else sx_bind (redis_get mem_redis key) (claim_reply False))
       | Some v \<Rightarrow> claim_reply False (Some v))" for x
    using reply by (cases x) (auto intro!: sim_bind sim_if get_law set_nx_law simp del: mem_redis_simps)
qed

lemma run_claims_mem:
  "run_claims R ttl key cs s = (rs, t) \<Longrightarrow> run_claims mem_redis ttl key cs (view s) = (rs, view t)"
proof (induction cs arbitrary: s t rs)
  case Nil
  then show ?case by simp
next
  case (Cons c cs)
  obtain payload delay where c: "c = (payload, delay)" by fastforce
  obtain r u where u: "claim_script R key payload ttl s = (r, u)" by fastforce
  obtain rs' v where v: "run_claims R ttl key cs (redis_elapse R delay u) = (rs', v)" by fastforce
  have "run_claims mem_redis ttl key cs (redis_elapse mem_redis delay (view u)) = (rs', view v)"
    using Cons.IH[OF v] by (simp only: elapse_law)
  then show ?case using Cons.prems c u v simD[OF claim_script_sim u] by (auto simp del: mem_redis_simps)
qed

end

lemma claim_script_mem:
  "st key = None \<Longrightarrow> ttl > 0 \<Longrightarrow> claim_script mem_redis key payload ttl st
     = (Inr \<lparr>won = True, winner = payload\<rparr>, st(key \<mapsto> (Txt payload, Some (1000 * ttl))))"
  "st key = Some (Txt p, l) \<Longrightarrow> claim_script mem_redis key payload ttl st = (Inr \<lparr>won = False, winner = p\<rparr>, st)"
  by (simp_all add: claim_script_def sx_bind_def st_get_def st_set_nx_def claim_reply_def sx_return_def)

lemma losers_replay:
  "st key = Some (Txt p, Some l) \<Longrightarrow> sum_list (map snd cs) < l \<Longrightarrow>
   fst (run_claims mem_redis ttl key cs st) = map (\<lambda>_. Inr \<lparr>won = False, winner = p\<rparr>) cs"
proof (induction cs arbitrary: st l)
  case Nil
  then show ?case by simp
next
  case (Cons c cs)
  obtain payload delay where c: "c = (payload, delay)" by fastforce
  have "st_elapse delay st key = Some (Txt p, Some (l - delay))" using Cons.prems c by (simp add: st_elapse_def)
  moreover have "sum_list (map snd cs) < l - delay" using Cons.prems c by simp
  ultimately have "fst (run_claims mem_redis ttl key cs (st_elapse delay st)) = map (\<lambda>_. Inr \<lparr>won = False, winner = p\<rparr>) cs"
    by (rule Cons.IH)
  then show ?case using claim_script_mem(2)[of st key p "Some l" payload ttl] Cons.prems(1)
    by (auto simp: c split: prod.split)
qed

text \<open>
  C11: the content claim has exactly one winner. Whatever identical submissions arrive one after
  the other while the key lives, the first one wins with its own payload and every other one
  is told that payload.
\<close>

theorem content_claim_one_winner:
  assumes "redis_server R view" and "view s key = None" and "0 < ttl"
    and "delay + sum_list (map snd cs) < 1000 * ttl"
  shows "fst (run_claims R ttl key ((payload, delay) # cs) s)
         = Inr \<lparr>won = True, winner = payload\<rparr> # map (\<lambda>_. Inr \<lparr>won = False, winner = payload\<rparr>) cs"
proof -
  let ?st = "(view s)(key \<mapsto> (Txt payload, Some (1000 * ttl)))"
  have "st_elapse delay ?st key = Some (Txt payload, Some (1000 * ttl - delay))"
    using assms(4) by (simp add: st_elapse_def)
  then have "fst (run_claims mem_redis ttl key cs (st_elapse delay ?st)) = map (\<lambda>_. Inr \<lparr>won = False, winner = payload\<rparr>) cs"
    using losers_replay assms(4) by auto
  then have "fst (run_claims mem_redis ttl key ((payload, delay) # cs) (view s))
      = Inr \<lparr>won = True, winner = payload\<rparr> # map (\<lambda>_. Inr \<lparr>won = False, winner = payload\<rparr>) cs"
    using claim_script_mem(1)[of "view s" key ttl payload] assms(2,3) by (auto split: prod.split)
  then show ?thesis
    using redis_server.run_claims_mem[OF assms(1)] by (metis fst_conv prod.collapse)
qed

theorem content_claim_one_winner_witness:
  "fst (run_claims counting_redis 10 ''k'' [(''a'', 5), (''b'', 7), (''a'', 1)] (\<lambda>_. None, 0))
     = [Inr \<lparr>won = True, winner = ''a''\<rparr>, Inr \<lparr>won = False, winner = ''a''\<rparr>, Inr \<lparr>won = False, winner = ''a''\<rparr>]"
  using content_claim_one_winner[OF counting.redis_server_axioms, of "(\<lambda>_. None, 0)" "''k''" 10 5 "[(''b'', 7), (''a'', 1)]" "''a''"]
  by simp

section \<open>Idempotency keys\<close>

lemma check_sim:
  assumes "redis_server R view"
  shows "sim view (check_idempotency_key R S loads key h org) (check_idempotency_key mem_redis S loads key h org)"
  unfolding check_idempotency_key_def
  by (intro sim_if sim_raise sim_bind redis_server.get_law[OF assms])
    (auto split: option.split rval.split)

lemma store_sim:
  "redis_server R view \<Longrightarrow>
   sim view (store_idempotency_key R S dumps t key h d org) (store_idempotency_key mem_redis S dumps t key h d org)"
  unfolding store_idempotency_key_def by (rule redis_server.setex_law)

lemma idem_cache_key_inj:
  assumes "CHR '':'' \<notin> set org" "CHR '':'' \<notin> set org'" and "idem_cache_key S org key = idem_cache_key S org' key'"
  shows "org = org' \<and> key = key'"
proof -
  have "org @ CHR '':'' # key = org' @ CHR '':'' # key'" using assms(3) by (simp add: idem_cache_key_def)
  then show ?thesis by (metis assms(1,2) py_partition_found Pair_inject)
qed

text \<open>
  Idempotency keys are sound and belong to one tenant. After a response was stored, the same
  key replays it for the same body and reports a conflict for another body, until the entry
  expires; a check by another organization (whose id has no colon in it, as no UUID has)
  with any key answers as if nothing had been stored.
\<close>

theorem idempotency_key_replay_and_isolation:
  assumes "redis_server R view" and "\<And>en. loads (dumps en) = Some en"
    and "store_idempotency_key R S dumps created_at key h d org s = (Inr (), t)" and "ms < 1000 * idem_ttl S"
    and "py_len key \<le> max_key_length"
    and "CHR '':'' \<notin> set org" "CHR '':'' \<notin> set org'" "org \<noteq> org'"
  shows "fst (check_idempotency_key R S loads key h' org (redis_elapse R ms t))
      = Inr (if h' = h then \<lparr>ir_status = REPLAY, ir_response_data = Some d\<rparr> else \<lparr>ir_status = CONFLICT, ir_response_data = None\<rparr>)
    \<and> fst (check_idempotency_key R S loads key' h' org' (redis_elapse R ms t))
      = fst (check_idempotency_key R S loads key' h' org' (redis_elapse R ms s))"
proof -
  let ?e = "\<lparr>ie_response_body = Some d, ie_request_body_hash = Some h, ie_created_at = created_at\<rparr>"
  have ttl: "0 < idem_ttl S" using assms(4) by (cases "idem_ttl S") auto
  have vt: "view t = (view s)(idem_cache_key S org key \<mapsto> (Txt (dumps ?e), Some (1000 * idem_ttl S)))"
    using simD[OF store_sim[OF assms(1)] assms(3)] ttl by (simp add: store_idempotency_key_def st_setex_def split: if_splits)
  have run: "fst (check_idempotency_key R S loads k b o' (redis_elapse R ms u))
      = fst (check_idempotency_key mem_redis S loads k b o' (st_elapse ms (view u)))" for k b o' u
    using simD[OF check_sim[OF assms(1)]] redis_server.elapse_law[OF assms(1)]
    by (metis (no_types, opaque_lifting) mem_redis_simps(14) prod.collapse fst_conv)
  have "st_elapse ms (view t) (idem_cache_key S org key) = Some (Txt (dumps ?e), Some (1000 * idem_ttl S - ms))"
    using assms(4) by (simp add: vt st_elapse_def)
  moreover have "st_elapse ms (view t) (idem_cache_key S org' key') = st_elapse ms (view s) (idem_cache_key S org' key')"
  proof -
    have "idem_cache_key S org' key' \<noteq> idem_cache_key S org key" using idem_cache_key_inj assms(6-8) by metis
    then show ?thesis by (simp add: vt st_elapse_def)
  qed
  ultimately show ?thesis unfolding run
    using assms(2,5) by (auto simp: check_idempotency_key_def sx_bind_def sx_return_def sx_raise_def st_get_def
        split: option.split rval.split)
qed

definition sample_settings :: idem_settings where
  "sample_settings = \<lparr>idem_env = ''dev'', idem_ttl = 172800\<rparr>"

text \<open>A serialization of entries with textual responses: each character is escaped, fields end in a dot.\<close>

definition enc :: "string \<Rightarrow> string" where
  "enc s = concat (map (\<lambda>c. [CHR ''x'', c]) s) @ ''.''"

fun dec :: "string \<Rightarrow> string \<times> string" where
  "dec [] = ([], [])"
| "dec [a] = ([], [])"
| "dec (a # c # r) = (if a = CHR ''x'' then (case dec r of (s, t) \<Rightarrow> (c # s, t)) else ([], c # r))"

definition enc_opt :: "string option \<Rightarrow> string" where
  "enc_opt x = (case x of None \<Rightarrow> ''n'' | Some s \<Rightarrow> CHR ''s'' # enc s)"

definition dec_opt :: "string \<Rightarrow> string option \<times> string" where
  "dec_opt t = (if t \<noteq> [] \<and> hd t = CHR ''s'' then (case dec (tl t) of (s, r) \<Rightarrow> (Some s, r)) else (None, tl t))"

definition sample_dumps :: "string idem_entry \<Rightarrow> string" where
  "sample_dumps en = enc_opt (ie_response_body en) @ enc_opt (ie_request_body_hash en) @ enc (ie_created_at en)"

definition sample_loads :: "string \<Rightarrow> string idem_entry option" where
  "sample_loads t =
     (case dec_opt t of (b, t1) \<Rightarrow> case dec_opt t1 of (h, t2) \<Rightarrow>
        Some \<lparr>ie_response_body = b, ie_request_body_hash = h, ie_created_at = fst (dec t2)\<rparr>)"

lemma dec_enc: "dec (enc s @ t) = (s, t)"
proof (induction s)
  case Nil
  then show ?case by (cases t) (simp_all add: enc_def)
next
  case (Cons c s)
  then show ?case by (simp add: enc_def)
qed

lemma dec_opt_enc: "dec_opt (enc_opt x @ t) = (x, t)"
  by (cases x) (simp_all add: dec_opt_def enc_opt_def dec_enc)

lemma sample_loads_dumps: "sample_loads (sample_dumps en) = Some en"
  using dec_enc[of "ie_created_at en" "[]"] by (simp add: sample_loads_def sample_dumps_def dec_opt_enc)

theorem idempotency_key_replay_and_isolation_witness:
  "\<exists>t. store_idempotency_key mem_redis sample_settings sample_dumps ''now'' ''k'' ''h'' ''resp'' ''org1'' (\<lambda>_. None) = (Inr (), t)
     \<and> fst (check_idempotency_key mem_redis sample_settings sample_loads ''k'' ''h'' ''org1'' (redis_elapse mem_redis 5 t))
         = Inr \<lparr>ir_status = REPLAY, ir_response_data = Some ''resp''\<rparr>
     \<and> fst (check_idempotency_key mem_redis sample_settings sample_loads ''k'' ''h'' ''org2'' (redis_elapse mem_redis 5 t))
         = fst (check_idempotency_key mem_redis sample_settings sample_loads ''k'' ''h'' ''org2'' (redis_elapse mem_redis 5 (\<lambda>_. None)))"
proof -
  obtain t where t: "store_idempotency_key mem_redis sample_settings sample_dumps ''now'' ''k'' ''h'' ''resp'' ''org1'' (\<lambda>_. None) = (Inr (), t)"
    by (simp add: store_idempotency_key_def st_setex_def sample_settings_def)
  have len: "py_len ''k'' \<le> max_key_length" by code_simp
  show ?thesis
    using idempotency_key_replay_and_isolation[OF mem.redis_server_axioms sample_loads_dumps t _ len, of 5 "''org2''" "''h''" "''k''"] t
    by (simp add: sample_settings_def)
qed

section \<open>Worker bits\<close>

lemma find_map_same:
  assumes "\<And>x. P (g x) = P x"
  shows "List.find P (map g xs) = map_option g (List.find P xs)"
  using assms by (induction xs) auto

lemma get_apply_bits:
  "get_by_id_for_update j (apply_enrichment_bits i b eps) =
     map_option (\<lambda>e. if j = i then e\<lparr>ep_enrichment_status := ep_enrichment_status e OR b\<rparr> else e) (get_by_id_for_update j eps)"
proof -
  let ?g = "\<lambda>e. if ep_id e = i \<and> \<not> ep_is_deleted e then e\<lparr>ep_enrichment_status := ep_enrichment_status e OR b\<rparr> else e"
  have "get_by_id_for_update j (apply_enrichment_bits i b eps) = map_option ?g (get_by_id_for_update j eps)"
    unfolding get_by_id_for_update_def apply_enrichment_bits_def by (rule find_map_same) simp
  also have "\<dots> = map_option (\<lambda>e. if j = i then e\<lparr>ep_enrichment_status := ep_enrichment_status e OR b\<rparr> else e) (get_by_id_for_update j eps)"
    by (rule option.map_cong0) (auto simp: get_by_id_for_update_def find_Some_iff)
  finally show ?thesis .
qed

lemma task_bit_set: "(s AND push_bit n 1 \<noteq> 0) = bit (s :: int) n"
  by (rule bit_iff_and_push_bit_not_eq_0[symmetric])

text \<open>The workers' claims, one after the other, on any episodes and task bits.\<close>

fun run_marks :: "(uuid \<times> nat) list \<Rightarrow> episode list \<Rightarrow> bool res list" where
  "run_marks [] eps = []"
| "run_marks ((i, n) # ms) eps =
     (case check_and_mark_worker i (push_bit n 1) eps of
        Inl x \<Rightarrow> Inl x # run_marks ms eps
      | Inr (b, eps') \<Rightarrow> Inr b # run_marks ms eps')"

lemma bit_done:
  assumes "get_by_id_for_update i eps = Some e" and "bit (ep_enrichment_status e) n"
  shows "(k < length ms \<and> ms ! k = (i, n)) \<Longrightarrow> run_marks ms eps ! k = Inr False"
  using assms
proof (induction ms arbitrary: eps e k)
  case Nil
  then show ?case by simp
next
  case (Cons m ms)
  obtain j l where m: "m = (j, l)" by fastforce
  show ?case
  proof (cases k)
    case 0
    then have "m = (i, n)" using Cons.prems(1) by simp
    then show ?thesis using Cons.prems(2,3) 0 task_bit_set[of "ep_enrichment_status e" n] by (simp add: check_and_mark_worker_def)
  next
    case (Suc k')
    then have k': "k' < length ms \<and> ms ! k' = (i, n)" using Cons.prems(1) by simp
    show ?thesis
    proof (cases "check_and_mark_worker j (push_bit l 1) eps")
      case (Inl x)
      then show ?thesis using Cons.IH[OF k' Cons.prems(2,3)] m Suc by simp
    next
      case (Inr r)
      obtain b eps' where r: "r = (b, eps')" by fastforce
      then have "eps' = eps \<or> eps' = apply_enrichment_bits j (push_bit l 1) eps"
        using Inr by (auto simp: check_and_mark_worker_def split: option.splits if_splits)
      then obtain e' where "get_by_id_for_update i eps' = Some e'" "bit (ep_enrichment_status e') n"
        using Cons.prems(2,3) by (auto simp: get_apply_bits bit_or_iff)
      then show ?thesis using Cons.IH[OF k'] m Suc Inr r by simp
    qed
  qed
qed

text \<open>
  An enrichment step runs once. Among any sequence of claims by the workers, on any
  episodes and bits, a claim of an (episode, bit) pair that comes after one that was granted
  is refused.
\<close>

theorem enrichment_claimed_once:
  assumes "a < b" "b < length ms" "ms ! a = ms ! b" and "run_marks ms eps ! a = Inr True"
  shows "run_marks ms eps ! b = Inr False"
  using assms
proof (induction ms arbitrary: eps a b)
  case Nil
  then show ?case by simp
next
  case (Cons m ms)
  obtain i n where m: "m = (i, n)" by fastforce
  obtain b' where b': "b = Suc b'" using Cons.prems(1) by (cases b) auto
  show ?case
  proof (cases a)
    case 0
    then obtain eps' where c: "check_and_mark_worker i (push_bit n 1) eps = Inr (True, eps')"
      using Cons.prems(4) m by (auto split: sum.splits)
    then obtain e where "get_by_id_for_update i eps' = Some e" "bit (ep_enrichment_status e) n"
      by (auto simp: check_and_mark_worker_def get_apply_bits bit_or_iff bit_exp_iff split: option.splits if_splits)
    moreover have "b' < length ms \<and> ms ! b' = (i, n)" using Cons.prems(2,3) 0 b' m by simp
    ultimately show ?thesis using bit_done[of i eps' e n b' ms] c m b' by simp
  next
    case (Suc a')
    show ?thesis
    proof (cases "check_and_mark_worker i (push_bit n 1) eps")
      case (Inl x)
      then show ?thesis using Cons.IH[of a' b' eps] Cons.prems m Suc b' by simp
    next
      case (Inr r)
      then show ?thesis using Cons.IH[of a' b' "snd r"] Cons.prems m Suc b' by (cases r) simp
    qed
  qed
qed

theorem enrichment_claimed_once_witness:
  "run_marks [(1, 2), (1, 0), (1, 2)] [\<lparr>ep_id = 1, ep_enrichment_status = 0, ep_is_deleted = False\<rparr>] ! 2 = Inr False"
  by (rule enrichment_claimed_once[of 0 2]) (simp, simp, simp, code_simp)

end
