(* ===== verification/Fact_Service.thy ===== *)
theory Fact_Service
  imports Supersession_Spec Idempotency
begin

text \<open>
  The fact API: \<^verbatim>\<open>services/fact_service.py\<close> (ingestion behind the content claim, retraction, lineage),
  \<^verbatim>\<open>services/facts/llm_invalidation.py\<close> and the session lookup of
  \<^verbatim>\<open>repositories/session_repository.py\<close>.

  In \<^verbatim>\<open>apply_llm_invalidations\<close> the candidates are objects loaded before the call: the model keeps
  them apart from the rows, since an update by another transaction does not reach them. An
  update this session makes does reach them.
\<close>

section \<open>LLM-driven invalidation\<close>

record invalidation =
  v_existing_fact_ref :: "string option"
  v_successor_fact_ref :: "string option"
  v_reason :: "string option"

record llm_result =
  closed_count :: nat
  llm_skipped_count :: nat

record llm_state =
  l_db :: fact_db
  l_closed :: "uuid list" \<comment> \<open>objects this session has updated\<close>
  l_closed_count :: nat
  l_skipped_count :: nat
  l_events :: "supersession_event list"
  l_reasons :: "uuid \<rightharpoonup> string option"

definition invalidation_resolves ::
  "(string \<rightharpoonup> fact) \<Rightarrow> (string \<rightharpoonup> fact option) \<Rightarrow> invalidation \<Rightarrow> bool" where
  "invalidation_resolves ref_to_fact successor_by_ref v \<longleftrightarrow>
     (case v_existing_fact_ref v of None \<Rightarrow> False | Some r \<Rightarrow> ref_to_fact r \<noteq> None)
     \<and> (case v_successor_fact_ref v of None \<Rightarrow> True | Some r \<Rightarrow> successor_by_ref r \<noteq> None)"

definition target :: "(string \<rightharpoonup> fact) \<Rightarrow> invalidation \<Rightarrow> fact" where
  "target ref_to_fact v = the (ref_to_fact (the (v_existing_fact_ref v)))"

definition invalidation_lock_key :: "uuid \<Rightarrow> uuid \<Rightarrow> uuid \<Rightarrow> string" where
  "invalidation_lock_key org proj i = ''inv:'' @ uuid_str org @ '':'' @ uuid_str proj @ '':'' @ uuid_str i"

text \<open>\<^verbatim>\<open>x or None\<close> on an optional text.\<close>

definition or_none :: "string option \<Rightarrow> string option" where
  "or_none x = (if x = Some [] then None else x)"

definition successor_of :: "(string \<rightharpoonup> fact option) \<Rightarrow> invalidation \<Rightarrow> fact option" where
  "successor_of successor_by_ref v =
     (case or_none (v_successor_fact_ref v) of None \<Rightarrow> None | Some r \<Rightarrow> the (successor_by_ref r))"

definition llm_step ::
  "pg \<Rightarrow> uuid \<Rightarrow> uuid \<Rightarrow> (string \<rightharpoonup> fact) \<Rightarrow> (string \<rightharpoonup> fact option) \<Rightarrow> datetime \<Rightarrow> invalidation \<Rightarrow> llm_state
   \<Rightarrow> llm_state res" where
  "llm_step P org proj ref_to_fact successor_by_ref now v s =
     (let old = target ref_to_fact v in
      if f_valid_to old \<noteq> None \<or> f_invalid_at old \<noteq> None \<or> f_id old \<in> set (l_closed s)
      then Inr (s\<lparr>l_skipped_count := Suc (l_skipped_count s)\<rparr>)
      else let successor = successor_of successor_by_ref v; new_id = map_option f_id successor in
        exc_bind (set_valid_to (f_id old) now (l_db s)) (\<lambda>db1.
        exc_bind (record_invalidation_event P org proj (f_id old) new_id ''llm_invalidated'' (or_none (v_reason v)) now None
                    (set_superseded_by P (f_id old) new_id db1)) (\<lambda>db2.
          Inr (s\<lparr>l_db := db2, l_closed := f_id old # l_closed s, l_closed_count := Suc (l_closed_count s),
                 l_reasons := (l_reasons s)(f_id old \<mapsto> or_none (v_reason v)),
                 l_events := l_events s @ [make_supersession_event old successor
                    (or_empty (f_subject old), or_empty (f_predicate old), or_empty (f_object old))]\<rparr>))))"

definition llm_effects :: "uuid \<Rightarrow> uuid \<Rightarrow> datetime \<Rightarrow> llm_state \<Rightarrow> invalidation_service \<Rightarrow> effect list" where
  "llm_effects org proj now s svc =
     (if l_closed_count s > 0
      then IncInvalidated (l_closed_count s) # (if has_cache_service svc then [PurgeProjectContext org proj] else [])
      else [])
     @ (if l_events s \<noteq> [] \<and> has_webhook_service svc
        then map (\<lambda>e. Webhook org proj (old_fact_id e) (new_fact_id e) (triple e) FACT_INVALIDATED
                        (case l_reasons s (old_fact_id e) of None \<Rightarrow> None | Some r \<Rightarrow> r)) (l_events s)
        else [])
     @ (if l_events s \<noteq> [] \<and> has_graph_sync svc then [GraphSync org proj (l_events s) now] else [])"

definition apply_llm_invalidations ::
  "pg \<Rightarrow> uuid \<Rightarrow> uuid \<Rightarrow> invalidation list \<Rightarrow> (string \<rightharpoonup> fact) \<Rightarrow> (string \<rightharpoonup> fact option) \<Rightarrow> datetime option
   \<Rightarrow> fact_db \<times> invalidation_service \<Rightarrow> (llm_result \<times> fact_db \<times> invalidation_service) res" where
  "apply_llm_invalidations P org proj invalidations ref_to_fact successor_by_ref at_time s =
     (case s of (db, svc) \<Rightarrow>
      let now = (case at_time of None \<Rightarrow> utcnow P | Some t \<Rightarrow> t) in
      if invalidations = [] then Inr (\<lparr>closed_count = 0, llm_skipped_count = 0\<rparr>, db, svc)
      else if \<not> list_all (invalidation_resolves ref_to_fact successor_by_ref) invalidations then Inl ValidationError
      else let lock_keys = sort (map (invalidation_lock_key org proj)
                    (remdups (map (f_id \<circ> target ref_to_fact) invalidations)));
               db0 = lock_conflict_identities lock_keys db
           in exc_bind (exc_fold (llm_step P org proj ref_to_fact successor_by_ref now) invalidations
                          \<lparr>l_db = db0, l_closed = [], l_closed_count = 0, l_skipped_count = 0, l_events = [],
                           l_reasons = Map.empty\<rparr>)
                (\<lambda>t. Inr (\<lparr>closed_count = l_closed_count t, llm_skipped_count = l_skipped_count t\<rparr>, l_db t,
                          fold queue_post_commit_effect (llm_effects org proj now t svc) svc)))"

definition notify_retraction :: "uuid \<Rightarrow> uuid \<Rightarrow> fact \<Rightarrow> datetime \<Rightarrow> invalidation_service \<Rightarrow> invalidation_service" where
  "notify_retraction org proj old_fact at_time svc =
     (let ev = make_supersession_event old_fact None ([], [], [])
      in fold queue_post_commit_effect
           ((if has_graph_sync svc then [GraphSync org proj [ev] at_time] else [])
            @ (if has_webhook_service svc
               then [Webhook org proj (old_fact_id ev) None
                       (or_empty (f_subject old_fact), or_empty (f_predicate old_fact), or_empty (f_object old_fact))
                       FACT_RETRACTED None]
               else [])
            @ (if has_cache_service svc then [PurgeProjectContext org proj] else [])
            @ [IncRetracted 1]) svc)"

section \<open>Retraction and lineage\<close>

text \<open>Whether an edge-sync service is built: a resolver that raises, or finds no backend, gives none.\<close>

definition resolve_graph_sync :: "(uuid \<Rightarrow> backend option res) option \<Rightarrow> uuid \<Rightarrow> backend option" where
  "resolve_graph_sync resolver org =
     (case resolver of
        None \<Rightarrow> None
      | Some f \<Rightarrow> (case f org of Inl _ \<Rightarrow> None | Inr b \<Rightarrow> b))"

record fact_service =
  fs_has_webhook :: bool
  fs_has_redis :: bool
  fs_resolver :: "(uuid \<Rightarrow> backend option res) option"

definition invalidation_service_for :: "fact_service \<Rightarrow> uuid \<Rightarrow> invalidation_service" where
  "invalidation_service_for F org =
     new_service (fs_has_webhook F) (fs_has_redis F) (resolve_graph_sync (fs_resolver F) org \<noteq> None)"

definition retract_fact ::
  "pg \<Rightarrow> fact_service \<Rightarrow> uuid \<Rightarrow> uuid \<Rightarrow> uuid \<Rightarrow> string option \<Rightarrow> datetime option \<Rightarrow> fact_db
   \<Rightarrow> (fact \<times> fact_db \<times> invalidation_service option) res" where
  "retract_fact P F fact_id org proj reason at_time db =
     (let now = (case at_time of None \<Rightarrow> utcnow P | Some t \<Rightarrow> t) in
      case get_by_id fact_id (Some org) db of
        None \<Rightarrow> Inl NotFoundError
      | Some f \<Rightarrow>
          if f_project_id f \<noteq> proj then Inl NotFoundError
          else if f_invalid_at f \<noteq> None \<or> f_valid_to f \<noteq> None then Inr (f, db, None)
          else let db0 = lock_conflict_identities
                     [lock_key_for_identity (f_organization_id f) (f_project_id f) (name_identity_of_fact f)] db
               in exc_bind (set_invalid_at (f_id f) now db0) (\<lambda>db1.
                  case get_by_id (f_id f) None db1 of
                    None \<Rightarrow> Inl NotFoundError
                  | Some f' \<Rightarrow>
                      exc_bind (record_invalidation_event P (f_organization_id f') (f_project_id f') (f_id f') None
                                  ''retracted'' reason now None db1) (\<lambda>db2.
                        Inr (f', db2, Some (notify_retraction (f_organization_id f') (f_project_id f') f' now
                                              (invalidation_service_for F (f_organization_id f')))))))"

definition get_fact_history ::
  "pg \<Rightarrow> uuid \<Rightarrow> uuid \<Rightarrow> uuid \<Rightarrow> nat \<Rightarrow> nat \<Rightarrow> sort_spec option \<Rightarrow> fact_db \<Rightarrow> (fact \<times> inv_event list) res" where
  "get_fact_history P fact_id org proj limit offset srt db =
     (case get_by_id fact_id (Some org) db of
        None \<Rightarrow> Inl NotFoundError
      | Some f \<Rightarrow>
          if f_project_id f \<noteq> proj then Inl NotFoundError
          else exc_bind (Fact_Repository.get_fact_history P fact_id (Some org) limit offset srt db)
                 (\<lambda>evs. Inr (f, evs)))"

section \<open>Ingestion\<close>

record fact_triple =
  ft_subject :: string
  ft_predicate :: string
  ft_object :: string
  ft_content :: "string option"
  ft_confidence :: rat

text \<open>\<^verbatim>\<open>model_dump()\<close> of a triple, seen by the content hash: it has no role, metadata or blobs.\<close>

definition as_message :: "fact_triple \<Rightarrow> 'j message" where
  "as_message f = \<lparr>msg_role = None, msg_content = ft_content f, msg_metadata = None, msg_blobs = None\<rparr>"

definition as_fact_in :: "fact_triple \<Rightarrow> fact_in" where
  "as_fact_in f =
     \<lparr>i_subject = Some (ft_subject f), i_predicate = Some (ft_predicate f), i_object = Some (ft_object f),
      i_content = Some (if or_empty (ft_content f) \<noteq> [] then or_empty (ft_content f)
                        else ft_subject f @ '' '' @ ft_predicate f @ '' '' @ ft_object f),
      i_confidence = Some (ft_confidence f), i_subject_type = None, i_object_type = None,
      i_subject_entity_id = None, i_object_entity_id = None, i_valid_from = BNone, i_valid_to = BNone\<rparr>"

record session_row =
  sess_id :: uuid
  sess_project_id :: uuid
  sess_external_id :: string
  sess_organization_id :: uuid \<comment> \<open>of the session's project\<close>
  sess_is_deleted :: bool

definition get_by_external_id :: "uuid \<Rightarrow> uuid \<Rightarrow> string \<Rightarrow> session_row list \<Rightarrow> session_row option" where
  "get_by_external_id org proj external_id rows =
     List.find (\<lambda>r. sess_project_id r = proj \<and> sess_external_id r = external_id
        \<and> sess_organization_id r = org \<and> \<not> sess_is_deleted r) rows"

record fact_batch_response =
  rsp_job_id :: string
  rsp_accepted_count :: nat
  rsp_superseded_count :: nat

text \<open>
  All enqueues are started at once: each one takes effect or fails on its own, and the first
  failure is raised.
\<close>

fun enqueue_embedding_tasks :: "(string \<Rightarrow> ('q, unit) sx) \<Rightarrow> string list \<Rightarrow> ('q, unit) sx" where
  "enqueue_embedding_tasks enqueue [] q = (Inr (), q)"
| "enqueue_embedding_tasks enqueue (i # is) q =
     (case enqueue i q of (r, q1) \<Rightarrow>
        case enqueue_embedding_tasks enqueue is q1 of (r', q2) \<Rightarrow>
          (case r of Inl e \<Rightarrow> (Inl e, q2) | Inr _ \<Rightarrow> (r', q2)))"

record ('s, 'q) api_state =
  a_redis :: 's
  a_db :: fact_db
  a_queue :: 'q
  a_emitted :: "(uuid \<times> string \<times> nat) list" \<comment> \<open>FACT_EXTRACTED webhooks: organization, job, count\<close>
  a_pending :: "effect list" \<comment> \<open>effects waiting for the commit of this session\<close>

record ('s, 'q, 'j) api_env =
  e_pg :: pg
  e_fromiso :: "string \<Rightarrow> datetime option"
  e_client :: "'s redis"
  e_settings :: idem_settings
  e_digest :: "'j canonical \<Rightarrow> string"
  e_service :: fact_service
  e_sessions :: "session_row list"
  e_enqueue :: "string \<Rightarrow> ('q, unit) sx"

text \<open>The guarded part: what runs while the claim is held.\<close>

definition ingest_claimed ::
  "('s, 'q, 'j) api_env \<Rightarrow> uuid \<Rightarrow> uuid \<Rightarrow> uuid \<Rightarrow> fact_triple list \<Rightarrow> string \<Rightarrow> ('s, 'q) api_state
   \<Rightarrow> (ingestion_result res) \<times> ('s, 'q) api_state" where
  "ingest_claimed E org proj created_by facts' session_external_id st =
     (case get_by_external_id org proj session_external_id (e_sessions E) of
        None \<Rightarrow> (Inl NotFoundError, st)
      | Some _ \<Rightarrow>
          (case ingest_with_supersession (e_pg E) (e_fromiso E) org proj created_by (map as_fact_in facts') None
                  Batch_create None (a_db st, invalidation_service_for (e_service E) org) of
             Inl e \<Rightarrow> (Inl e, st)
           | Inr (result, db', svc') \<Rightarrow>
               (case enqueue_embedding_tasks (e_enqueue E) (map (uuid_str \<circ> f_id) (res_created result)) (a_queue st) of
                  (r, q) \<Rightarrow>
                    (case r of Inl e \<Rightarrow> Inl e | Inr _ \<Rightarrow> Inr result,
                     st\<lparr>a_db := db', a_pending := a_pending st @ pending_effects svc', a_queue := q\<rparr>))))"

definition ingest_facts ::
  "('s, 'q, 'j) api_env \<Rightarrow> string \<Rightarrow> uuid \<Rightarrow> uuid \<Rightarrow> uuid \<Rightarrow> fact_triple list \<Rightarrow> string
   \<Rightarrow> (('s, 'q) api_state, fact_batch_response) sx" where
  "ingest_facts E job_id org proj created_by facts' session_external_id st =
     (if facts' = [] then (Inr \<lparr>rsp_job_id = [], rsp_accepted_count = 0, rsp_superseded_count = 0\<rparr>, st)
      else
        (let msgs = map as_message facts' in
         case claim_content_hash (e_client E) (e_settings E) (e_digest E) (uuid_str org) (uuid_str created_by)
                session_external_id msgs job_id (a_redis st) of
           (Inl e, r) \<Rightarrow> (Inl e, st\<lparr>a_redis := r\<rparr>)
         | (Inr claim, r) \<Rightarrow>
             if \<not> won claim
             then (Inr \<lparr>rsp_job_id = winner claim, rsp_accepted_count = length facts', rsp_superseded_count = 0\<rparr>,
                   st\<lparr>a_redis := r\<rparr>)
             else
               (case ingest_claimed E org proj created_by facts' session_external_id (st\<lparr>a_redis := r\<rparr>) of
                  (Inl e, st') \<Rightarrow>
                    (Inl e, st'\<lparr>a_redis := snd (release_content_hash (e_client E) (e_settings E) (e_digest E)
                       (uuid_str org) (uuid_str created_by) session_external_id msgs (a_redis st'))\<rparr>)
                | (Inr result, st') \<Rightarrow>
                    (Inr \<lparr>rsp_job_id = job_id, rsp_accepted_count = length (res_created result),
                          rsp_superseded_count = res_superseded_count result\<rparr>,
                     if fs_has_webhook (e_service E)
                     then st'\<lparr>a_emitted := a_emitted st' @ [(org, job_id, length (res_created result))]\<rparr>
                     else st'))))"

section \<open>Retraction is scoped and idempotent\<close>

lemma get_by_id_Some:
  assumes "db_ok P db"
  shows "get_by_id i (Some org) db = Some f \<longleftrightarrow> f \<in> set (facts db) \<and> f_id f = i \<and> f_organization_id f = org"
proof
  assume "get_by_id i (Some org) db = Some f"
  then show "f \<in> set (facts db) \<and> f_id f = i \<and> f_organization_id f = org"
    unfolding get_by_id_def by (auto simp: find_Some_iff)
next
  assume f: "f \<in> set (facts db) \<and> f_id f = i \<and> f_organization_id f = org"
  then obtain g where g: "get_by_id i (Some org) db = Some g"
    unfolding get_by_id_def by (cases "List.find (\<lambda>f. f_id f = i \<and> f_organization_id f = org) (facts db)") (auto simp: find_None_iff)
  then have "g \<in> set (facts db)" "f_id g = i" unfolding get_by_id_def by (auto simp: find_Some_iff)
  then have "g = f" using f assms unfolding db_ok_def distinct_map inj_on_def by blast
  then show "get_by_id i (Some org) db = Some f" using g by simp
qed

lemma get_by_id_modified:
  assumes ok: "db_ok P db" and f: "f \<in> set (facts db)" and u: "\<And>g. f_id (u g) = f_id g"
  shows "get_by_id (f_id f) None (modify_fact (f_id f) u db) = Some (u f)"
proof -
  have "List.find (\<lambda>g. f_id g = f_id f) (map (\<lambda>g. if f_id g = f_id f then u g else g) (facts db))
      = map_option (\<lambda>g. if f_id g = f_id f then u g else g) (List.find (\<lambda>g. f_id g = f_id f) (facts db))"
    by (rule find_map_same) (simp add: u)
  moreover have "List.find (\<lambda>g. f_id g = f_id f) (facts db) = Some f"
  proof -
    obtain g where g: "List.find (\<lambda>g. f_id g = f_id f) (facts db) = Some g"
      using f by (cases "List.find (\<lambda>g. f_id g = f_id f) (facts db)") (auto simp: find_None_iff)
    then have "g \<in> set (facts db)" "f_id g = f_id f" by (auto simp: find_Some_iff)
    then have "g = f" using f ok unfolding db_ok_def distinct_map inj_on_def by blast
    then show ?thesis using g by simp
  qed
  ultimately show ?thesis by (simp add: get_by_id_def)
qed

lemma locked_simps [simp]:
  "facts (lock_conflict_identities ks db) = facts db" "inv_events (lock_conflict_identities ks db) = inv_events db"
  "draws (lock_conflict_identities ks db) = draws db"
  by (simp_all add: lock_conflict_identities_def)

lemma db_ok_locked [simp]: "db_ok P (lock_conflict_identities ks db) = db_ok P db"
  by (simp add: db_ok_def)

text \<open>A retraction that returns either finds the row closed or closes exactly that row.\<close>

lemma retract_cases [consumes 2, case_names closed fresh]:
  assumes ok: "db_ok P db" and run: "retract_fact P F i org proj reason at_time db = Inr (f, db', svc)"
  obtains "f \<in> set (facts db)" "f_id f = i" "f_organization_id f = org" "f_project_id f = proj"
      "f_invalid_at f \<noteq> None \<or> f_valid_to f \<noteq> None" "db' = db" "svc = None"
  | g ev s where "g \<in> set (facts db)" "f_id g = i" "f_organization_id g = org" "f_project_id g = proj"
      "f = g\<lparr>f_invalid_at := Some (instant P at_time), f_updated_at := instant P at_time\<rparr>"
      "facts db' = map (\<lambda>x. if f_id x = i then x\<lparr>f_invalid_at := Some (instant P at_time), f_updated_at := instant P at_time\<rparr> else x) (facts db)"
      "inv_events db' = inv_events db @ [ev]" "ev_kind ev = ''retracted''" "ev_old_fact_id ev = Some i" "svc = Some s"
      "draws db' = Suc (draws db)"
proof -
  obtain g where g: "get_by_id i (Some org) db = Some g" and proj: "f_project_id g = proj"
    using run by (auto simp: retract_fact_def Let_def split: option.splits if_splits)
  then have mem: "g \<in> set (facts db)" "f_id g = i" "f_organization_id g = org" using get_by_id_Some[OF ok] by blast+
  show thesis
  proof (cases "f_invalid_at g \<noteq> None \<or> f_valid_to g \<noteq> None")
    case True
    then have "(f, db', svc) = (g, db, None)" using run g proj by (auto simp: retract_fact_def Let_def)
    then show thesis using that(1) mem proj True by simp
  next
    case False
    let ?now = "instant P at_time"
    let ?u = "\<lambda>x. x\<lparr>f_invalid_at := Some ?now, f_updated_at := ?now\<rparr>"
    let ?db0 = "lock_conflict_identities [lock_key_for_identity (f_organization_id g) (f_project_id g) (name_identity_of_fact g)] db"
    have "get_by_id (f_id g) None (modify_fact (f_id g) ?u ?db0) = Some (?u g)"
      by (rule get_by_id_modified[of P]) (use ok mem in simp_all)
    then have "exc_bind (record_invalidation_event P org proj i None ''retracted'' reason ?now None (modify_fact i ?u ?db0))
        (\<lambda>db2. Inr (?u g, db2, Some (notify_retraction org proj (?u g) ?now (invalidation_service_for F org)))) = Inr (f, db', svc)"
      using run g proj False mem set_invalid_at_Inr[of i ?now ?db0]
      unfolding retract_fact_def Let_def instant_def[symmetric] by simp
    then show thesis using that(2)[of g] mem proj
      by (auto simp: exc_bind_Inr_iff record_invalidation_event_def split: if_splits)
  qed
qed

text \<open>
  Retraction does not leak. It answers not-found exactly when no row with that id lies in
  the caller's organization and project, so a fact of another project cannot be told apart
  from one that does not exist.
\<close>

theorem retract_not_found_iff:
  assumes "db_ok P db"
  shows "retract_fact P F i org proj reason at_time db = Inl NotFoundError
    \<longleftrightarrow> \<not> (\<exists>f \<in> set (facts db). f_id f = i \<and> f_organization_id f = org \<and> f_project_id f = proj)"
proof (cases "get_by_id i (Some org) db")
  case None
  then have "\<not> (\<exists>f \<in> set (facts db). f_id f = i \<and> f_organization_id f = org)"
    using get_by_id_Some[OF assms, of i org] by auto
  then show ?thesis using None by (auto simp: retract_fact_def)
next
  case (Some g)
  then have mem: "g \<in> set (facts db)" "f_id g = i" "f_organization_id g = org" using get_by_id_Some[OF assms] by blast+
  then have uniq: "(\<exists>f \<in> set (facts db). f_id f = i \<and> f_organization_id f = org \<and> f_project_id f = proj) \<longleftrightarrow> f_project_id g = proj"
    using assms unfolding db_ok_def distinct_map inj_on_def by blast
  let ?now = "instant P at_time"
  let ?u = "\<lambda>x. x\<lparr>f_invalid_at := Some ?now, f_updated_at := ?now\<rparr>"
  let ?db0 = "lock_conflict_identities [lock_key_for_identity (f_organization_id g) (f_project_id g) (name_identity_of_fact g)] db"
  have "get_by_id (f_id g) None (modify_fact (f_id g) ?u ?db0) = Some (?u g)"
    by (rule get_by_id_modified[of P]) (use assms mem in simp_all)
  then have "retract_fact P F i org proj reason at_time db \<noteq> Inl NotFoundError" if "f_project_id g = proj"
    using that Some mem set_invalid_at_Inr[of i ?now ?db0]
    unfolding retract_fact_def Let_def instant_def[symmetric]
    by (auto simp: exc_bind_Inl_iff record_invalidation_event_def)
  moreover have "retract_fact P F i org proj reason at_time db = Inl NotFoundError" if "f_project_id g \<noteq> proj"
    using that Some by (simp add: retract_fact_def)
  ultimately show ?thesis unfolding uniq by blast
qed

text \<open>
  Retraction is idempotent. Once it has returned a fact, that fact is closed, every other
  row is as it was, at most one event was logged, and retracting again, at any time and for
  any reason, returns the same fact, changes nothing and queues no notification.
\<close>

theorem retract_idempotent:
  assumes "db_ok P db" and "retract_fact P F i org proj reason at_time db = Inr (f, db', svc)"
  shows "(f_invalid_at f \<noteq> None \<or> f_valid_to f \<noteq> None) \<and> f \<in> set (facts db')
    \<and> list_all2 (\<lambda>g g'. f_id g \<noteq> i \<longrightarrow> g' = g) (facts db) (facts db')
    \<and> length (inv_events db') \<le> Suc (length (inv_events db))
    \<and> retract_fact P F i org proj reason' at_time' db' = Inr (f, db', None)"
  using assms
proof (cases rule: retract_cases)
  case closed
  have "get_by_id i (Some org) db' = Some f" using get_by_id_Some[OF assms(1)] closed by blast
  then have "retract_fact P F i org proj reason' at_time' db' = Inr (f, db', None)"
    using closed by (auto simp: retract_fact_def Let_def)
  then show ?thesis using closed by (simp add: list_all2_conv_all_nth)
next
  case (fresh g ev s)
  let ?now = "instant P at_time"
  have ids: "map f_id (facts db') = map f_id (facts db)" unfolding fresh(6) by simp
  have ok': "db_ok P db'"
  proof -
    have "f_id x \<in> gen_random_uuid P ` {..<draws db'}" if x: "x \<in> set (facts db')" for x
    proof -
      have "f_id x \<in> f_id ` set (facts db)" using x ids by (metis imageI set_map)
      then have "f_id x \<in> gen_random_uuid P ` {..<draws db}" using assms(1) by (auto simp: db_ok_def)
      then show ?thesis unfolding fresh(11) by auto
    qed
    then show ?thesis using assms(1) ids by (simp add: db_ok_def)
  qed
  have mem: "f \<in> set (facts db')" unfolding fresh(6) using fresh(1,2,5) by force
  then have "get_by_id i (Some org) db' = Some f" using get_by_id_Some[OF ok'] fresh(2-5) by simp
  then have "retract_fact P F i org proj reason' at_time' db' = Inr (f, db', None)"
    using fresh(4,5) by (simp add: retract_fact_def Let_def)
  then show ?thesis using mem fresh(5-7) by (auto simp: list_all2_conv_all_nth)
qed

definition sample_service :: fact_service where
  "sample_service = \<lparr>fs_has_webhook = True, fs_has_redis = True, fs_resolver = Some (\<lambda>_. Inr (Some PostgresGraphBackend))\<rparr>"

theorem retract_not_found_iff_witness:
  "retract_fact sample_pg sample_service 0 1 3 None (Some 5) sample_db = Inl NotFoundError
   \<and> retract_fact sample_pg sample_service 0 1 2 None (Some 5) sample_db \<noteq> Inl NotFoundError"
  using retract_not_found_iff[OF sample_db_ok, of sample_service 0 1 3 None "Some 5"]
    retract_not_found_iff[OF sample_db_ok, of sample_service 0 1 2 None "Some 5"]
  by (simp add: sample_db_def sample_fact_def sample_pg_def)

theorem retract_idempotent_witness:
  "\<exists>f db' svc. retract_fact sample_pg sample_service 0 1 2 None (Some 5) sample_db = Inr (f, db', svc)
     \<and> f_invalid_at f = Some 5
     \<and> retract_fact sample_pg sample_service 0 1 2 (Some ''again'') (Some 9) db' = Inr (f, db', None)"
proof -
  have "(case retract_fact sample_pg sample_service 0 1 2 None (Some 5) sample_db of
      Inl _ \<Rightarrow> False | Inr (f, db', svc) \<Rightarrow> f_invalid_at f = Some 5)" by code_simp
  then obtain f db' svc where r: "retract_fact sample_pg sample_service 0 1 2 None (Some 5) sample_db = Inr (f, db', svc)"
      "f_invalid_at f = Some 5" by (auto split: sum.splits)
  show ?thesis using retract_idempotent[OF sample_db_ok r(1)] r by blast
qed

end
