(* ===== verification/Fact_Api.thy ===== *)
theory Fact_Api
  imports Fact_Service
begin

text \<open>
  Properties of the ingestion endpoint's content claim and of LLM-driven invalidation.
\<close>

section \<open>The claim around an ingestion\<close>

abbreviation claim_key :: "('s, 'q, 'j) api_env \<Rightarrow> uuid \<Rightarrow> uuid \<Rightarrow> string \<Rightarrow> fact_triple list \<Rightarrow> string" where
  "claim_key E org usr sess fs \<equiv> content_key (e_settings E)
     (compute_content_hash (e_digest E) (uuid_str org) (uuid_str usr) sess (map as_message fs))"

lemma claim_content_hash_mem:
  assumes "redis_server R view"
    and "claim_content_hash R S digest org usr sess msgs payload s = (r, t)"
  defines "key \<equiv> content_key S (compute_content_hash digest org usr sess msgs)"
  shows "view s key = None \<Longrightarrow> 0 < idem_ttl S \<Longrightarrow>
           r = Inr \<lparr>won = True, winner = payload\<rparr> \<and> view t = (view s)(key \<mapsto> (Txt payload, Some (1000 * idem_ttl S)))"
    and "view s key = Some (Txt p, l) \<Longrightarrow> r = Inr \<lparr>won = False, winner = p\<rparr> \<and> view t = view s"
proof -
  have m: "claim_script mem_redis key payload (idem_ttl S) (view s) = (r, view t)"
    using simD[OF redis_server.claim_script_sim[OF assms(1)] assms(2)[unfolded claim_content_hash_def]]
    by (simp add: key_def)
  show "r = Inr \<lparr>won = True, winner = payload\<rparr> \<and> view t = (view s)(key \<mapsto> (Txt payload, Some (1000 * idem_ttl S)))"
    if "view s key = None" "0 < idem_ttl S"
    using m claim_script_mem(1)[of "view s" key "idem_ttl S" payload] that by simp
  show "r = Inr \<lparr>won = False, winner = p\<rparr> \<and> view t = view s" if "view s key = Some (Txt p, l)"
    using m claim_script_mem(2)[of "view s" key p l payload "idem_ttl S"] that by simp
qed

lemma ingest_claimed_redis: "ingest_claimed E org proj usr fs sess st = (r, st') \<Longrightarrow> a_redis st' = a_redis st"
  by (auto simp: ingest_claimed_def split: option.splits sum.splits prod.splits)


lemma as_message_content:
  assumes "map ft_content fs = map ft_content gs"
  shows "map as_message fs = map as_message gs"
proof -
  have "map as_message hs = map (\<lambda>c. \<lparr>msg_role = None, msg_content = c, msg_metadata = None, msg_blobs = None\<rparr>) (map ft_content hs)" for hs
    unfolding map_map comp_def as_message_def ..
  then show ?thesis using assms by metis
qed

text \<open>
  The content claim ignores what the facts say. After a batch was accepted, another batch of
  the same user and session whose \<^verbatim>\<open>content\<close> fields are the same (in particular when every fact
  omits it, as the schema allows) is answered with the first batch's job id and reported as
  accepted, although nothing of it is stored: subjects, predicates, objects and even the
  project do not enter the hash.
\<close>

theorem content_claim_ignores_triples:
  assumes "redis_server (e_client E) view" and "0 < idem_ttl (e_settings E)"
    and "view (a_redis st) (claim_key E org usr sess fs1) = None"
    and "ingest_facts E job1 org proj1 usr fs1 sess st = (Inr rsp, st1)" and "fs1 \<noteq> []"
    and "a_redis st2 = a_redis st1" and "map ft_content fs2 = map ft_content fs1"
  shows "fst (ingest_facts E job2 org proj2 usr fs2 sess st2)
      = Inr \<lparr>rsp_job_id = job1, rsp_accepted_count = length fs2, rsp_superseded_count = 0\<rparr>
    \<and> a_db (snd (ingest_facts E job2 org proj2 usr fs2 sess st2)) = a_db st2"
proof -
  have msgs: "map as_message fs2 = map as_message fs1" by (rule as_message_content[OF assms(7)])
  have ne: "fs2 \<noteq> []" using assms(5,7) by auto
  obtain r t where c: "claim_content_hash (e_client E) (e_settings E) (e_digest E) (uuid_str org) (uuid_str usr) sess (map as_message fs1) job1 (a_redis st) = (r, t)"
    by fastforce
  note w = claim_content_hash_mem(1)[OF assms(1) c assms(3,2)]
  obtain x u where i: "ingest_claimed E org proj1 usr fs1 sess (st\<lparr>a_redis := t\<rparr>) = (x, u)" by fastforce
  have "a_redis st1 = t"
    using assms(4,5) c w i ingest_claimed_redis[OF i] by (auto simp: ingest_facts_def Let_def split: sum.splits if_splits)
  then have held: "view (a_redis st2) (claim_key E org usr sess fs1) = Some (Txt job1, Some (1000 * idem_ttl (e_settings E)))"
    using w assms(6) by simp
  obtain r2 t2 where c2: "claim_content_hash (e_client E) (e_settings E) (e_digest E) (uuid_str org) (uuid_str usr) sess (map as_message fs1) job2 (a_redis st2) = (r2, t2)"
    by fastforce
  have "r2 = Inr \<lparr>won = False, winner = job1\<rparr>" using claim_content_hash_mem(2)[OF assms(1) c2 held] by blast
  then show ?thesis using ne c2 unfolding ingest_facts_def msgs by simp
qed

section \<open>Example environment\<close>

definition sample_digest :: "unit canonical \<Rightarrow> string" where
  "sample_digest c = can_org_id c @ can_user_id c @ can_session_id c
     @ concat (map (\<lambda>m. (case msg_content m of None \<Rightarrow> ''n'' | Some s \<Rightarrow> ''s'' @ s) @ ''.'') (can_messages c))"

definition sample_env :: "(store, job list, unit) api_env" where
  "sample_env = \<lparr>e_pg = sample_pg, e_fromiso = (\<lambda>_. None), e_client = mem_redis, e_settings = sample_settings,
     e_digest = sample_digest, e_service = sample_service,
     e_sessions = [\<lparr>sess_id = 9, sess_project_id = 2, sess_external_id = ''s'', sess_organization_id = 1, sess_is_deleted = False\<rparr>],
     e_enqueue = (\<lambda>_ q. (Inr (), q))\<rparr>"

definition sample_state :: "(store, job list) api_state" where
  "sample_state = \<lparr>a_redis = (\<lambda>_. None), a_db = sample_db, a_queue = [], a_emitted = [], a_pending = []\<rparr>"

definition sample_triple :: "string \<Rightarrow> string \<Rightarrow> string \<Rightarrow> fact_triple" where
  "sample_triple s p ob = \<lparr>ft_subject = s, ft_predicate = p, ft_object = ob, ft_content = None, ft_confidence = 1\<rparr>"

lemma sample_claim:
  "\<exists>t. claim_content_hash (e_client sample_env) (e_settings sample_env) (e_digest sample_env) (uuid_str 1) (uuid_str 3) sess
     (map as_message fs) job (a_redis sample_state) = (Inr \<lparr>won = True, winner = job\<rparr>, t)"
proof -
  obtain r t where c: "claim_content_hash mem_redis sample_settings sample_digest (uuid_str 1) (uuid_str 3) sess
     (map as_message fs) job (\<lambda>_. None) = (r, t)" by fastforce
  then show ?thesis using claim_content_hash_mem(1)[OF mem.redis_server_axioms c]
    by (simp add: sample_env_def sample_state_def sample_settings_def)
qed

lemma enqueue_total: "(\<And>i q. enqueue i q = (Inr (), q)) \<Longrightarrow> enqueue_embedding_tasks enqueue is q = (Inr (), q)"
  by (induction "is") simp_all


theorem content_claim_ignores_triples_witness:
  "\<exists>rsp st1. ingest_facts sample_env ''job1'' 1 2 3 [sample_triple ''Ann'' ''likes'' ''tea''] ''s'' sample_state = (Inr rsp, st1)
     \<and> fst (ingest_facts sample_env ''job2'' 1 2 3 [sample_triple ''Bob'' ''owns'' ''car''] ''s'' st1)
        = Inr \<lparr>rsp_job_id = ''job1'', rsp_accepted_count = 1, rsp_superseded_count = 0\<rparr>
     \<and> a_db (snd (ingest_facts sample_env ''job2'' 1 2 3 [sample_triple ''Bob'' ''owns'' ''car''] ''s'' st1)) = a_db st1"
proof -
  let ?run = "ingest_facts sample_env ''job1'' 1 2 3 [sample_triple ''Ann'' ''likes'' ''tea''] ''s'' sample_state"
  have "\<not> isl (ingest_with_supersession sample_pg (\<lambda>_. None) 1 2 3 (map as_fact_in [sample_triple ''Ann'' ''likes'' ''tea''])
      None Batch_create None (sample_db, invalidation_service_for sample_service 1))" by code_simp
  then obtain x db' svc' where i: "ingest_with_supersession sample_pg (\<lambda>_. None) 1 2 3 (map as_fact_in [sample_triple ''Ann'' ''likes'' ''tea''])
      None Batch_create None (sample_db, invalidation_service_for sample_service 1) = Inr (x, db', svc')"
    by (metis isl_def old.prod.exhaust sum.exhaust)
  obtain t where t: "claim_content_hash (e_client sample_env) (e_settings sample_env) (e_digest sample_env) (uuid_str 1) (uuid_str 3) ''s''
     (map as_message [sample_triple ''Ann'' ''likes'' ''tea'']) ''job1'' (a_redis sample_state) = (Inr \<lparr>won = True, winner = ''job1''\<rparr>, t)"
    using sample_claim by blast
  have "\<exists>st1. ingest_claimed sample_env 1 2 3 [sample_triple ''Ann'' ''likes'' ''tea''] ''s'' (sample_state\<lparr>a_redis := t\<rparr>) = (Inr x, st1)"
    using i by (simp add: ingest_claimed_def get_by_external_id_def sample_env_def sample_state_def enqueue_total)
  then obtain rsp st1 where r: "?run = (Inr rsp, st1)" using t by (auto simp: ingest_facts_def simp del: list.map)
  have "redis_server (e_client sample_env) (\<lambda>s. s)" using mem.redis_server_axioms by (simp add: sample_env_def)
  from content_claim_ignores_triples[OF this _ _ r _ refl, of "[sample_triple ''Bob'' ''owns'' ''car'']" "''job2''" 2] r
  show ?thesis by (simp add: sample_env_def sample_settings_def sample_state_def sample_triple_def)
qed

section \<open>LLM-driven invalidation\<close>

lemma llm_step_cases [consumes 1, case_names skip close]:
  assumes "llm_step P org proj refs succs now v s = Inr t"
  obtains "t = s\<lparr>l_skipped_count := Suc (l_skipped_count s)\<rparr>"
    "f_valid_to (target refs v) \<noteq> None \<or> f_invalid_at (target refs v) \<noteq> None \<or> f_id (target refs v) \<in> set (l_closed s)"
  | db1 ev where "set_valid_to (f_id (target refs v)) now (l_db s) = Inr db1"
    "l_db t = (set_superseded_by P (f_id (target refs v)) (map_option f_id (successor_of succs v)) db1)
        \<lparr>draws := Suc (draws db1), inv_events := inv_events db1 @ [ev]\<rparr>"
    "l_closed t = f_id (target refs v) # l_closed s" "l_closed_count t = Suc (l_closed_count s)"
    "l_skipped_count t = l_skipped_count s" "length (l_events t) = Suc (length (l_events s))"
proof -
  let ?old = "target refs v"
  show thesis
  proof (cases "f_valid_to ?old \<noteq> None \<or> f_invalid_at ?old \<noteq> None \<or> f_id ?old \<in> set (l_closed s)")
    case True
    then show thesis using assms that(1) by (auto simp: llm_step_def Let_def)
  next
    case False
    have kind: "''llm_invalidated'' \<in> set event_kinds" by (simp add: event_kinds_def)
    from False obtain db1 where db1: "set_valid_to (f_id ?old) now (l_db s) = Inr db1"
      using assms unfolding llm_step_def Let_def if_not_P[OF False] exc_bind_Inr_iff by blast
    with False kind assms show thesis
      by (intro that(2)[OF db1])
        (auto simp: llm_step_def Let_def record_invalidation_event_def set_superseded_by_def)
  qed
qed

definition llm_frame :: "uuid set \<Rightarrow> datetime \<Rightarrow> fact_db \<Rightarrow> llm_state \<Rightarrow> bool" where
  "llm_frame T now db0 s \<longleftrightarrow>
     list_all2 (touched T now) (facts db0) (facts (l_db s))
     \<and> length (inv_events (l_db s)) = length (inv_events db0) + l_closed_count s"

lemma llm_step_frame:
  assumes fr: "llm_frame T now db0 s" and step: "llm_step P org proj refs succs now v s = Inr t"
    and T: "f_id (target refs v) \<in> T"
  shows "llm_frame T now db0 t \<and> l_closed_count t + l_skipped_count t = Suc (l_closed_count s + l_skipped_count s)"
  using step
proof (cases rule: llm_step_cases)
  case skip
  then show ?thesis using fr by (simp add: llm_frame_def)
next
  case (close db1 ev)
  let ?i = "f_id (target refs v)" and ?n = "map_option f_id (successor_of succs v)"
  have f: "facts (l_db t) = map (\<lambda>f. if f_id f = ?i then link_fact (utcnow P) ?n (close_fact now f) else f) (facts (l_db s))"
    unfolding close(2) by (simp add: set_superseded_by_def set_valid_to_Inr[OF close(1)])
  have "list_all2 (touched T now) (facts db0) (facts (l_db t))"
    unfolding list_all2_conv_all_nth
  proof (intro conjI allI impI)
    show "length (facts db0) = length (facts (l_db t))" using fr f list_all2_lengthD by (auto simp: llm_frame_def)
    fix k assume k: "k < length (facts db0)"
    then have kt: "touched T now (facts db0 ! k) (facts (l_db s) ! k)" "k < length (facts (l_db s))"
      using fr by (auto simp: llm_frame_def list_all2_conv_all_nth)
    show "touched T now (facts db0 ! k) (facts (l_db t) ! k)"
    proof (cases "f_id (facts (l_db s) ! k) = ?i")
      case True
      then have "f_id (facts db0 ! k) \<in> T" using touched_id[OF kt(1)] T by simp
      from touched_link[OF touched_close[OF kt(1) this] this, of "utcnow P" ?n]
      show ?thesis using kt(2) True unfolding f by simp
    qed (use kt f in simp)
  qed
  moreover have "length (inv_events (l_db t)) = Suc (length (inv_events (l_db s)))"
    unfolding close(2) by (simp add: set_valid_to_Inr[OF close(1)])
  ultimately show ?thesis using fr close(4,5) by (simp add: llm_frame_def)
qed

lemma apply_llm_Inr:
  assumes "apply_llm_invalidations P org proj invs refs succs at_time (db, svc) = Inr (r, db', svc')" and "invs \<noteq> []"
  obtains t ks where "list_all (invalidation_resolves refs succs) invs"
    "exc_fold (llm_step P org proj refs succs (instant P at_time)) invs
       \<lparr>l_db = lock_conflict_identities ks db, l_closed = [], l_closed_count = 0, l_skipped_count = 0, l_events = [], l_reasons = Map.empty\<rparr> = Inr t"
    "r = \<lparr>closed_count = l_closed_count t, llm_skipped_count = l_skipped_count t\<rparr>" "db' = l_db t"
  using assms unfolding apply_llm_invalidations_def Let_def prod.case instant_def[symmetric] if_not_P[OF assms(2)]
  by (auto simp: exc_bind_Inr_iff split: if_splits)

text \<open>
  C30: LLM-driven invalidation stays within the candidates it was given. When it returns, every
  reference named a candidate (an unknown one is a validation error and changes nothing), each
  invalidation is counted as closed or skipped, one event is logged per closed fact, and the
  only rows that changed are targeted candidates, closed at the instant of the call.
\<close>

theorem llm_invalidation_bounded:
  assumes "apply_llm_invalidations P org proj invs refs succs at_time (db, svc) = Inr (r, db', svc')"
  shows "(\<forall>v \<in> set invs. invalidation_resolves refs succs v)
    \<and> closed_count r + llm_skipped_count r = length invs
    \<and> length (inv_events db') = length (inv_events db) + closed_count r
    \<and> list_all2 (touched (f_id ` target refs ` set invs) (instant P at_time)) (facts db) (facts db')"
proof (cases "invs = []")
  case True
  then show ?thesis using assms by (auto simp: apply_llm_invalidations_def list_all2_conv_all_nth)
next
  case False
  let ?T = "f_id ` target refs ` set invs" and ?now = "instant P at_time"
  obtain t ks where t: "list_all (invalidation_resolves refs succs) invs"
    "exc_fold (llm_step P org proj refs succs ?now) invs
       \<lparr>l_db = lock_conflict_identities ks db, l_closed = [], l_closed_count = 0, l_skipped_count = 0, l_events = [], l_reasons = Map.empty\<rparr> = Inr t"
    "r = \<lparr>closed_count = l_closed_count t, llm_skipped_count = l_skipped_count t\<rparr>" "db' = l_db t"
    by (rule apply_llm_Inr[OF assms False])
  let ?s0 = "\<lparr>l_db = lock_conflict_identities ks db, l_closed = [], l_closed_count = 0, l_skipped_count = 0, l_events = [], l_reasons = Map.empty\<rparr>"
  have I0: "llm_frame ?T ?now db ?s0" by (simp add: llm_frame_def list_all2_conv_all_nth)
  have step: "llm_frame ?T ?now db v \<and> l_closed_count v + l_skipped_count v = Suc (l_closed_count u + l_skipped_count u)"
    if "x \<in> set invs" "llm_frame ?T ?now db u" "llm_step P org proj refs succs ?now x u = Inr v" for x u v
    using llm_step_frame[OF that(2,3)] that(1) by blast
  have "llm_frame ?T ?now db t" using exc_fold_invariant[OF t(2), where I = "llm_frame ?T ?now db", OF I0] step by blast
  moreover have "l_closed_count t + l_skipped_count t = length invs"
    using exc_fold_count[OF t(2), where I = "llm_frame ?T ?now db" and m = "\<lambda>s. l_closed_count s + l_skipped_count s", OF I0] step by simp
  ultimately show ?thesis using t by (simp add: llm_frame_def list_all_iff)
qed

definition sample_refs :: "string \<rightharpoonup> fact" where
  "sample_refs = [''F1'' \<mapsto> sample_fact 0 ''ann'' ''knows'' ''bob'']"

definition sample_invalidation :: invalidation where
  "sample_invalidation = \<lparr>v_existing_fact_ref = Some ''F1'', v_successor_fact_ref = None, v_reason = Some ''moved''\<rparr>"

theorem llm_invalidation_bounded_witness:
  "\<exists>r db' svc'. apply_llm_invalidations sample_pg 1 2 [sample_invalidation, sample_invalidation] sample_refs Map.empty (Some 50)
       (sample_db, new_service True True True) = Inr (r, db', svc')
     \<and> closed_count r = 1 \<and> closed_count r + llm_skipped_count r = 2"
proof -
  have "(case apply_llm_invalidations sample_pg 1 2 [sample_invalidation, sample_invalidation] sample_refs Map.empty (Some 50)
       (sample_db, new_service True True True) of Inl _ \<Rightarrow> False | Inr (r, db', svc') \<Rightarrow> closed_count r = 1)" by code_simp
  then obtain r db' svc' where r: "apply_llm_invalidations sample_pg 1 2 [sample_invalidation, sample_invalidation] sample_refs Map.empty (Some 50)
       (sample_db, new_service True True True) = Inr (r, db', svc')" "closed_count r = 1" by (auto split: sum.splits)
  show ?thesis using llm_invalidation_bounded[OF r(1)] r by simp
qed

text \<open>
  The overlap guard reads the candidate as it was loaded. When another transaction has closed
  the row since then (so the candidate still looks open) and this one gets the advisory lock
  after it, the row is not skipped: its end of validity and its successor link are overwritten
  and a second event is logged. The documentation says that the loser of the lock sees
  \<^verbatim>\<open>valid_to\<close> closed and skips.
\<close>

theorem llm_guard_uses_stale_candidate:
  assumes "apply_llm_invalidations P org proj [v] refs succs (Some now) (db, svc) = Inr (r, db', svc')"
    and "f_valid_to (target refs v) = None" "f_invalid_at (target refs v) = None"
    and "row \<in> set (facts db)" "f_id row = f_id (target refs v)" "f_valid_to row = Some closed_at" "closed_at < now"
  shows "closed_count r = 1 \<and> length (inv_events db') = Suc (length (inv_events db))
    \<and> row\<lparr>f_valid_to := Some now, f_superseded_by_fact_id := map_option f_id (successor_of succs v), f_updated_at := utcnow P\<rparr>
       \<in> set (facts db')"
proof -
  obtain t ks where t: "exc_fold (llm_step P org proj refs succs (instant P (Some now))) [v]
       \<lparr>l_db = lock_conflict_identities ks db, l_closed = [], l_closed_count = 0, l_skipped_count = 0, l_events = [], l_reasons = Map.empty\<rparr> = Inr t"
    "r = \<lparr>closed_count = l_closed_count t, llm_skipped_count = l_skipped_count t\<rparr>" "db' = l_db t"
    by (rule apply_llm_Inr[OF assms(1)]) auto
  then have step: "llm_step P org proj refs succs now v
       \<lparr>l_db = lock_conflict_identities ks db, l_closed = [], l_closed_count = 0, l_skipped_count = 0, l_events = [], l_reasons = Map.empty\<rparr> = Inr t"
    by (auto simp: exc_bind_Inr_iff instant_def)
  then show ?thesis
  proof (cases rule: llm_step_cases)
    case skip
    then show ?thesis using assms(2,3) by simp
  next
    case (close db1 ev)
    note v = set_valid_to_Inr[OF close(1)]
    have "link_fact (utcnow P) (map_option f_id (successor_of succs v)) (close_fact now row) \<in> set (facts db')"
      unfolding t(3) close(2) using assms(4,5) by (force simp: set_superseded_by_def v)
    then show ?thesis using close(2,4) t(2,3) by (simp add: v)
  qed
qed

definition closed_row :: fact where
  "closed_row = (sample_fact 0 ''ann'' ''knows'' ''bob'')\<lparr>f_valid_to := Some 20, f_superseded_by_fact_id := Some 7\<rparr>"

theorem llm_guard_uses_stale_candidate_witness:
  "\<exists>r db' svc'. apply_llm_invalidations sample_pg 1 2 [sample_invalidation] sample_refs Map.empty (Some 50)
       (sample_db\<lparr>facts := [closed_row]\<rparr>, new_service True True True) = Inr (r, db', svc')
     \<and> closed_row\<lparr>f_valid_to := Some 50, f_superseded_by_fact_id := None, f_updated_at := utcnow sample_pg\<rparr> \<in> set (facts db')"
proof -
  let ?run = "apply_llm_invalidations sample_pg 1 2 [sample_invalidation] sample_refs Map.empty (Some 50)
       (sample_db\<lparr>facts := [closed_row]\<rparr>, new_service True True True)"
  have "\<not> isl ?run" by code_simp
  then obtain r db' svc' where r: "?run = Inr (r, db', svc')" by (cases ?run) auto
  have tg: "target sample_refs sample_invalidation = sample_fact 0 ''ann'' ''knows'' ''bob''"
    by (simp add: target_def sample_refs_def sample_invalidation_def)
  have sc: "successor_of Map.empty sample_invalidation = None"
    by (simp add: successor_of_def sample_invalidation_def or_none_def)
  have "f_valid_to (sample_fact 0 ''ann'' ''knows'' ''bob'') = None" by code_simp
  then show ?thesis
    using llm_guard_uses_stale_candidate[OF r, of closed_row 20] r
    by (simp add: tg sc closed_row_def) (simp add: sample_fact_def)
qed

end
