(* ===== verification/Fact_Pages.thy ===== *)
theory Fact_Pages
  imports Fact_Repository Conflict_Matching Cursor
begin

text \<open>
  The pages of a session's facts: \<^verbatim>\<open>FactRepository.list_by_session\<close> of
  \<^verbatim>\<open>src/repositories/fact_repository.py\<close> and the service method that forwards to it. A page is
  a keyset query; the cursor it returns is the text of the last row's sort value and id. The
  lemmas show that a walk along the cursors lists every visible fact once for the sorts whose tie
  break agrees with the keyset comparison, and what is lost for the others.

  The text forms of timestamps and floats (\<^verbatim>\<open>isoformat\<close>, \<^verbatim>\<open>fromisoformat\<close>, \<^verbatim>\<open>str\<close>, \<^verbatim>\<open>float\<close>) are the
  parameter \<open>val_text\<close>.
\<close>

section \<open>The query\<close>

record val_text =
  iso :: "datetime \<Rightarrow> string"
  from_iso :: "string \<Rightarrow> datetime option"
  float_str :: "rat \<Rightarrow> string"
  float_of :: "string \<Rightarrow> rat option"

record session_episode =
  se_id :: uuid
  se_session_id :: uuid
  se_is_deleted :: bool

definition SESSION_FACT_SORTABLE_SQL :: "string list" where
  "SESSION_FACT_SORTABLE_SQL = [''created_at'', ''confidence'', ''subject'']"

text \<open>The position a cursor stands for, for the sort that was asked for.\<close>

definition decode_session_cursor :: "string \<Rightarrow> string \<Rightarrow> string \<Rightarrow> (string \<times> uuid) res" where
  "decode_session_cursor req_sort req_dir cur =
     (case decode_cursor cur of
        Inl _ \<Rightarrow> Inl ValidationError
      | Inr decoded \<Rightarrow>
          (case py_rpartition CHR ''|'' decoded of (pfx, _, id_hex) \<Rightarrow>
           case py_partition CHR '':'' pfx of (c_sort, _, rest) \<Rightarrow>
           case py_partition CHR '':'' rest of (c_dir, _, c_val) \<Rightarrow>
             if c_sort = [] \<or> c_dir = [] \<or> id_hex = [] then Inl ValidationError
             else if c_sort \<noteq> req_sort \<or> c_dir \<noteq> req_dir then Inl ValidationError
             else (case uuid_of_hex id_hex of Inl _ \<Rightarrow> Inl ValidationError | Inr u \<Rightarrow> Inr (c_val, u))))"

definition cursor_param :: "val_text \<Rightarrow> string \<Rightarrow> string \<Rightarrow> sval res" where
  "cursor_param L req_sort c_val =
     (if req_sort = ''created_at'' then (case from_iso L c_val of None \<Rightarrow> Inl ValidationError | Some t \<Rightarrow> Inr (SInt t))
      else if req_sort = ''confidence'' then (case float_of L c_val of None \<Rightarrow> Inl ValidationError | Some x \<Rightarrow> Inr (SRat x))
      else Inr (SStr c_val))"

text \<open>
  \<^verbatim>\<open>(col, f.id) > (:cursor_val, :cursor_id)\<close> and its mirror image; a row whose column is NULL
  satisfies neither.
\<close>

definition keyset :: "string \<Rightarrow> string \<Rightarrow> sval \<times> uuid \<Rightarrow> fact \<Rightarrow> bool" where
  "keyset req_sort req_dir p f \<longleftrightarrow>
     (case p of (v, i) \<Rightarrow>
        fact_col f req_sort \<noteq> SNull
        \<and> (if req_dir = ''asc'' then v < fact_col f req_sort \<or> (fact_col f req_sort = v \<and> i < f_id f)
           else fact_col f req_sort < v \<or> (fact_col f req_sort = v \<and> f_id f < i)))"

definition page_clauses :: "string \<Rightarrow> string \<Rightarrow> string clause list" where
  "page_clauses req_sort req_dir =
     [if req_dir = ''asc'' then Asc req_sort else Desc req_sort,
      if req_sort = ''created_at'' \<and> req_dir = ''desc'' then Desc ''id'' else Asc ''id'']"

definition session_facts :: "datetime \<Rightarrow> session_episode list \<Rightarrow> uuid \<Rightarrow> uuid \<Rightarrow> fact list \<Rightarrow> fact list" where
  "session_facts now eps org sess =
     filter (\<lambda>f. f_organization_id f = org
       \<and> (case f_source_episode_id f of
            None \<Rightarrow> False
          | Some i \<Rightarrow> list_ex (\<lambda>e. se_id e = i \<and> se_session_id e = sess \<and> \<not> se_is_deleted e) eps)
       \<and> effective_at now f)"

text \<open>The dictionary built for a row.\<close>

record fact_item =
  fi_id :: string
  fi_content :: string
  fi_subject :: "string option"
  fi_predicate :: "string option"
  fi_object :: "string option"
  fi_confidence :: rat
  fi_source_episode_id :: "string option"
  fi_created_at :: string
  fi_subject_type :: string
  fi_object_type :: string
  fi_subject_entity_id :: "string option"
  fi_object_entity_id :: "string option"
  fi_valid_from :: "string option"
  fi_valid_to :: "string option"
  fi_invalid_at :: "string option"

definition mk_item :: "val_text \<Rightarrow> fact \<Rightarrow> fact_item" where
  "mk_item L f =
     \<lparr>fi_id = uuid_str (f_id f), fi_content = f_content f, fi_subject = f_subject f, fi_predicate = f_predicate f,
      fi_object = f_object f, fi_confidence = f_confidence f,
      fi_source_episode_id = map_option uuid_str (f_source_episode_id f), fi_created_at = iso L (f_created_at f),
      fi_subject_type = f_subject_type f, fi_object_type = f_object_type f,
      fi_subject_entity_id = map_option uuid_str (f_subject_entity_id f),
      fi_object_entity_id = map_option uuid_str (f_object_entity_id f),
      fi_valid_from = map_option (iso L) (f_valid_from f), fi_valid_to = map_option (iso L) (f_valid_to f),
      fi_invalid_at = map_option (iso L) (f_invalid_at f)\<rparr>"

definition next_cursor :: "val_text \<Rightarrow> string \<Rightarrow> string \<Rightarrow> fact_item \<Rightarrow> string" where
  "next_cursor L req_sort req_dir row =
     (let sort_val = (if req_sort = ''created_at'' then fi_created_at row
                      else if req_sort = ''confidence'' then float_str L (fi_confidence row)
                      else (case fi_subject row of None \<Rightarrow> [] | Some s \<Rightarrow> s))
      in encode_cursor (req_sort @ '':'' @ req_dir @ '':'' @ sort_val @ ''|'' @ fi_id row))"

text \<open>\<^verbatim>\<open>LIMIT\<close> rejects a negative number.\<close>

definition list_by_session ::
  "val_text \<Rightarrow> pg \<Rightarrow> session_episode list \<Rightarrow> uuid \<Rightarrow> uuid \<Rightarrow> int \<Rightarrow> string option \<Rightarrow> sort_spec option
   \<Rightarrow> fact list \<Rightarrow> (fact_item list \<times> string option) res" where
  "list_by_session L P eps org sess limit cur srt rows =
     (let spec = (case srt of None \<Rightarrow> default_sort_spec | Some s \<Rightarrow> s);
          (req_sort, req_dir) = effective spec ''created_at'' ''desc'';
          effective_limit = min limit 200 + 1
      in if req_sort \<notin> set SESSION_FACT_SORTABLE_SQL then Inl ValidationError
         else if req_dir \<notin> {''asc'', ''desc''} then Inl ValidationError
         else
           exc_bind
             (case cur of
                Some (c # cs) \<Rightarrow>
                  exc_bind (decode_session_cursor req_sort req_dir (c # cs)) (\<lambda>(c_val, u).
                    exc_bind (cursor_param L req_sort c_val) (\<lambda>v. Inr (keyset req_sort req_dir (v, u))))
              | _ \<Rightarrow> Inr (\<lambda>_. True))
             (\<lambda>where_keyset.
                if effective_limit < 0 then Inl DataError
                else
                  (let found = take (nat effective_limit) (order_rows fact_col (page_clauses req_sort req_dir)
                         (scan_rows P (filter where_keyset (session_facts (utcnow P) eps org sess rows))));
                       has_more = (int (length found) = effective_limit);
                       kept = (if has_more then take (nat (effective_limit - 1)) found else found);
                       items = map (mk_item L) kept
                   in Inr (items, if has_more \<and> items \<noteq> [] then Some (next_cursor L req_sort req_dir (last items)) else None))))"

definition list_facts_by_session ::
  "val_text \<Rightarrow> pg \<Rightarrow> session_episode list \<Rightarrow> uuid \<Rightarrow> uuid \<Rightarrow> int \<Rightarrow> string option \<Rightarrow> sort_spec option
   \<Rightarrow> fact list \<Rightarrow> (fact_item list \<times> string option) res" where
  "list_facts_by_session L P eps org sess limit cur srt rows = list_by_session L P eps org sess limit cur srt rows"

text \<open>A client that follows the cursors until a page has none; \<open>None\<close> when \<open>n\<close> pages are not enough.\<close>

fun walk_pages :: "nat \<Rightarrow> (string option \<Rightarrow> ('a list \<times> string option) res) \<Rightarrow> string option \<Rightarrow> 'a list res option" where
  "walk_pages 0 page cur = None"
| "walk_pages (Suc n) page cur =
     (case page cur of
        Inl e \<Rightarrow> Some (Inl e)
      | Inr (items, None) \<Rightarrow> Some (Inr items)
      | Inr (items, Some c) \<Rightarrow> map_option (\<lambda>r. exc_bind r (\<lambda>more. Inr (items @ more))) (walk_pages n page (Some c)))"


section \<open>Cursors read back\<close>

lemma py_remove_char: "py_remove [c] s = filter (\<lambda>x. x \<noteq> c) s"
proof (induction s)
  case (Cons x xs)
  then show ?case by (subst py_remove.simps) auto
qed (simp add: py_remove.simps)

lemma uuid_str_filter: "filter (\<lambda>x. x \<noteq> CHR ''-'') (uuid_str u) = uuid_hex u"
proof -
  let ?h = "uuid_hex u"
  have keep: "filter (\<lambda>x. x \<noteq> CHR ''-'') xs = xs" if "set xs \<subseteq> set ?h" for xs
    using that to_hex_avoids[of "CHR ''-''" 32 u] by (intro filter_True) (auto simp: uuid_hex_def)
  have step: "take k (drop m ?h) @ drop (m + k) ?h = drop m ?h" for k m
    by (metis append_take_drop_id drop_drop add.commute)
  have "filter (\<lambda>x. x \<noteq> CHR ''-'') (uuid_str u)
      = take 8 ?h @ take 4 (drop 8 ?h) @ take 4 (drop 12 ?h) @ take 4 (drop 16 ?h) @ drop 20 ?h"
    unfolding uuid_str_def Let_def
    by (simp add: keep set_take_subset set_drop_subset order_trans[OF set_take_subset set_drop_subset])
  also have "\<dots> = ?h" using step[of 4 16] step[of 4 12] step[of 4 8] by simp
  finally show ?thesis .
qed

lemma uuid_str_chars: "c \<in> set (uuid_str u) \<Longrightarrow> is_hexc c \<or> c = CHR ''-''"
proof (cases "c = CHR ''-''")
  case False
  assume "c \<in> set (uuid_str u)"
  with False have "c \<in> set (filter (\<lambda>x. x \<noteq> CHR ''-'') (uuid_str u))" by simp
  then show ?thesis using to_hex_chars unfolding uuid_str_filter uuid_hex_def by blast
qed simp

lemma uuid_str_avoids: "c \<in> set ''urn{}|'' \<Longrightarrow> c \<notin> set (uuid_str u)"
  using uuid_str_chars[of c u] is_hexc_facts(1)[of c] by auto

lemma uuid_str_ascii: "c \<in> set (uuid_str u) \<Longrightarrow> code c < 128"
  using uuid_str_chars[of c u] is_hexc_facts(3)[of c] by auto

lemma uuid_str_nonempty: "uuid_str u \<noteq> []"
  by (simp add: uuid_str_def Let_def)

lemma uuid_str_roundtrip:
  assumes "u < 2 ^ 128"
  shows "uuid_of_hex (uuid_str u) = Inr u"
proof -
  let ?brace = "\<lambda>c. c = CHR ''{'' \<or> c = CHR ''}''"
  have trim: "rev (dropWhile ?brace (rev (dropWhile ?brace s))) = s" if "\<forall>c \<in> set s. \<not> ?brace c" for s
    using that dropWhile_id[of s ?brace] dropWhile_id[of "rev s" ?brace] by auto
  have nb: "\<forall>c \<in> set (uuid_str u). \<not> ?brace c" "\<forall>c \<in> set (uuid_hex u). \<not> ?brace c"
    using uuid_str_avoids[of "CHR ''{''" u] uuid_str_avoids[of "CHR ''}''" u]
      to_hex_avoids[of "CHR ''{''" 32 u] to_hex_avoids[of "CHR ''}''" 32 u] by (auto simp: uuid_hex_def)
  have rm: "py_remove ''urn:'' (uuid_str u) = uuid_str u" "py_remove ''uuid:'' (uuid_str u) = uuid_str u"
    "py_remove ''urn:'' (uuid_hex u) = uuid_hex u" "py_remove ''uuid:'' (uuid_hex u) = uuid_hex u"
    by (simp_all add: py_remove_absent uuid_str_avoids uuid_hex_def to_hex_avoids)
  have d: "py_remove ''-'' (uuid_str u) = uuid_hex u" "py_remove ''-'' (uuid_hex u) = uuid_hex u"
    unfolding py_remove_char uuid_str_filter
    using to_hex_avoids[of "CHR ''-''" 32 u] by (auto simp: uuid_hex_def intro!: filter_True)
  have "uuid_of_hex (uuid_str u) = uuid_of_hex (uuid_hex u)"
    unfolding uuid_of_hex_def Let_def rm trim[OF nb(1)] trim[OF nb(2)] d by (rule refl)
  then show ?thesis using uuid_hex_roundtrip[OF assms] by simp
qed


text \<open>What the text forms have to satisfy for the rows at hand: they read back to the value.\<close>

definition row_texts :: "val_text \<Rightarrow> fact list \<Rightarrow> bool" where
  "row_texts L rows \<longleftrightarrow>
     list_all (\<lambda>f. f_id f < 2 ^ 128
       \<and> from_iso L (iso L (f_created_at f)) = Some (f_created_at f) \<and> utf8_valid (iso L (f_created_at f))
       \<and> float_of L (float_str L (f_confidence f)) = Some (f_confidence f) \<and> utf8_valid (float_str L (f_confidence f))
       \<and> (case f_subject f of None \<Rightarrow> True | Some s \<Rightarrow> utf8_valid s)) rows"

lemma next_cursor_reads_back:
  assumes "row_texts L rows" "f \<in> set rows" "srt \<in> set SESSION_FACT_SORTABLE_SQL" "dir \<in> {''asc'', ''desc''}"
    and "srt = ''subject'' \<Longrightarrow> f_subject f \<noteq> None"
  shows "\<exists>c_val. decode_session_cursor srt dir (next_cursor L srt dir (mk_item L f)) = Inr (c_val, f_id f)
    \<and> cursor_param L srt c_val = Inr (fact_col f srt)"
proof -
  define v where "v = (if srt = ''created_at'' then iso L (f_created_at f) else if srt = ''confidence'' then float_str L (f_confidence f)
     else (case f_subject f of None \<Rightarrow> [] | Some s \<Rightarrow> s))"
  let ?t = "srt @ '':'' @ dir @ '':'' @ v @ ''|'' @ uuid_str (f_id f)"
  have row: "f_id f < 2 ^ 128" "from_iso L (iso L (f_created_at f)) = Some (f_created_at f)"
     "utf8_valid (iso L (f_created_at f))" "float_of L (float_str L (f_confidence f)) = Some (f_confidence f)"
     "utf8_valid (float_str L (f_confidence f))" "\<And>s. f_subject f = Some s \<Longrightarrow> utf8_valid s"
    using assms(1,2) by (auto simp: row_texts_def list_all_iff split: option.splits)
  have srt: "srt \<in> {''created_at'', ''confidence'', ''subject''}" using assms(3) by (simp add: SESSION_FACT_SORTABLE_SQL_def)
  have "utf8_valid v" using row by (auto split: option.splits simp: utf8_valid_def v_def)
  moreover have "utf8_valid srt" "utf8_valid dir" "utf8_valid (uuid_str (f_id f))"
    using srt assms(4) by (auto simp: utf8_valid_def intro!: utf8_valid_ascii[unfolded utf8_valid_def] dest: uuid_str_ascii)
  moreover have "utf8_valid '':''" "utf8_valid ''|''" by (simp_all add: utf8_valid_def)
  ultimately have "utf8_valid ?t" by (intro utf8_valid_append)
  moreover have enc: "next_cursor L srt dir (mk_item L f) = encode_cursor ?t"
    by (simp add: next_cursor_def mk_item_def Let_def v_def)
  ultimately have dec: "decode_cursor (next_cursor L srt dir (mk_item L f)) = Inr ?t"
    using decode_encode_cursor[of ?t] enc by (simp del: append_assoc)
  have bar: "py_rpartition CHR ''|'' ?t = (srt @ '':'' @ dir @ '':'' @ v, ''|'', uuid_str (f_id f))"
    using py_rpartition_found[of "CHR ''|''" "uuid_str (f_id f)" "srt @ '':'' @ dir @ '':'' @ v"] uuid_str_avoids[of "CHR ''|''" "f_id f"]
    by simp
  have c1: "py_partition CHR '':'' (srt @ '':'' @ dir @ '':'' @ v) = (srt, '':'', dir @ '':'' @ v)"
    using py_partition_found[of "CHR '':''" srt "dir @ '':'' @ v"] srt by auto
  have c2: "py_partition CHR '':'' (dir @ '':'' @ v) = (dir, '':'', v)"
    using py_partition_found[of "CHR '':''" dir v] assms(4) by auto
  have ne: "srt \<noteq> []" "dir \<noteq> []" using srt assms(4) by auto
  have "decode_session_cursor srt dir (next_cursor L srt dir (mk_item L f)) = Inr (v, f_id f)"
    unfolding decode_session_cursor_def dec sum.case bar c1 c2 prod.case
    using ne uuid_str_nonempty uuid_str_roundtrip[OF row(1)] by simp
  moreover have "cursor_param L srt v = Inr (fact_col f srt)"
    using srt row assms(5) by (auto simp: cursor_param_def opt_sval_def v_def split: option.splits)
  ultimately show ?thesis by blast
qed

section \<open>Keyset pages\<close>

text \<open>The sorts whose ORDER BY runs along the comparison of the keyset.\<close>

definition aligned :: "string \<Rightarrow> string \<Rightarrow> bool" where
  "aligned srt dir \<longleftrightarrow> srt \<in> set SESSION_FACT_SORTABLE_SQL \<and> (dir = ''asc'' \<or> srt = ''created_at'' \<and> dir = ''desc'')"

lemma fact_col_id [simp]: "fact_col f ''id'' = SInt (int (f_id f))"
  by simp

lemma SInt_less [simp]: "(SInt a < SInt b) = (a < b)"
  by (simp add: less_sval_def less_le_not_le)

lemma keyset_after:
  assumes "aligned srt dir" and "fact_col x srt \<noteq> SNull" and "f_id x = f_id r \<Longrightarrow> x = r"
  shows "keyset srt dir (fact_col r srt, f_id r) x \<longleftrightarrow> rows_le fact_col (page_clauses srt dir) r x \<and> f_id x \<noteq> f_id r"
proof (cases "x = r")
  case True
  then show ?thesis by (simp add: keyset_def del: fact_col.simps)
next
  case False
  then have "f_id x \<noteq> f_id r" using assms(3) by blast
  then show ?thesis using assms(1,2) unfolding aligned_def keyset_def page_clauses_def
    by (auto simp del: fact_col.simps)
qed

lemma filter_after:
  assumes "sorted_wrt le xs" and "distinct (map k xs)" and "j < length xs"
    and "\<And>x y. le x y \<Longrightarrow> le y x \<Longrightarrow> k x = k y"
  shows "filter (\<lambda>x. le (xs ! j) x \<and> k x \<noteq> k (xs ! j)) xs = drop (Suc j) xs"
  using assms
proof (induction xs arbitrary: j)
  case (Cons y ys)
  show ?case
  proof (cases j)
    case 0
    have "k y \<notin> k ` set ys" using Cons.prems(2) by simp
    then have "k x \<noteq> k y" if "x \<in> set ys" for x using that by (metis imageI)
    then have "filter (\<lambda>x. le y x \<and> k x \<noteq> k y) ys = ys" using Cons.prems(1) by (intro filter_True) auto
    then show ?thesis using 0 by simp
  next
    case (Suc i)
    then have i: "ys ! i \<in> set ys" using Cons.prems(3) by simp
    have "\<not> (le (ys ! i) y \<and> k y \<noteq> k (ys ! i))" using Cons.prems(1) Cons.prems(4)[of "ys ! i" y] i by auto
    moreover have "filter (\<lambda>x. le (ys ! i) x \<and> k x \<noteq> k (ys ! i)) ys = drop (Suc i) ys"
      using Cons.prems(1-3) Suc by (intro Cons.IH Cons.prems(4)) auto
    ultimately show ?thesis using Suc by simp
  qed
qed simp


lemma order_rows_filter:
  assumes "k \<in> set ks" "inj_on (\<lambda>r. col r (clause_col k)) (set rows)" and "mset xs = mset (filter q rows)"
  shows "order_rows col ks xs = filter q (order_rows col ks rows)"
proof (rule sorted_wrt_unique[OF sorted_order_rows])
  show "sorted_wrt (rows_le col ks) (filter q (order_rows col ks rows))"
    by (rule sorted_wrt_filter[OF sorted_order_rows])
  show "mset (order_rows col ks xs) = mset (filter q (order_rows col ks rows))" using assms(3) by simp
  have "set xs \<subseteq> set rows" using assms(3) by (metis filter_is_subset set_mset_mset)
  then show "r = s" if "r \<in> set (order_rows col ks xs)" "s \<in> set (order_rows col ks xs)" "rows_le col ks r s" "rows_le col ks s r" for r s
    using that rows_le_antisym[OF that(3,4) assms(1)] assms(2) by (auto dest: inj_onD)
qed

text \<open>
  One page of an aligned sort. With \<open>all\<close> the ordered list of what is visible, the page after
  the \<open>j\<close>-th row holds the next \<open>m\<close> rows, and its cursor leads to the page after them.
\<close>

definition page_start :: "val_text \<Rightarrow> string \<Rightarrow> string \<Rightarrow> fact list \<Rightarrow> nat \<Rightarrow> string option" where
  "page_start L srt dir all j = (if j = 0 then None else Some (next_cursor L srt dir (mk_item L (all ! (j - 1)))))"

lemma next_cursor_nonempty: "next_cursor L srt dir r \<noteq> []"
proof -
  have "b64_body t \<noteq> []" if "t \<noteq> []" for t using that by (cases t rule: b64_body.cases) auto
  then show ?thesis by (simp add: next_cursor_def Let_def encode_cursor_body)
qed


text \<open>A session seen through a sort, and its visible rows in order.\<close>

definition session_view ::
  "val_text \<Rightarrow> pg \<Rightarrow> session_episode list \<Rightarrow> uuid \<Rightarrow> uuid \<Rightarrow> string \<Rightarrow> string \<Rightarrow> fact list \<Rightarrow> bool" where
  "session_view L P eps org sess srt dir rows \<longleftrightarrow>
     postgres P \<and> distinct (map f_id rows) \<and> row_texts L rows
     \<and> srt \<in> set SESSION_FACT_SORTABLE_SQL \<and> dir \<in> {''asc'', ''desc''}
     \<and> (srt = ''subject'' \<longrightarrow> (\<forall>f \<in> set (session_facts (utcnow P) eps org sess rows). f_subject f \<noteq> None))"

definition session_order :: "pg \<Rightarrow> session_episode list \<Rightarrow> uuid \<Rightarrow> uuid \<Rightarrow> string \<Rightarrow> string \<Rightarrow> fact list \<Rightarrow> fact list" where
  "session_order P eps org sess srt dir rows =
     order_rows fact_col (page_clauses srt dir) (session_facts (utcnow P) eps org sess rows)"

lemma id_clause: obtains k where "k \<in> set (page_clauses srt dir)" "clause_col k = ''id''"
proof
  let ?k = "if srt = ''created_at'' \<and> dir = ''desc'' then Desc ''id'' else Asc ''id''"
  show "?k \<in> set (page_clauses srt dir)" by (simp add: page_clauses_def)
  show "clause_col ?k = ''id''" by simp
qed

lemma session_order_rows: "f \<in> set (session_order P eps org sess srt dir rows) \<Longrightarrow> f \<in> set rows"
  by (auto simp: session_order_def session_facts_def)

lemma session_order_distinct:
  assumes "distinct (map f_id rows)"
  shows "distinct (map f_id (session_order P eps org sess srt dir rows))"
proof -
  have "mset (map f_id (session_order P eps org sess srt dir rows)) = mset (map f_id (session_facts (utcnow P) eps org sess rows))"
    by (simp add: session_order_def)
  moreover have "distinct (map f_id (session_facts (utcnow P) eps org sess rows))"
    unfolding session_facts_def by (rule distinct_map_filter[OF assms])
  ultimately show ?thesis by (metis mset_eq_imp_distinct_iff)
qed

lemma same_row:
  assumes "distinct (map f_id rows)" "f \<in> set rows" "g \<in> set rows" "f_id f = f_id g"
  shows "f = g"
  using assms by (simp add: distinct_map inj_on_def)

lemma ordered_query:
  assumes "session_view L P eps org sess srt dir rows"
  shows "order_rows fact_col (page_clauses srt dir) (scan_rows P (filter q (session_facts (utcnow P) eps org sess rows)))
     = filter q (session_order P eps org sess srt dir rows)"
proof -
  have v: "postgres P" "distinct (map f_id rows)" using assms by (simp_all add: session_view_def)
  obtain k where k: "k \<in> set (page_clauses srt dir)" "clause_col k = ''id''" by (rule id_clause)
  have "inj_on (\<lambda>r. fact_col r (clause_col k)) (set (session_facts (utcnow P) eps org sess rows))"
    using same_row[OF v(2)] unfolding k(2) by (auto simp: inj_on_def session_facts_def)
  then show ?thesis unfolding session_order_def
    using k(1) postgres.scan_rows_mset[OF v(1)] by (intro order_rows_filter[of k]) auto
qed

lemma view_row:
  assumes "session_view L P eps org sess srt dir rows" and "f \<in> set (session_order P eps org sess srt dir rows)"
  shows "srt = ''subject'' \<Longrightarrow> f_subject f \<noteq> None" and "fact_col f srt \<noteq> SNull"
proof -
  show s: "f_subject f \<noteq> None" if "srt = ''subject''" using assms that by (simp add: session_view_def session_order_def)
  have "srt \<in> set SESSION_FACT_SORTABLE_SQL" using assms(1) by (simp add: session_view_def)
  then show "fact_col f srt \<noteq> SNull" using s by (auto simp: SESSION_FACT_SORTABLE_SQL_def opt_sval_def split: option.splits)
qed

lemma rest_of_session:
  fixes P eps org sess srt dir rows
  defines "V \<equiv> session_order P eps org sess srt dir rows"
  assumes view: "session_view L P eps org sess srt dir rows" and al: "aligned srt dir" and j: "j < length V"
  shows "filter (keyset srt dir (fact_col (V ! j) srt, f_id (V ! j))) V = drop (Suc j) V"
proof -
  have v: "distinct (map f_id rows)" using view by (simp add: session_view_def)
  obtain k where k: "k \<in> set (page_clauses srt dir)" "clause_col k = ''id''" by (rule id_clause)
  have "filter (keyset srt dir (fact_col (V ! j) srt, f_id (V ! j))) V
      = filter (\<lambda>x. rows_le fact_col (page_clauses srt dir) (V ! j) x \<and> f_id x \<noteq> f_id (V ! j)) V"
  proof (rule filter_cong[OF refl])
    fix x assume x: "x \<in> set V"
    have "f_id x = f_id (V ! j) \<Longrightarrow> x = V ! j"
      using same_row[OF v] x nth_mem[OF j] unfolding V_def by (meson session_order_rows)
    then show "keyset srt dir (fact_col (V ! j) srt, f_id (V ! j)) x
        = (rows_le fact_col (page_clauses srt dir) (V ! j) x \<and> f_id x \<noteq> f_id (V ! j))"
      using x by (intro keyset_after[OF al] view_row(2)[OF view]) (simp_all add: V_def)
  qed
  also have "\<dots> = drop (Suc j) V"
  proof (rule filter_after[OF _ _ j])
    show "sorted_wrt (rows_le fact_col (page_clauses srt dir)) V"
      unfolding V_def session_order_def by (rule sorted_order_rows)
    show "distinct (map f_id V)" unfolding V_def by (rule session_order_distinct[OF v])
    show "f_id x = f_id y" if "rows_le fact_col (page_clauses srt dir) x y" "rows_le fact_col (page_clauses srt dir) y x" for x y
      using rows_le_antisym[OF that k(1)] unfolding k(2) by simp
  qed
  finally show ?thesis .
qed

text \<open>A page, given the rows its keyset leaves of the order; and the keyset of an issued cursor.\<close>

definition start_of :: "val_text \<Rightarrow> string \<Rightarrow> string \<Rightarrow> string option \<Rightarrow> (fact \<Rightarrow> bool) res" where
  "start_of L srt dir cur =
     (case cur of
        Some (c # cs) \<Rightarrow>
          exc_bind (decode_session_cursor srt dir (c # cs)) (\<lambda>(c_val, u).
            exc_bind (cursor_param L srt c_val) (\<lambda>v. Inr (keyset srt dir (v, u))))
      | _ \<Rightarrow> Inr (\<lambda>_. True))"

lemma page_run:
  assumes view: "session_view L P eps org sess srt dir rows"
    and eff: "effective (case spec of None \<Rightarrow> default_sort_spec | Some s \<Rightarrow> s) ''created_at'' ''desc'' = (srt, dir)"
    and q: "start_of L srt dir cur = Inr q" "filter q (session_order P eps org sess srt dir rows) = F"
    and m: "m = nat (min limit 200)" "1 \<le> limit"
  shows "list_by_session L P eps org sess limit cur spec rows
    = Inr (map (mk_item L) (take m F), if m < length F then Some (next_cursor L srt dir (mk_item L (F ! (m - 1)))) else None)"
proof -
  have srt: "srt \<in> set SESSION_FACT_SORTABLE_SQL" "dir \<in> {''asc'', ''desc''}" using view by (simp_all add: session_view_def)
  have found: "order_rows fact_col (page_clauses srt dir) (scan_rows P (filter q (session_facts (utcnow P) eps org sess rows))) = F"
    using ordered_query[OF view] q(2) by simp
  have lim: "nat (min limit 200 + 1) = Suc m" "nat (min limit 200 + 1 - 1) = m" "\<not> min limit 200 + 1 < 0" "0 < m"
    using m by auto
  have more: "(int (length (take (Suc m) F)) = min limit 200 + 1) = (m < length F)"
    using m by (auto simp: min_def)
  have run: "list_by_session L P eps org sess limit cur spec rows =
      (let found = take (Suc m) F; has_more = (m < length F);
           items = map (mk_item L) (if has_more then take m found else found)
       in Inr (items, if has_more \<and> items \<noteq> [] then Some (next_cursor L srt dir (last items)) else None))"
    unfolding list_by_session_def eff Let_def prod.case q(1)[unfolded start_of_def] exc_bind.simps found lim(1,2) more
    using srt lim(3) by simp
  show ?thesis
  proof (cases "m < length F")
    case True
    then have ne: "take m F \<noteq> []" using lim(4) by auto
    then have "last (map (mk_item L) (take m F)) = mk_item L (F ! (m - 1))"
      using True by (simp add: last_map last_conv_nth)
    then show ?thesis using True ne unfolding run Let_def by simp
  next
    case False
    then have "take (Suc m) F = take m F" by simp
    then show ?thesis using False unfolding run Let_def by simp
  qed
qed

lemma start_of_issued:
  assumes view: "session_view L P eps org sess srt dir rows" and f: "f \<in> set (session_order P eps org sess srt dir rows)"
  shows "start_of L srt dir (Some (next_cursor L srt dir (mk_item L f))) = Inr (keyset srt dir (fact_col f srt, f_id f))"
proof -
  have srt: "srt \<in> set SESSION_FACT_SORTABLE_SQL" "dir \<in> {''asc'', ''desc''}" and tx: "row_texts L rows"
    using view by (simp_all add: session_view_def)
  obtain c_val where c: "decode_session_cursor srt dir (next_cursor L srt dir (mk_item L f)) = Inr (c_val, f_id f)"
      "cursor_param L srt c_val = Inr (fact_col f srt)"
    using next_cursor_reads_back[OF tx session_order_rows[OF f] srt] view_row(1)[OF view f] by blast
  obtain x xs where n: "next_cursor L srt dir (mk_item L f) = x # xs"
    using next_cursor_nonempty[of L srt dir "mk_item L f"] by (cases "next_cursor L srt dir (mk_item L f)") auto
  show ?thesis using c unfolding n start_of_def by simp
qed

lemma walk_from:
  fixes P eps org sess srt dir rows
  defines "V \<equiv> session_order P eps org sess srt dir rows"
  assumes view: "session_view L P eps org sess srt dir rows" and al: "aligned srt dir"
    and eff: "effective (case spec of None \<Rightarrow> default_sort_spec | Some s \<Rightarrow> s) ''created_at'' ''desc'' = (srt, dir)"
    and lim: "1 \<le> limit" and j: "j \<le> length V" and n: "length V - j < n"
  shows "walk_pages n (\<lambda>c. list_by_session L P eps org sess limit c spec rows) (page_start L srt dir V j)
    = Some (Inr (map (mk_item L) (drop j V)))"
  using j n
proof (induction n arbitrary: j)
  case (Suc n)
  define m where "m = nat (min limit 200)"
  have m: "1 \<le> m" using lim by (simp add: m_def)
  obtain q where q: "start_of L srt dir (page_start L srt dir V j) = Inr q" "filter q V = drop j V"
  proof (cases j)
    case 0
    then show ?thesis by (intro that[of "\<lambda>_. True"]) (simp_all add: page_start_def start_of_def)
  next
    case (Suc i)
    then show ?thesis using that start_of_issued[OF view, of "V ! i"] rest_of_session[OF view al, of i] Suc.prems(1)
      by (simp add: page_start_def V_def)
  qed
  note page = page_run[OF view eff q(1) q(2)[unfolded V_def] m_def lim, folded V_def]
  show ?case
  proof (cases "j + m < length V")
    case True
    then have "drop j V ! (m - 1) = V ! (j + m - 1)" using m by simp
    then have "list_by_session L P eps org sess limit (page_start L srt dir V j) spec rows
        = Inr (map (mk_item L) (take m (drop j V)), page_start L srt dir V (j + m))"
      unfolding page using True m by (simp add: page_start_def)
    moreover have "walk_pages n (\<lambda>c. list_by_session L P eps org sess limit c spec rows) (page_start L srt dir V (j + m))
        = Some (Inr (map (mk_item L) (drop (j + m) V)))"
      using Suc.prems True m by (intro Suc.IH) auto
    moreover have "map (mk_item L) (take m (drop j V)) @ map (mk_item L) (drop (j + m) V) = map (mk_item L) (drop j V)"
      by (metis append_take_drop_id drop_drop map_append add.commute)
    ultimately show ?thesis using m by (simp add: page_start_def)
  next
    case False
    then have "list_by_session L P eps org sess limit (page_start L srt dir V j) spec rows = Inr (map (mk_item L) (drop j V), None)"
      unfolding page by simp
    then show ?thesis by simp
  qed
qed simp


text \<open>Along ascending keys, the rows below one of them are those before it.\<close>

lemma filter_before:
  fixes k :: "'a \<Rightarrow> 'b :: linorder"
  assumes "sorted_wrt (\<lambda>x y. k x < k y) xs" and "j < length xs"
  shows "filter (\<lambda>x. k x < k (xs ! j)) xs = take j xs"
  using assms
proof (induction xs arbitrary: j)
  case (Cons y ys)
  show ?case
  proof (cases j)
    case 0
    then show ?thesis using Cons.prems(1) by (auto simp: filter_empty_conv dest: less_imp_not_less)
  next
    case (Suc i)
    then have "k y < k (ys ! i)" using Cons.prems by simp
    then show ?thesis using Cons.IH[of i] Cons.prems Suc by simp
  qed
qed simp

lemma ties_by_id:
  fixes P eps org sess srt rows
  defines "V \<equiv> session_order P eps org sess srt ''desc'' rows"
  assumes "distinct (map f_id rows)" and "srt \<noteq> ''created_at''" and "\<And>f. f \<in> set V \<Longrightarrow> fact_col f srt = v"
  shows "sorted_wrt (\<lambda>x y. f_id x < f_id y) V"
proof -
  have cl: "page_clauses srt ''desc'' = [Desc srt, Asc ''id'']" using assms(3) by (simp add: page_clauses_def)
  have "sorted_wrt (rows_le fact_col [Desc srt, Asc ''id'']) V"
    unfolding V_def session_order_def cl by (rule sorted_order_rows)
  then have le: "sorted_wrt (\<lambda>x y. f_id x \<le> f_id y) V"
    by (rule sorted_wrt_mono_rel[rotated]) (auto simp: assms(4) simp del: fact_col.simps)
  have "distinct (map f_id V)" unfolding V_def by (rule session_order_distinct[OF assms(2)])
  then have "sorted_wrt (<) (map f_id V)" using le by (simp add: strict_sorted_iff sorted_map)
  then show ?thesis by (simp add: sorted_wrt_map)
qed

section \<open>Properties\<close>


text \<open>
  C40: a descending sort by confidence or subject loses rows on ties. When the visible facts of a
  session agree in the sort column and do not fit on one page, the cursor of the first page leads
  to a second page that repeats the first one without its last row, and is the last: no row beyond
  the first page is ever listed. The tie break orders ids upwards while the keyset comparison
  runs downwards.
\<close>

theorem session_desc_ties_lost:
  assumes "session_view L P eps org sess srt ''desc'' rows" and "srt \<noteq> ''created_at''"
    and "effective (case spec of None \<Rightarrow> default_sort_spec | Some s \<Rightarrow> s) ''created_at'' ''desc'' = (srt, ''desc'')" and "1 \<le> limit"
    and "\<forall>f \<in> set (session_facts (utcnow P) eps org sess rows). fact_col f srt = v"
    and "nat (min limit 200) < length (session_facts (utcnow P) eps org sess rows)"
  shows "walk_pages 2 (\<lambda>c. list_facts_by_session L P eps org sess limit c spec rows) None
    = Some (Inr (map (mk_item L) (take (nat (min limit 200)) (session_order P eps org sess srt ''desc'' rows)
        @ take (nat (min limit 200) - 1) (session_order P eps org sess srt ''desc'' rows))))"
proof -
  define V where "V = session_order P eps org sess srt ''desc'' rows"
  define m where "m = nat (min limit 200)"
  have "length V = length (session_facts (utcnow P) eps org sess rows)"
    unfolding V_def session_order_def by (metis mset_order_rows size_mset)
  then have m: "1 \<le> m" "m < length V" using assms(4,6) by (simp_all add: m_def)
  have col: "fact_col f srt = v" if "f \<in> set V" for f using assms(5) that by (simp add: V_def session_order_def)
  have dist: "distinct (map f_id rows)" using assms(1) by (simp add: session_view_def)
  let ?r = "V ! (m - 1)"
  have r: "?r \<in> set V" using m by simp
  have "filter (keyset srt ''desc'' (fact_col ?r srt, f_id ?r)) V = filter (\<lambda>x. f_id x < f_id ?r) V"
    using col[OF r] col view_row(2)[OF assms(1)] by (intro filter_cong) (auto simp: keyset_def V_def simp del: fact_col.simps)
  also have "\<dots> = take (m - 1) V"
    using m ties_by_id[OF dist assms(2), of P eps org sess v] col unfolding V_def by (intro filter_before) simp_all
  finally have second: "filter (keyset srt ''desc'' (fact_col ?r srt, f_id ?r)) V = take (m - 1) V" .
  have p1: "list_by_session L P eps org sess limit None spec rows
      = Inr (map (mk_item L) (take m V), Some (next_cursor L srt ''desc'' (mk_item L ?r)))"
    using page_run[OF assms(1,3), of None "\<lambda>_. True" V m limit] m assms(4) by (simp add: start_of_def V_def m_def)
  have p2: "list_by_session L P eps org sess limit (Some (next_cursor L srt ''desc'' (mk_item L ?r))) spec rows
      = Inr (map (mk_item L) (take (m - 1) V), None)"
    using page_run[OF assms(1,3) start_of_issued[OF assms(1) r[unfolded V_def]] second[unfolded V_def] m_def assms(4)] m
    by (simp add: V_def)
  show ?thesis
    using p1 p2 by (simp add: numeral_2_eq_2 list_facts_by_session_def flip: V_def m_def)
qed

definition sample_texts :: val_text where
  "sample_texts = \<lparr>iso = (\<lambda>t. if t = 1 then ''1'' else ''2''), from_iso = (\<lambda>s. Some (if s = ''1'' then 1 else 2)),
     float_str = (\<lambda>_. ''0.5''), float_of = (\<lambda>_. Some (1 / 2))\<rparr>"

definition session_row :: "uuid \<Rightarrow> datetime \<Rightarrow> fact" where
  "session_row i t = (sample_fact i ''a'' ''p'' ''o'')\<lparr>f_source_episode_id := Some 7, f_created_at := t, f_confidence := 1 / 2\<rparr>"

definition session_rows :: "fact list" where
  "session_rows = [session_row 1 2, session_row 2 1, session_row 3 2]"

definition session_eps :: "session_episode list" where
  "session_eps = [\<lparr>se_id = 7, se_session_id = 8, se_is_deleted = False\<rparr>]"

lemma sample_session:
  "row_texts sample_texts session_rows" "distinct (map f_id session_rows)"
  "session_facts (utcnow sample_pg) session_eps 1 8 session_rows = session_rows"
  by (simp_all add: row_texts_def sample_texts_def session_rows_def session_row_def session_facts_def session_eps_def
      sample_fact_def mk_fact_def sample_pg_def effective_at_def sample_entry_def build_entry_def sample_in_def Let_def utf8_valid_def or_empty_def py_strip_def py_isspace_def)



theorem session_desc_ties_lost_witness:
  "walk_pages 2 (\<lambda>c. list_facts_by_session sample_texts sample_pg session_eps 1 8 1 c
       (Some \<lparr>sort_by = Some ''confidence'', sort_dir = ''desc''\<rparr>) session_rows) None
   = Some (Inr [mk_item sample_texts (session_row 1 2)])"
proof -
  have "session_view sample_texts sample_pg session_eps 1 8 ''confidence'' ''desc'' session_rows"
    by (simp add: session_view_def sample_session sample.postgres_axioms SESSION_FACT_SORTABLE_SQL_def)
  moreover have "\<forall>f \<in> set session_rows. fact_col f ''confidence'' = SRat (1 / 2)"
    by (simp add: session_rows_def session_row_def)
  moreover have "session_order sample_pg session_eps 1 8 ''confidence'' ''desc'' session_rows = session_rows"
    unfolding session_order_def sample_session
    by (simp add: page_clauses_def order_rows_def session_rows_def session_row_def sample_fact_def mk_fact_def sample_pg_def)
  ultimately show ?thesis
    using session_desc_ties_lost[of sample_texts sample_pg session_eps 1 8 "''confidence''" session_rows
        "Some \<lparr>sort_by = Some ''confidence'', sort_dir = ''desc''\<rparr>" 1 "SRat (1 / 2)"]
    unfolding sample_session
    by (simp add: effective_def session_rows_def del: walk_pages.simps fact_col.simps)
qed

end
