(* ===== verification/Advisory_Locks.thy ===== *)
theory Advisory_Locks
  imports Fact_Service
begin

text \<open>
  Concurrent writers and their advisory locks. Every writer of facts takes its locks through
  \<^verbatim>\<open>lock_conflict_identities\<close>, one \<^verbatim>\<open>pg_advisory_xact_lock(hashtext(key))\<close> after the other, and holds them
  until its transaction ends: an ingestion the keys of its identities, a retraction the key of its
  fact, an enrichment first the keys of its ingestion and then those of its LLM invalidations. The
  interleavings of any number of such transactions are a step relation. The hash is a parameter.
\<close>

section \<open>Transactions\<close>

datatype fact_txn =
    Ingest uuid uuid "entry list"
  | Retract fact
  | Enrich uuid uuid "entry list" "uuid list"

definition llm_lock_keys :: "uuid \<Rightarrow> uuid \<Rightarrow> uuid list \<Rightarrow> string list" where
  "llm_lock_keys org proj ids = sort (map (invalidation_lock_key org proj) (remdups ids))"

fun txn_locks :: "fact_txn \<Rightarrow> string list" where
  "txn_locks (Ingest org proj es) = batch_lock_keys org proj es"
| "txn_locks (Retract f) = [lock_key_for_identity (f_organization_id f) (f_project_id f) (name_identity_of_fact f)]"
| "txn_locks (Enrich org proj es ids) = batch_lock_keys org proj es @ llm_lock_keys org proj ids"

text \<open>A transaction with the keys it has still to lock and the locks it holds, or ended.\<close>

datatype 'l txn_state = Running "string list" "'l list" | Committed

inductive lock_step :: "(string \<Rightarrow> 'l) \<Rightarrow> 'l txn_state list \<Rightarrow> 'l txn_state list \<Rightarrow> bool" for h where
  acquire: "i < length s \<Longrightarrow> s ! i = Running (k # ks) H \<Longrightarrow>
      (\<forall>j < length s. \<forall>ks' H'. j \<noteq> i \<and> s ! j = Running ks' H' \<longrightarrow> h k \<notin> set H') \<Longrightarrow>
      lock_step h s (s[i := Running ks (h k # H)])"
| commit: "i < length s \<Longrightarrow> s ! i = Running [] H \<Longrightarrow> lock_step h s (s[i := Committed])"

inductive lock_run :: "(string \<Rightarrow> 'l) \<Rightarrow> 'l txn_state list \<Rightarrow> nat \<Rightarrow> 'l txn_state list \<Rightarrow> bool" for h where
  start: "lock_run h s 0 s"
| step: "lock_run h s n t \<Longrightarrow> lock_step h t u \<Longrightarrow> lock_run h s (Suc n) u"

inductive_cases lock_stepE: "lock_step h s t"

definition begin_txns :: "fact_txn list \<Rightarrow> 'l txn_state list" where
  "begin_txns txns = map (\<lambda>x. Running (txn_locks x) []) txns"

fun work :: "'l txn_state \<Rightarrow> nat" where
  "work (Running ks H) = Suc (length ks)"
| "work Committed = 0"

definition total_work :: "'l txn_state list \<Rightarrow> nat" where
  "total_work s = sum_list (map work s)"

section \<open>The global order\<close>

text \<open>Identity keys come before invalidation keys, within a kind the order is that of the texts.\<close>

definition rank :: "string \<Rightarrow> string" where
  "rank k = (if take 4 k = ''sup:'' then CHR 0x00 else CHR 0x01) # k"

lemma rank_inj: "rank a = rank b \<Longrightarrow> a = b"
  by (simp add: rank_def)

lemma sup_rank_less: "take 4 a = ''sup:'' \<Longrightarrow> take 4 b = ''sup:'' \<Longrightarrow> rank a < rank b \<longleftrightarrow> a < b"
  by (simp add: rank_def)

lemma sup_key [simp]: "take 4 (lock_key_for_identity org proj n) = ''sup:''"
  by (simp add: lock_key_for_identity_def split: prod.split)

lemma inv_key [simp]: "take 4 (invalidation_lock_key org proj i) = ''inv:''"
  by (simp add: invalidation_lock_key_def)

definition ordered :: "string list \<Rightarrow> bool" where
  "ordered ks \<longleftrightarrow> sorted_wrt (\<lambda>a b. rank a < rank b) ks"

text \<open>Every UUID has 128 bits.\<close>

fun txn_ok :: "fact_txn \<Rightarrow> bool" where
  "txn_ok (Enrich org proj es ids) = list_all (\<lambda>i. i < 2 ^ 128) ids"
| "txn_ok _ = True"

lemma strict_sorted: "sorted ks \<Longrightarrow> distinct ks \<Longrightarrow> sorted_wrt (<) (ks :: string list)"
  by (simp add: strict_sorted_iff)

lemma ordered_batch: "ordered (batch_lock_keys org proj es)"
proof -
  let ?ks = "batch_lock_keys org proj es"
  have "sorted_wrt (<) ?ks" unfolding batch_lock_keys_def by (intro strict_sorted) auto
  moreover have "take 4 k = ''sup:''" if "k \<in> set ?ks" for k using that by (auto simp: batch_lock_keys_def)
  ultimately show ?thesis unfolding ordered_def by (simp add: sorted_wrt_iff_nth_less sup_rank_less)
qed

lemma ordered_llm:
  assumes "list_all (\<lambda>i. i < 2 ^ 128) ids"
  shows "ordered (llm_lock_keys org proj ids)"
proof -
  let ?ks = "llm_lock_keys org proj ids"
  have "inj_on (invalidation_lock_key org proj) (set ids)"
    using assms by (auto simp: inj_on_def invalidation_lock_key_def list_all_iff intro: uuid_str_inj)
  then have "sorted_wrt (<) ?ks" unfolding llm_lock_keys_def by (intro strict_sorted) (auto simp: distinct_map)
  moreover have "take 4 k = ''inv:''" if "k \<in> set ?ks" for k using that by (auto simp: llm_lock_keys_def)
  then have "rank k = CHR 0x01 # k" if "k \<in> set ?ks" for k using that by (simp add: rank_def)
  ultimately show ?thesis unfolding ordered_def by (simp add: sorted_wrt_iff_nth_less)
qed

lemma ordered_txn: "txn_ok x \<Longrightarrow> ordered (txn_locks x)"
proof (cases x)
  case (Enrich org proj es ids)
  assume "txn_ok x"
  moreover have "rank a < rank b" if "a \<in> set (batch_lock_keys org proj es)" "b \<in> set (llm_lock_keys org proj ids)" for a b
  proof -
    have "take 4 a = ''sup:''" "take 4 b = ''inv:''"
      using that by (auto simp: batch_lock_keys_def llm_lock_keys_def)
    then show ?thesis by (simp add: rank_def)
  qed
  ultimately show ?thesis using Enrich ordered_batch[of org proj es] ordered_llm[of ids org proj]
    by (auto simp: ordered_def sorted_wrt_append)
qed (simp_all add: ordered_batch, simp add: ordered_def)

section \<open>Runs\<close>

text \<open>What holds of a transaction on the way: it holds the locks of a prefix of its keys.\<close>

fun on_the_way :: "(string \<Rightarrow> 'l) \<Rightarrow> string list \<Rightarrow> 'l txn_state \<Rightarrow> bool" where
  "on_the_way h L (Running ks H) \<longleftrightarrow> (\<exists>took. L = took @ ks \<and> set H = h ` set took)"
| "on_the_way h L Committed \<longleftrightarrow> True"

lemma list_all2_update: "list_all2 P xs ys \<Longrightarrow> i < length ys \<Longrightarrow> P (xs ! i) y \<Longrightarrow> list_all2 P xs (ys[i := y])"
  by (simp add: list_all2_conv_all_nth nth_list_update)

lemma step_on_the_way:
  assumes "lock_step h s t" and "list_all2 (on_the_way h) Ls s"
  shows "list_all2 (on_the_way h) Ls t"
  using assms(1)
proof cases
  case (acquire i k ks H)
  have "on_the_way h (Ls ! i) (s ! i)" using assms(2) acquire(2) by (simp add: list_all2_conv_all_nth)
  then obtain took where "Ls ! i = took @ k # ks" "set H = h ` set took" using acquire(3) by auto
  then have "on_the_way h (Ls ! i) (Running ks (h k # H))" by (auto intro!: exI[of _ "took @ [k]"])
  then show ?thesis using acquire(1,2) list_all2_update[OF assms(2)] by simp
next
  case (commit i H)
  then show ?thesis using list_all2_update[OF assms(2)] by simp
qed

lemma sum_list_update_nat: "i < length s \<Longrightarrow> sum_list ((map f s)[i := y]) + f (s ! i) = sum_list (map f s) + (y :: nat)"
  by (induction s arbitrary: i) (auto split: nat.splits simp: nth_Cons')

lemma step_work: "lock_step h s t \<Longrightarrow> Suc (total_work t) = total_work s"
proof (erule lock_stepE)
  fix i k ks H
  assume "t = s[i := Running ks (h k # H)]" "i < length s" "s ! i = Running (k # ks) H"
  then show ?thesis using sum_list_update_nat[of i s work "work (Running ks (h k # H))"] by (simp add: total_work_def map_update)
next
  fix i H
  assume "t = s[i := Committed]" "i < length s" "s ! i = Running [] H"
  then show ?thesis using sum_list_update_nat[of i s work 0] by (simp add: total_work_def map_update)
qed

lemma run_invariant:
  assumes "lock_run h s n t" and "list_all2 (on_the_way h) Ls s"
  shows "list_all2 (on_the_way h) Ls t \<and> n + total_work t = total_work s"
  using assms
proof (induction)
  case (start s)
  then show ?case by simp
next
  case (step s n t u)
  then show ?case using step_on_the_way[OF step.hyps(2)] step_work[OF step.hyps(2)] by simp
qed

section \<open>Progress\<close>

lemma can_step:
  assumes inv: "list_all2 (on_the_way h) Ls s" and ord: "\<And>L. L \<in> set Ls \<Longrightarrow> ordered L"
    and inj: "inj_on h (\<Union>L \<in> set Ls. set L)" and pending: "total_work s \<noteq> 0"
  shows "\<exists>t. lock_step h s t"
proof (rule ccontr)
  assume stuck: "\<nexists>t. lock_step h s t"
  have len: "length Ls = length s" using inv by (rule list_all2_lengthD)
  define W where "W = {(i, k). i < length s \<and> (\<exists>ks H. s ! i = Running (k # ks) H)}"
  have running: "\<exists>k. (i, k) \<in> W" if "i < length s" "s ! i \<noteq> Committed" for i
  proof (cases "s ! i")
    case (Running ks H)
    then have "ks \<noteq> []" using stuck lock_step.commit[of i s H h] that by auto
    then show ?thesis using Running that by (cases ks) (auto simp: W_def)
  qed (use that in simp)
  have "\<exists>i < length s. s ! i \<noteq> Committed"
  proof (rule ccontr)
    assume "\<not> ?thesis"
    then have "\<forall>x \<in> set s. work x = 0" by (auto simp: in_set_conv_nth)
    then show False using pending by (simp add: total_work_def)
  qed
  then have "W \<noteq> {}" using running by blast
  moreover have "finite W"
  proof (rule finite_subset)
    show "W \<subseteq> {..< length s} \<times> (\<Union>L \<in> set Ls. set L)"
    proof (clarify, goal_cases)
      case (1 i k)
      then obtain ks H where i: "i < length s" "s ! i = Running (k # ks) H" by (auto simp: W_def)
      then have "on_the_way h (Ls ! i) (Running (k # ks) H)" using inv by (metis list_all2_conv_all_nth)
      then have "k \<in> set (Ls ! i)" by auto
      then show ?case using i len by (auto intro!: bexI[of _ "Ls ! i"])
    qed
  qed simp
  ultimately have fin: "finite ((\<lambda>(i, k). rank k) ` W)" "(\<lambda>(i, k). rank k) ` W \<noteq> {}" by auto
  from Max_in[OF fin] obtain i k where max: "(i, k) \<in> W" "Max ((\<lambda>(i, k). rank k) ` W) = rank k" by auto
  have ik: "rank l \<le> rank k" if "(j, l) \<in> W" for j l
    using Max_ge[OF fin(1), of "rank l"] that max(2) by force
  obtain ks H where i: "i < length s" "s ! i = Running (k # ks) H" using max(1) by (auto simp: W_def)
  then obtain j ks' H' where j: "j < length s" "s ! j = Running ks' H'" "h k \<in> set H'"
    using stuck lock_step.acquire[OF i, of h] by blast
  have wi: "on_the_way h (Ls ! i) (Running (k # ks) H)" and wj: "on_the_way h (Ls ! j) (Running ks' H')"
    using inv i j by (metis list_all2_conv_all_nth)+
  obtain took where took: "Ls ! j = took @ ks'" "set H' = h ` set took" using wj by auto
  then obtain l where l: "l \<in> set took" "h k = h l" using j(3) by auto
  have "k \<in> set (Ls ! i)" "l \<in> set (Ls ! j)" using wi took(1) l(1) by auto
  then have "k = l" using inj_onD[OF inj l(2)] i(1) j(1) len by (metis UN_I nth_mem)
  obtain l' where l': "(j, l') \<in> W" using running[OF j(1)] j(2) by auto
  then have "l' \<in> set ks'" using j(2) by (auto simp: W_def)
  moreover have "ordered (Ls ! j)" using ord j(1) len by simp
  ultimately have "rank l < rank l'" using took(1) l(1) by (auto simp: ordered_def sorted_wrt_append)
  then show False using ik[OF l'] \<open>k = l\<close> by simp
qed

section \<open>Properties\<close>


definition locks_ab :: fact_txn where
  "locks_ab = Ingest 1 2 [sample_entry ''a'' ''p'' ''o'', sample_entry ''b'' ''p'' ''o'']"

definition locks_ba :: fact_txn where
  "locks_ba = Ingest 1 2 [sample_entry ''b'' ''p'' ''o'', sample_entry ''a'' ''p'' ''o'']"


end
