(* ===== verification/Rate_Limit.thy ===== *)
theory Rate_Limit
  imports Redis Cursor
begin

text \<open>
  The sliding-window rate limiter (\<^verbatim>\<open>middleware/rate_limit.py\<close>): the window check on a Redis
  sorted set, the quota of an organization, the client address, and the ASGI middleware that
  forwards or rejects a request. The address parser of the \<^verbatim>\<open>ipaddress\<close> module is a parameter.

  The window check is compared with a reference that keeps the whole log of requests; the
  bound on the requests forwarded in any window follows from it.
\<close>

section \<open>Configuration\<close>

definition FALLBACK_ORG_RATE_LIMIT :: int where "FALLBACK_ORG_RATE_LIMIT = 1000"
definition FALLBACK_ORG_WINDOW :: int where "FALLBACK_ORG_WINDOW = 60"

record rl_settings =
  RATE_LIMIT_IP_MAX :: int
  RATE_LIMIT_WINDOW_SEC :: int
  TRUSTED_PROXY_IPS :: string

record 'ip ip_lib =
  ip_address :: "string \<Rightarrow> 'ip option"
  ip_in_network :: "'ip \<Rightarrow> string \<Rightarrow> bool option"

text \<open>An entry that does not parse raises \<^verbatim>\<open>ValueError\<close> and is skipped.\<close>

fun trusted_entry :: "'ip ip_lib \<Rightarrow> 'ip \<Rightarrow> string list \<Rightarrow> bool" where
  "trusted_entry L peer [] \<longleftrightarrow> False"
| "trusted_entry L peer (raw # rest) =
     (let e = py_strip raw in
      if e = [] then trusted_entry L peer rest
      else if CHR ''/'' \<in> set e then
        (if ip_in_network L peer e = Some True then True else trusted_entry L peer rest)
      else (if ip_address L e = Some peer then True else trusted_entry L peer rest))"

definition is_trusted_proxy :: "'ip ip_lib \<Rightarrow> string \<Rightarrow> string \<Rightarrow> bool" where
  "is_trusted_proxy L peer_ip trusted =
     (case ip_address L peer_ip of
        None \<Rightarrow> False
      | Some peer \<Rightarrow> trusted_entry L peer (py_split CHR '','' trusted))"

section \<open>The request\<close>

record scope =
  scope_type :: string
  scope_path :: string
  scope_client :: "string option"
  scope_headers :: "(string \<times> string) list"
  scope_org_id :: "string option"

definition latin1 :: "string \<Rightarrow> string" where
  "latin1 bs = concat (map (\<lambda>c. if code c < 128 then [c]
     else [char_of (192 + code c div 64), char_of (128 + code c mod 64)]) bs)"

text \<open>A dict comprehension over the header list: the last header of a name wins.\<close>

definition header :: "string \<Rightarrow> scope \<Rightarrow> string option" where
  "header name sc = map_of (rev (map (\<lambda>(k, v). (py_lower (latin1 k), latin1 v)) (scope_headers sc))) name"

definition peer_of :: "scope \<Rightarrow> string" where
  "peer_of sc = (case scope_client sc of None \<Rightarrow> ''unknown'' | Some h \<Rightarrow> h)"

definition get_client_ip :: "'ip ip_lib \<Rightarrow> rl_settings \<Rightarrow> scope \<Rightarrow> string" where
  "get_client_ip L S sc =
     (let peer = peer_of sc in
      case header ''x-forwarded-for'' sc of
        None \<Rightarrow> peer
      | Some forwarded \<Rightarrow>
          if forwarded \<noteq> [] \<and> is_trusted_proxy L peer (TRUSTED_PROXY_IPS S) then
            (let first = py_strip (hd (py_split CHR '','' forwarded)) in if first \<noteq> [] then first else peer)
          else peer)"

section \<open>Quota and window\<close>

text \<open>\<^verbatim>\<open>int(v)\<close> of a field of the quota hash.\<close>

definition quota_int :: "rval option \<Rightarrow> int \<Rightarrow> int res" where
  "quota_int v dflt = (case v of None \<Rightarrow> Inr dflt | Some (Num n) \<Rightarrow> Inr n | Some _ \<Rightarrow> Inl ValueError)"

definition quota_key :: "string \<Rightarrow> string" where
  "quota_key org = ''org:quota:'' @ org"

definition get_org_rate_limit :: "'s redis \<Rightarrow> string \<Rightarrow> ('s, int \<times> int) sx" where
  "get_org_rate_limit R org =
     sx_catch
       (sx_bind (redis_hgetall R (quota_key org)) (\<lambda>quota.
          if quota \<noteq> [] then
            (\<lambda>s. (exc_bind (quota_int (map_of quota ''rate_limit_max'') FALLBACK_ORG_RATE_LIMIT) (\<lambda>max_req.
                  exc_bind (quota_int (map_of quota ''rate_limit_window'') FALLBACK_ORG_WINDOW) (\<lambda>window.
                  Inr (max_req, window))), s))
          else sx_return (FALLBACK_ORG_RATE_LIMIT, FALLBACK_ORG_WINDOW)))
       (\<lambda>_. sx_raise RateLimitUnavailableError)"

text \<open>The clock readings of one request, and the random part of its log entry.\<close>

record reading =
  now_ms :: int
  now_s :: int
  after_s :: int
  nonce :: uuid

definition log_member :: "reading \<Rightarrow> string" where
  "log_member c = py_str_int (now_ms c) @ '':'' @ uuid_hex (nonce c)"

definition check_rate_limit ::
  "'s redis \<Rightarrow> reading \<Rightarrow> string \<Rightarrow> int \<Rightarrow> int \<Rightarrow> ('s, bool \<times> int \<times> int) sx" where
  "check_rate_limit R c key max_requests window_seconds =
     (let cutoff_ms = now_ms c - window_seconds * 1000 in
      sx_bind
        (redis_pipe (redis_zremrangebyscore R key 0 cutoff_ms)
        (redis_pipe (redis_zcard R key)
        (redis_pipe (redis_zadd R key (log_member c) (now_ms c))
                    (redis_expire R key (nat (window_seconds + 5))))))
        (\<lambda>(_, current_count, _, _).
          sx_return (int current_count < max_requests,
                     max 0 (max_requests - int current_count - 1),
                     now_s c + window_seconds)))"

section \<open>The middleware\<close>

datatype outcome =
    Forward
  | ForwardWith int int int \<comment> \<open>headers X-RateLimit-Limit, -Remaining, -Reset\<close>
  | Reject429 int int int \<comment> \<open>X-RateLimit-Limit, -Reset and Retry-After\<close>
  | Reject503

definition BYPASS_PATHS :: "string list" where
  "BYPASS_PATHS = [''/health'', ''/ready'']"

definition rate_bucket ::
  "'ip ip_lib \<Rightarrow> rl_settings \<Rightarrow> 's redis \<Rightarrow> scope \<Rightarrow> ('s, int \<times> int \<times> string) sx" where
  "rate_bucket L S R sc =
     (case scope_org_id sc of
        Some (ch # org) \<Rightarrow>
          sx_bind (get_org_rate_limit R (ch # org)) (\<lambda>(max_req, window).
            sx_return (max_req, window, ''rate:api:'' @ ch # org))
      | _ \<Rightarrow> sx_return (RATE_LIMIT_IP_MAX S, RATE_LIMIT_WINDOW_SEC S, ''rate:auth:'' @ get_client_ip L S sc))"

definition rate_limit_call ::
  "'ip ip_lib \<Rightarrow> rl_settings \<Rightarrow> 's redis option \<Rightarrow> reading \<Rightarrow> scope \<Rightarrow> 's \<Rightarrow> outcome \<times> 's" where
  "rate_limit_call L S client c sc s =
     (if scope_type sc \<noteq> ''http'' then (Forward, s)
      else if scope_path sc \<in> set BYPASS_PATHS then (Forward, s)
      else case client of
        None \<Rightarrow> (Reject503, s)
      | Some R \<Rightarrow>
          (case redis_ping R s of
             (Inl _, t) \<Rightarrow> (Reject503, t)
           | (Inr _, t) \<Rightarrow>
               (case sx_bind (rate_bucket L S R sc) (\<lambda>(max_req, window, key).
                        sx_bind (check_rate_limit R c key max_req window) (\<lambda>r. sx_return (max_req, r))) t of
                  (Inl _, u) \<Rightarrow> (Reject503, u)
                | (Inr (max_req, allowed, remaining, reset), u) \<Rightarrow>
                    (if \<not> allowed then (Reject429 max_req reset (max 1 (reset - after_s c)), u)
                     else (ForwardWith max_req remaining reset, u)))))"

fun forwarded :: "outcome \<Rightarrow> bool" where
  "forwarded Forward = True"
| "forwarded (ForwardWith _ _ _) = True"
| "forwarded _ = False"

text \<open>Requests arriving one after the other; each is given with the milliseconds before it.\<close>

fun run_requests ::
  "'ip ip_lib \<Rightarrow> rl_settings \<Rightarrow> 's redis \<Rightarrow> (nat \<times> reading \<times> scope) list \<Rightarrow> 's \<Rightarrow> outcome list" where
  "run_requests L S R [] s = []"
| "run_requests L S R ((d, c, sc) # rs) s =
     (case rate_limit_call L S (Some R) c sc (redis_elapse R d s) of (out, t) \<Rightarrow> out # run_requests L S R rs t)"

text \<open>The reference: a log of all requests, from which the window is counted afresh.\<close>

fun window_log :: "int \<Rightarrow> int \<Rightarrow> int list \<Rightarrow> int list \<Rightarrow> bool list" where
  "window_log W max_requests past [] = []"
| "window_log W max_requests past (t # ts) =
     (int (length (filter (\<lambda>u. u > t - W) past)) < max_requests) # window_log W max_requests (past @ [t]) ts"

section \<open>The window check against the log\<close>

lemma st_zset_put: "st_zset k (put_zset k m ttl st) = Some (m, if m = [] then None else ttl)"
  by (simp add: st_zset_def put_zset_def)

lemma put_zset_other: "k' \<noteq> k \<Longrightarrow> put_zset k m ttl st k' = st k'"
  by (simp add: put_zset_def)

text \<open>
  What a bucket holds at an instant, for a log of requests: the entries from some cutoff before
  the window on, and the key does not expire before its entries have left the window.
\<close>

definition bucket_log :: "int \<Rightarrow> int \<Rightarrow> (string \<times> int) list \<Rightarrow> (rval \<times> nat option) option \<Rightarrow> bool" where
  "bucket_log W now H v \<longleftrightarrow>
     (case v of
        None \<Rightarrow> \<forall>t \<in> snd ` set H. t + W \<le> now
      | Some (Zset m, Some l) \<Rightarrow>
          (\<exists>c \<le> now - W. m = filter (\<lambda>(_, t). c < t) H) \<and> (\<forall>t \<in> snd ` set H. t + W \<le> now + int l)
      | _ \<Rightarrow> False)"

lemma bucket_log_SomeE:
  assumes "bucket_log W now H (Some v)"
  obtains m l c where "v = (Zset m, Some l)" "c \<le> now - W" "m = filter (\<lambda>(_, t). c < t) H"
    "\<forall>t \<in> snd ` set H. t + W \<le> now + int l"
  using assms unfolding bucket_log_def by (cases v rule: prod.exhaust, cases "fst v"; cases "snd v") auto

lemma bucket_log_elapse:
  assumes "bucket_log W now H (st key)"
  shows "bucket_log W (now + int d) H (st_elapse d st key)"
proof (cases "st key")
  case None
  then show ?thesis using assms by (force simp: bucket_log_def st_elapse_def)
next
  case (Some v)
  then obtain m l c where v: "v = (Zset m, Some l)" "c \<le> now - W" "m = filter (\<lambda>(_, t). c < t) H"
      "\<forall>t \<in> snd ` set H. t + W \<le> now + int l"
    using assms bucket_log_SomeE by metis
  show ?thesis
  proof (cases "l \<le> d")
    case True
    then show ?thesis using Some v by (force simp: bucket_log_def st_elapse_def)
  next
    case False
    then have "c \<le> now + int d - W" and "\<forall>t \<in> snd ` set H. t + W \<le> now + int d + int (l - d)" using v by auto
    with False show ?thesis using Some v by (auto simp: bucket_log_def st_elapse_def intro!: exI[of _ c])
  qed
qed

text \<open>What the pruned bucket holds is the window's part of the log.\<close>

lemma bucket_window:
  assumes "bucket_log W now H (st key)" and "\<forall>t \<in> snd ` set H. 0 \<le> t"
  obtains m ttl where "st_zset key st = Some (m, ttl)"
    and "filter (\<lambda>(_, x). \<not> (0 \<le> x \<and> x \<le> now - W)) m = filter (\<lambda>(_, t). t > now - W) H"
proof (cases "st key")
  case None
  then have "filter (\<lambda>(_, t). t > now - W) H = []" using assms(1) by (force simp: bucket_log_def filter_empty_conv)
  then show ?thesis using that[of "[]" None] None by (simp add: st_zset_def)
next
  case (Some v)
  then obtain m l c where v: "v = (Zset m, Some l)" "c \<le> now - W" "m = filter (\<lambda>(_, t). c < t) H"
    using assms(1) bucket_log_SomeE by metis
  have "filter (\<lambda>(_, x). \<not> (0 \<le> x \<and> x \<le> now - W)) m = filter (\<lambda>(_, t). t > now - W) H"
    unfolding v filter_filter using v(2) assms(2) by (intro filter_cong) force+
  then show ?thesis using that[of m "Some l"] Some v(1) by (simp add: st_zset_def)
qed

lemma check_rate_limit_mem:
  assumes inv: "bucket_log (1000 * w) (now_ms c) H (st key)" and "\<forall>t \<in> snd ` set H. 0 \<le> t" "\<forall>t \<in> snd ` set H. t \<le> now_ms c"
    and "log_member c \<notin> fst ` set H" and "0 < w"
  obtains rest st' where "check_rate_limit mem_redis c key max_requests w st
      = (Inr (int (length (filter (\<lambda>t. t > now_ms c - 1000 * w) (map snd H))) < max_requests, rest), st')"
    and "bucket_log (1000 * w) (now_ms c) (H @ [(log_member c, now_ms c)]) (st' key)" and "\<And>k. k \<noteq> key \<Longrightarrow> st' k = st k"
proof -
  define cut win m2 where "cut = now_ms c - 1000 * w" and "win = filter (\<lambda>(_, t). t > cut) H"
    and "m2 = win @ [(log_member c, now_ms c)]"
  obtain m ttl where m: "st_zset key st = Some (m, ttl)" "filter (\<lambda>(_, x). \<not> (0 \<le> x \<and> x \<le> cut)) m = win"
    unfolding cut_def win_def using bucket_window[of _ _ H st key, OF inv assms(2)] .
  define st1 ttl1 where "st1 = put_zset key win ttl st" and "ttl1 = (if win = [] then None else ttl)"
  define st2 where "st2 = put_zset key m2 ttl1 st1"
  let ?st3 = "st2(key \<mapsto> (Zset m2, Some (1000 * nat (w + 5))))"
  have zset: "st_zset key st1 = Some (win, ttl1)" by (simp add: st1_def st_zset_put ttl1_def)
  have fresh: "filter (\<lambda>(x, _). x \<noteq> log_member c) win = win"
    using assms(4) unfolding win_def by (intro filter_True) force
  have e: "st_zremrangebyscore key 0 cut st = (Inr (), st1)" "st_zcard key st1 = (Inr (length win), st1)"
    "st_zadd key (log_member c) (now_ms c) st1 = (Inr (), st2)"
    using m by (simp_all add: st_zremrangebyscore_def st1_def st_zcard_def zset[unfolded st1_def] st_zadd_def fresh st2_def m2_def)
  have "st2 key = Some (Zset m2, ttl1)" by (simp add: st2_def put_zset_def m2_def)
  then have x: "st_expire key (nat (w + 5)) st2 = (Inr True, ?st3)" using assms(5) by (simp add: st_expire_def)
  have cnt: "length win = length (filter (\<lambda>t. t > cut) (map snd H))"
    by (simp add: win_def filter_map comp_def case_prod_beta')
  have "m2 = filter (\<lambda>(_, t). cut < t) (H @ [(log_member c, now_ms c)])"
    using assms(5) by (simp add: m2_def win_def cut_def)
  then have inv': "bucket_log (1000 * w) (now_ms c) (H @ [(log_member c, now_ms c)]) (Some (Zset m2, Some (1000 * nat (w + 5))))"
    using assms(3,5) by (fastforce simp: bucket_log_def cut_def)
  show ?thesis
  proof (rule that)
    show "check_rate_limit mem_redis c key max_requests w st
      = (Inr (int (length (filter (\<lambda>t. t > now_ms c - 1000 * w) (map snd H))) < max_requests,
          max 0 (max_requests - int (length win) - 1), now_s c + w), ?st3)"
      using e x cnt by (simp add: check_rate_limit_def sx_bind_def redis_pipe_def sx_return_def mult.commute cut_def)
  next
    show "bucket_log (1000 * w) (now_ms c) (H @ [(log_member c, now_ms c)]) (?st3 key)"
      using inv' by simp
  next
    show "?st3 k = st k" if "k \<noteq> key" for k using that by (simp add: st2_def st1_def put_zset_other)
  qed
qed

section \<open>The bound\<close>

lemma window_log_snoc:
  "window_log W n past (ts @ [t]) = window_log W n past ts @ [int (length (filter (\<lambda>u. u > t - W) (past @ ts))) < n]"
  by (induction ts arbitrary: past) auto

lemma window_log_length [simp]: "length (window_log W n past ts) = length ts"
  by (induction ts arbitrary: past) auto

lemma zip_filter_le: "length (filter (\<lambda>(t, b). b \<and> P t) (zip ts bs)) \<le> length (filter P ts)"
proof (induction ts arbitrary: bs)
  case Nil
  then show ?case by simp
next
  case (Cons t ts)
  show ?case
  proof (cases bs)
    case Nil
    then show ?thesis by simp
  next
    case (Cons b bs')
    then show ?thesis using Cons.IH[of bs'] by auto
  qed
qed

text \<open>Whatever the times, no interval of the window's length holds more admitted entries than the limit.\<close>

lemma window_log_bound:
  "length (filter (\<lambda>(t, b). b \<and> a - W < t \<and> t \<le> a) (zip ts (window_log W n past ts))) \<le> nat n"
proof (induction ts rule: rev_induct)
  case Nil
  then show ?case by simp
next
  case (snoc t ts)
  let ?b = "int (length (filter (\<lambda>u. u > t - W) (past @ ts))) < n"
  let ?cnt = "length (filter (\<lambda>(t, b). b \<and> a - W < t \<and> t \<le> a) (zip ts (window_log W n past ts)))"
  show ?case
  proof (cases "?b \<and> a - W < t \<and> t \<le> a")
    case True
    have "?cnt \<le> length (filter (\<lambda>t. a - W < t \<and> t \<le> a) ts)" by (rule zip_filter_le)
    also have "\<dots> \<le> length (filter (\<lambda>u. u > t - W) ts)"
      using True by (intro length_filter_mono) auto
    also have "\<dots> \<le> length (filter (\<lambda>u. u > t - W) (past @ ts))" by simp
    finally have "int ?cnt \<le> int (length (filter (\<lambda>u. u > t - W) (past @ ts)))" by simp
    then have "int ?cnt < n" using True by linarith
    then show ?thesis using True by (simp add: window_log_snoc Suc_le_eq zless_nat_eq_int_zless)
  next
    case False
    then show ?thesis using snoc.IH by (auto simp: window_log_snoc)
  qed
qed

section \<open>Simulation of the middleware\<close>

context redis_server
begin

lemma get_org_rate_limit_sim: "sim view (get_org_rate_limit R org) (get_org_rate_limit mem_redis org)"
  unfolding get_org_rate_limit_def
  by (intro sim_catch sim_bind sim_if sim_return sim_raise sim_pure hgetall_law)

lemma check_rate_limit_sim: "sim view (check_rate_limit R c key n w) (check_rate_limit mem_redis c key n w)"
  unfolding check_rate_limit_def Let_def
  by (intro sim_bind sim_pipe zrem_law zcard_law zadd_law expire_law) (auto split: prod.split)

lemma rate_bucket_sim: "sim view (rate_bucket L S R sc) (rate_bucket L S mem_redis sc)"
  unfolding rate_bucket_def
  by (auto intro!: sim_bind get_org_rate_limit_sim split: option.split list.split)

lemma rate_limit_call_mem:
  "rate_limit_call L S (Some R) c sc s = (out, t) \<Longrightarrow> rate_limit_call L S (Some mem_redis) c sc (view s) = (out, view t)"
proof -
  assume call: "rate_limit_call L S (Some R) c sc s = (out, t)"
  let ?prog = "\<lambda>R. sx_bind (rate_bucket L S R sc) (\<lambda>(max_req, window, key).
      sx_bind (check_rate_limit R c key max_req window) (\<lambda>r. sx_return (max_req, r)))"
  have sim: "sim view (?prog R) (?prog mem_redis)"
    by (intro sim_bind rate_bucket_sim) (auto intro!: sim_bind check_rate_limit_sim)
  obtain r u where p: "redis_ping R s = (r, u)" by fastforce
  obtain q v where x: "?prog R u = (q, v)" by fastforce
  have "st_ping (view s) = (r, view u)" using simD[OF ping_law p] by simp
  moreover have "?prog mem_redis (view u) = (q, view v)" by (rule simD[OF sim x])
  ultimately show ?thesis using call p x unfolding rate_limit_call_def
    by (simp del: mem_redis_simps add: mem_redis_simps(13) split: if_splits sum.splits prod.splits)
qed

lemma run_requests_mem: "run_requests L S R rs s = run_requests L S mem_redis rs (view s)"
proof (induction rs arbitrary: s)
  case Nil
  then show ?case by simp
next
  case (Cons r rs)
  obtain d c sc where r: "r = (d, c, sc)" by (cases r)
  obtain out t where call: "rate_limit_call L S (Some R) c sc (redis_elapse R d s) = (out, t)" by fastforce
  have "rate_limit_call L S (Some mem_redis) c sc (redis_elapse mem_redis d (view s)) = (out, view t)"
    using rate_limit_call_mem[OF call] by (simp only: elapse_law)
  then show ?case using call Cons.IH[of t] by (simp add: r del: mem_redis_simps)
qed

end

section \<open>Requests of one organization\<close>

text \<open>The quota an organization's hash stands for, if it is readable and does not expire.\<close>

definition quota_limits :: "(rval \<times> nat option) option \<Rightarrow> (int \<times> int) option" where
  "quota_limits v =
     (case v of
        None \<Rightarrow> Some (FALLBACK_ORG_RATE_LIMIT, FALLBACK_ORG_WINDOW)
      | Some (Hash (f # fs), None) \<Rightarrow>
          (case (quota_int (map_of (f # fs) ''rate_limit_max'') FALLBACK_ORG_RATE_LIMIT,
                 quota_int (map_of (f # fs) ''rate_limit_window'') FALLBACK_ORG_WINDOW) of
             (Inr n, Inr w) \<Rightarrow> Some (n, w) | _ \<Rightarrow> None)
      | _ \<Rightarrow> None)"

lemma quota_limits_elapse: "quota_limits (st k) = Some l \<Longrightarrow> st_elapse d st k = st k"
  by (auto simp: quota_limits_def st_elapse_def split: option.splits prod.splits rval.splits list.splits)

lemma get_org_rate_limit_mem:
  assumes "quota_limits (st (quota_key org)) = Some (n, w)"
  shows "get_org_rate_limit mem_redis org st = (Inr (n, w), st)"
proof (cases "st (quota_key org)")
  case None
  then show ?thesis using assms
    by (simp add: quota_limits_def get_org_rate_limit_def sx_catch_def sx_bind_def st_hgetall_def sx_return_def)
next
  case (Some v)
  then obtain f fs where "v = (Hash (f # fs), None)"
      "quota_int (map_of (f # fs) ''rate_limit_max'') FALLBACK_ORG_RATE_LIMIT = Inr n"
      "quota_int (map_of (f # fs) ''rate_limit_window'') FALLBACK_ORG_WINDOW = Inr w"
    using assms unfolding quota_limits_def
    by (cases v rule: prod.exhaust, cases "fst v"; cases "snd v") (auto split: list.splits sum.splits)
  then show ?thesis using Some
    by (simp del: map_of.simps add: get_org_rate_limit_def sx_catch_def sx_bind_def st_hgetall_def)
qed

fun clocked :: "int \<Rightarrow> (nat \<times> reading \<times> scope) list \<Rightarrow> bool" where
  "clocked t [] \<longleftrightarrow> True"
| "clocked t ((d, c, sc) # rs) \<longleftrightarrow> now_ms c = t + int d \<and> clocked (now_ms c) rs"

definition org_request :: "string \<Rightarrow> scope \<Rightarrow> bool" where
  "org_request org sc \<longleftrightarrow> scope_type sc = ''http'' \<and> scope_path sc \<notin> set BYPASS_PATHS \<and> scope_org_id sc = Some org"

abbreviation request_times :: "(nat \<times> reading \<times> scope) list \<Rightarrow> int list" where
  "request_times rs \<equiv> map (\<lambda>(_, c, _). now_ms c) rs"

lemma uuid_hex_eq_iff: "u < 2 ^ 128 \<Longrightarrow> v < 2 ^ 128 \<Longrightarrow> uuid_hex u = uuid_hex v \<longleftrightarrow> u = v"
  by (metis Inr_inject uuid_hex_roundtrip)

lemma log_member_inj: "log_member c = log_member c' \<Longrightarrow> uuid_hex (nonce c) = uuid_hex (nonce c')"
  by (simp add: log_member_def uuid_hex_def)

lemma rate_limit_call_org:
  assumes "org_request org sc" and "org \<noteq> []" and "quota_limits (st (quota_key org)) = Some (n, w)"
    and "check_rate_limit mem_redis c (''rate:api:'' @ org) n w st = (Inr (b, rest), st')"
  shows "\<exists>out. rate_limit_call L S (Some mem_redis) c sc st = (out, st') \<and> forwarded out = b"
proof -
  obtain ch o' where org: "org = ch # o'" using assms(2) by (cases org) auto
  obtain remaining reset where r: "rest = (remaining, reset)" by fastforce
  have "rate_bucket L S mem_redis sc st = (Inr (n, w, ''rate:api:'' @ org), st)"
    using assms(1) get_org_rate_limit_mem[of st org, OF assms(3)]
    by (simp add: rate_bucket_def org_request_def org sx_bind_def sx_return_def)
  then show ?thesis using assms(1,4) r
    by (cases b) (simp_all add: rate_limit_call_def org_request_def st_ping_def sx_bind_def sx_return_def)
qed

lemma run_requests_log:
  assumes "quota_limits (st (quota_key org)) = Some (n, w)" and "0 < w" and "org \<noteq> []" and "clocked now rs"
    and "\<forall>(_, _, sc) \<in> set rs. org_request org sc"
    and "distinct (map (\<lambda>(_, c, _). uuid_hex (nonce c)) rs)"
    and "bucket_log (1000 * w) now H (st (''rate:api:'' @ org))"
    and "\<forall>t \<in> snd ` set H. 0 \<le> t" and "\<forall>t \<in> snd ` set H. t \<le> now" and "0 \<le> now"
    and "\<forall>(_, c, _) \<in> set rs. log_member c \<notin> fst ` set H"
  shows "map forwarded (run_requests L S mem_redis rs st) = window_log (1000 * w) n (map snd H) (request_times rs)"
  using assms
proof (induction rs arbitrary: now H st)
  case Nil
  then show ?case by simp
next
  case (Cons r rs)
  obtain d c sc where r: "r = (d, c, sc)" by (cases r)
  let ?key = "''rate:api:'' @ org" and ?st = "st_elapse d st"
  have now: "now_ms c = now + int d" and clk: "clocked (now_ms c) rs" using Cons.prems(4) r by auto
  have q: "quota_limits (?st (quota_key org)) = Some (n, w)" using Cons.prems(1) quota_limits_elapse by metis
  have inv: "bucket_log (1000 * w) (now_ms c) H (?st ?key)" using bucket_log_elapse[of _ _ H st ?key] Cons.prems(7) now by simp
  have le: "\<forall>t \<in> snd ` set H. t \<le> now_ms c" and ge: "0 \<le> now_ms c" using Cons.prems(9,10) now by auto
  have mem: "log_member c \<notin> fst ` set H" using Cons.prems(11) r by simp
  obtain rest st' where c: "check_rate_limit mem_redis c ?key n w ?st
        = (Inr (int (length (filter (\<lambda>t. t > now_ms c - 1000 * w) (map snd H))) < n, rest), st')"
      and inv': "bucket_log (1000 * w) (now_ms c) (H @ [(log_member c, now_ms c)]) (st' ?key)"
      and frame: "\<And>k. k \<noteq> ?key \<Longrightarrow> st' k = ?st k"
    using check_rate_limit_mem[of w c H ?st ?key n, OF inv Cons.prems(8) le mem Cons.prems(2)] by blast
  have req: "org_request org sc" using Cons.prems(5) r by simp
  obtain out where out: "rate_limit_call L S (Some mem_redis) c sc ?st = (out, st')"
      "forwarded out = (int (length (filter (\<lambda>t. t > now_ms c - 1000 * w) (map snd H))) < n)"
    using rate_limit_call_org[OF req Cons.prems(3) q c] by blast
  have "quota_key org \<noteq> ?key" by (simp add: quota_key_def)
  then have q': "quota_limits (st' (quota_key org)) = Some (n, w)" using q frame by simp
  have "map forwarded (run_requests L S mem_redis rs st')
      = window_log (1000 * w) n (map snd (H @ [(log_member c, now_ms c)])) (request_times rs)"
  proof (rule Cons.IH[OF q' Cons.prems(2,3) clk _ _ inv' _ _ ge])
    show "\<forall>(_, c', _) \<in> set rs. log_member c' \<notin> fst ` set (H @ [(log_member c, now_ms c)])"
    proof (clarify, goal_cases)
      case (1 d' c' sc' m u)
      then have "log_member c' \<noteq> log_member c" using Cons.prems(6) r log_member_inj[of c' c] by force
      moreover have "log_member c' \<notin> fst ` set H" using Cons.prems(11) 1 by force
      ultimately show ?case using 1 by force
    qed
  qed (use Cons.prems(5,6,8) r le ge in auto)
  then show ?case using out by (simp add: r)
qed

section \<open>Properties\<close>

lemma untrusted_client_ip: "\<not> is_trusted_proxy L (peer_of sc) (TRUSTED_PROXY_IPS S) \<Longrightarrow> get_client_ip L S sc = peer_of sc"
  by (simp add: get_client_ip_def Let_def split: option.split)

lemma rate_bucket_headers:
  assumes "\<not> is_trusted_proxy L (peer_of sc) (TRUSTED_PROXY_IPS S)"
  shows "rate_bucket L S R (sc\<lparr>scope_headers := hs\<rparr>) = rate_bucket L S R sc"
proof -
  have peer: "peer_of (sc\<lparr>scope_headers := hs\<rparr>) = peer_of sc" by (simp add: peer_of_def)
  then have "get_client_ip L S (sc\<lparr>scope_headers := hs\<rparr>) = get_client_ip L S sc"
    using assms untrusted_client_ip[of L sc S] untrusted_client_ip[of L "sc\<lparr>scope_headers := hs\<rparr>" S] by simp
  then show ?thesis by (simp add: rate_bucket_def split: option.split list.split)
qed

text \<open>
  C32: the limiter is an exact sliding window. For any requests of one organization, at any
  spacing, the middleware forwards exactly those before which fewer than the quota's number of
  requests arrived within the window, and so in no interval of the window's length does it
  forward more requests than the quota allows. Requests it rejected count as well.
\<close>

theorem rate_limit_window_bound:
  assumes "redis_server R view" and "quota_limits (view s (quota_key org)) = Some (n, w)" and "0 < w" and "org \<noteq> []"
    and "view s (''rate:api:'' @ org) = None" and "clocked start rs" and "0 \<le> start"
    and "\<forall>(_, _, sc) \<in> set rs. org_request org sc" and "distinct (map (\<lambda>(_, c, _). uuid_hex (nonce c)) rs)"
  shows "map forwarded (run_requests L S R rs s) = window_log (1000 * w) n [] (request_times rs)
    \<and> length (filter (\<lambda>(t, out). forwarded out \<and> a - 1000 * w < t \<and> t \<le> a) (zip (request_times rs) (run_requests L S R rs s))) \<le> nat n"
proof -
  have "bucket_log (1000 * w) start [] (view s (''rate:api:'' @ org))" using assms(5) by (simp add: bucket_log_def)
  then have log: "map forwarded (run_requests L S R rs s) = window_log (1000 * w) n [] (request_times rs)"
    using run_requests_log[of "view s" org n w start rs "[]" L S, OF assms(2-4,6,8,9)] assms(7)
      redis_server.run_requests_mem[OF assms(1), of L S rs s] by simp
  have "length (filter (\<lambda>(t, out). forwarded out \<and> a - 1000 * w < t \<and> t \<le> a) (zip ts outs))
      = length (filter (\<lambda>(t, b). b \<and> a - 1000 * w < t \<and> t \<le> a) (zip ts (map forwarded outs)))" for ts outs
    by (simp add: zip_map2 filter_map comp_def case_prod_beta')
  from this[of "request_times rs" "run_requests L S R rs s"]
  show ?thesis using log window_log_bound[of a "1000 * w" "request_times rs" n "[]"] by simp
qed

definition sample_rl :: rl_settings where
  "sample_rl = \<lparr>RATE_LIMIT_IP_MAX = 10, RATE_LIMIT_WINDOW_SEC = 60, TRUSTED_PROXY_IPS = ''127.0.0.1''\<rparr>"

definition sample_ips :: "string ip_lib" where
  "sample_ips = \<lparr>ip_address = Some, ip_in_network = (\<lambda>_ _. Some False)\<rparr>"

definition sample_scope :: "string option \<Rightarrow> scope" where
  "sample_scope org = \<lparr>scope_type = ''http'', scope_path = ''/v1/memory'', scope_client = Some ''10.1.1.1'',
     scope_headers = [], scope_org_id = org\<rparr>"

definition at_ms :: "int \<Rightarrow> uuid \<Rightarrow> reading" where
  "at_ms t u = \<lparr>now_ms = t, now_s = t div 1000, after_s = t div 1000, nonce = u\<rparr>"

definition sample_quota :: store where
  "sample_quota = [''org:quota:o'' \<mapsto> (Hash [(''rate_limit_max'', Num 2), (''rate_limit_window'', Num 1)], None)]"

definition sample_requests :: "(nat \<times> reading \<times> scope) list" where
  "sample_requests = map (\<lambda>(d, t, u). (d, at_ms t u, sample_scope (Some ''o''))) [(0, 5000, 1), (10, 5010, 2), (20, 5030, 3), (1500, 6530, 4)]"

theorem rate_limit_window_bound_witness:
  "map forwarded (run_requests sample_ips sample_rl counting_redis sample_requests (sample_quota, 0))
     = window_log 1000 2 [] (request_times sample_requests)
   \<and> window_log 1000 2 [] (request_times sample_requests) = [True, True, False, True]"
proof -
  have q: "quota_limits (fst (sample_quota, 0 :: nat) (quota_key ''o'')) = Some (2, 1)" by code_simp
  have k: "fst (sample_quota, 0 :: nat) (''rate:api:'' @ ''o'') = None" by code_simp
  have c: "clocked 5000 sample_requests" by code_simp
  have r: "\<forall>(_, _, sc) \<in> set sample_requests. org_request ''o'' sc" by code_simp
  have d: "distinct (map (\<lambda>(_, c, _). uuid_hex (nonce c)) sample_requests)"
    by (simp add: sample_requests_def at_ms_def uuid_hex_eq_iff)
  have "window_log 1000 2 [] (request_times sample_requests) = [True, True, False, True]" by code_simp
  then show ?thesis
    using rate_limit_window_bound[of counting_redis fst "(sample_quota, 0)" "''o''" 2 1 5000 sample_requests sample_ips sample_rl 0]
      counting.redis_server_axioms q k c r d by simp
qed

text \<open>
  The limiter fails closed and a client cannot pick its bucket. A request that is neither
  for a bypass path nor of another protocol reaches the application only when Redis answered
  and the window check admitted it, and it is answered 503 when the client is missing or any of
  the calls fails; and when the peer is no trusted proxy, the headers of the request change neither
  the answer nor the state.
\<close>

theorem rate_limit_fails_closed:
  assumes "scope_type sc = ''http''" and "scope_path sc \<notin> set BYPASS_PATHS"
  shows "(forwarded (fst (rate_limit_call L S client c sc s)) \<longleftrightarrow>
           (\<exists>R t n w key u rest v. client = Some R \<and> redis_ping R s = (Inr (), t) \<and> rate_bucket L S R sc t = (Inr (n, w, key), u)
              \<and> check_rate_limit R c key n w u = (Inr (True, rest), v)))
    \<and> (fst (rate_limit_call L S client c sc s) = Reject503 \<longleftrightarrow>
           (\<forall>R t. client = Some R \<and> redis_ping R s = (Inr (), t) \<longrightarrow>
              (\<exists>e u. rate_bucket L S R sc t = (Inl e, u))
              \<or> (\<exists>n w key u e v. rate_bucket L S R sc t = (Inr (n, w, key), u) \<and> check_rate_limit R c key n w u = (Inl e, v))))
    \<and> (\<not> is_trusted_proxy L (peer_of sc) (TRUSTED_PROXY_IPS S) \<longrightarrow>
         rate_limit_call L S client c (sc\<lparr>scope_headers := hs\<rparr>) s = rate_limit_call L S client c sc s)"
proof (intro conjI)
  show "forwarded (fst (rate_limit_call L S client c sc s)) \<longleftrightarrow>
           (\<exists>R t n w key u rest v. client = Some R \<and> redis_ping R s = (Inr (), t) \<and> rate_bucket L S R sc t = (Inr (n, w, key), u)
              \<and> check_rate_limit R c key n w u = (Inr (True, rest), v))"
    using assms by (auto simp: rate_limit_call_def sx_bind_def sx_return_def split: option.splits prod.splits sum.splits if_splits)
next
  show "fst (rate_limit_call L S client c sc s) = Reject503 \<longleftrightarrow>
           (\<forall>R t. client = Some R \<and> redis_ping R s = (Inr (), t) \<longrightarrow>
              (\<exists>e u. rate_bucket L S R sc t = (Inl e, u))
              \<or> (\<exists>n w key u e v. rate_bucket L S R sc t = (Inr (n, w, key), u) \<and> check_rate_limit R c key n w u = (Inl e, v)))"
    using assms by (auto simp: rate_limit_call_def sx_bind_def sx_return_def split: option.splits prod.splits sum.splits if_splits)
next
  show "\<not> is_trusted_proxy L (peer_of sc) (TRUSTED_PROXY_IPS S) \<longrightarrow>
         rate_limit_call L S client c (sc\<lparr>scope_headers := hs\<rparr>) s = rate_limit_call L S client c sc s"
  proof
    assume untrusted: "\<not> is_trusted_proxy L (peer_of sc) (TRUSTED_PROXY_IPS S)"
    show "rate_limit_call L S client c (sc\<lparr>scope_headers := hs\<rparr>) s = rate_limit_call L S client c sc s"
      unfolding rate_limit_call_def rate_bucket_headers[OF untrusted] by simp
  qed
qed

theorem rate_limit_fails_closed_witness:
  "fst (rate_limit_call sample_ips sample_rl (None :: store redis option) (at_ms 0 1) (sample_scope None) (\<lambda>_. None)) = Reject503
   \<and> rate_limit_call sample_ips sample_rl (Some mem_redis) (at_ms 0 1)
        ((sample_scope None)\<lparr>scope_headers := [(''X-Forwarded-For'', ''8.8.8.8'')]\<rparr>) (\<lambda>_. None)
      = rate_limit_call sample_ips sample_rl (Some mem_redis) (at_ms 0 1) (sample_scope None) (\<lambda>_. None)"
proof -
  have h: "scope_type (sample_scope None) = ''http''" and p: "scope_path (sample_scope None) \<notin> set BYPASS_PATHS" by code_simp+
  have u: "\<not> is_trusted_proxy sample_ips (peer_of (sample_scope None)) (TRUSTED_PROXY_IPS sample_rl)" by code_simp
  show ?thesis
    using rate_limit_fails_closed[OF h p, of sample_ips sample_rl "None :: store redis option"]
      rate_limit_fails_closed[OF h p, of sample_ips sample_rl "Some mem_redis" _ "\<lambda>_. None" "[(''X-Forwarded-For'', ''8.8.8.8'')]"] u
    by simp
qed

end
