(* ===== verification/Auth_Throttle.thy ===== *)
theory Auth_Throttle
  imports Redis
begin

text \<open>
  The throttle of the authentication endpoints (\<^verbatim>\<open>middleware/auth_throttle.py\<close>): counters in
  Redis per email and per address, made by INCR and given a time to live by a separate EXPIRE
  when the count is one. Shown: within a window no account and no address gets more attempts
  through than its limit plus the successes that gave attempts back, whatever the spelling of the
  email; and a counter that lost its EXPIRE locks the account for good.
\<close>

section \<open>Counters\<close>

record throttle =
  login_max_per_ip :: int
  login_window_sec :: nat
  login_max_per_email :: int
  signup_max_per_ip :: int
  signup_window_sec :: nat

definition default_throttle :: throttle where
  "default_throttle =
     \<lparr>login_max_per_ip = 20, login_window_sec = 900, login_max_per_email = 5,
      signup_max_per_ip = 3, signup_window_sec = 3600\<rparr>"

definition normalize_email :: "string \<Rightarrow> string" where
  "normalize_email email = py_lower (py_strip email)"

definition normalize_ip :: "string \<Rightarrow> string" where
  "normalize_ip ip = py_strip ip"

text \<open>\<^verbatim>\<open>n = incr(key); if n == 1: expire(key, window)\<close>, the step every check begins with.\<close>

definition bump :: "'s redis \<Rightarrow> string \<Rightarrow> nat \<Rightarrow> ('s, int) sx" where
  "bump R key window =
     sx_bind (redis_incr R key) (\<lambda>n.
       if n = 1 then sx_bind (redis_expire R key window) (\<lambda>_. sx_return n) else sx_return n)"

definition decrement_if_positive :: "'s redis \<Rightarrow> string \<Rightarrow> ('s, unit) sx" where
  "decrement_if_positive R key =
     sx_bind (redis_get R key) (\<lambda>current.
       case current of
         Some (Num n) \<Rightarrow> if n > 0 then sx_bind (redis_decr R key) (\<lambda>_. sx_return ()) else sx_return ()
       | Some _ \<Rightarrow> sx_raise ValueError
       | None \<Rightarrow> sx_return ())"

text \<open>Both counters are bumped before either is compared with its limit.\<close>

definition check_pair ::
  "'s redis \<Rightarrow> string \<Rightarrow> nat \<Rightarrow> int \<Rightarrow> string \<Rightarrow> nat \<Rightarrow> int \<Rightarrow> ('s, unit) sx" where
  "check_pair R email_key email_window email_max ip_key ip_window ip_max =
     sx_bind (bump R email_key email_window) (\<lambda>email_attempts.
     sx_bind (bump R ip_key ip_window) (\<lambda>ip_attempts.
       if email_attempts > email_max then sx_raise RateLimitError
       else if ip_attempts > ip_max then sx_raise RateLimitError
       else sx_return ()))"

section \<open>The checks\<close>

definition login_email_key :: "string \<Rightarrow> string" where
  "login_email_key email = ''auth:throttle:login:email:'' @ normalize_email email"

definition login_ip_key :: "string \<Rightarrow> string" where
  "login_ip_key ip = ''auth:throttle:login:ip:'' @ normalize_ip ip"

definition check_login_attempt :: "'s redis \<Rightarrow> throttle \<Rightarrow> string \<Rightarrow> string \<Rightarrow> ('s, unit) sx" where
  "check_login_attempt R T email ip =
     check_pair R (login_email_key email) (login_window_sec T) (login_max_per_email T)
       (login_ip_key ip) (login_window_sec T) (login_max_per_ip T)"

definition record_login_success :: "'s redis \<Rightarrow> string \<Rightarrow> string \<Rightarrow> ('s, unit) sx" where
  "record_login_success R email ip =
     sx_bind (decrement_if_positive R (login_email_key email)) (\<lambda>_. decrement_if_positive R (login_ip_key ip))"

definition check_signup_attempt :: "'s redis \<Rightarrow> throttle \<Rightarrow> string \<Rightarrow> ('s, unit) sx" where
  "check_signup_attempt R T ip =
     sx_bind (bump R (''auth:throttle:signup:ip:'' @ ip) (signup_window_sec T)) (\<lambda>attempts.
       if attempts > signup_max_per_ip T then sx_raise RateLimitError else sx_return ())"

definition check_verify_attempt :: "'s redis \<Rightarrow> string \<Rightarrow> string \<Rightarrow> ('s, unit) sx" where
  "check_verify_attempt R email ip =
     check_pair R (''auth:throttle:verify:email:'' @ email) 900 10 (''auth:throttle:verify:ip:'' @ ip) 900 20"

definition check_forgot_password_attempt :: "'s redis \<Rightarrow> string \<Rightarrow> string \<Rightarrow> ('s, unit) sx" where
  "check_forgot_password_attempt R email ip =
     check_pair R (''auth:throttle:forgot:email:'' @ email) 3600 3 (''auth:throttle:forgot:ip:'' @ ip) 900 10"

definition check_reset_attempt :: "'s redis \<Rightarrow> string \<Rightarrow> string \<Rightarrow> ('s, unit) sx" where
  "check_reset_attempt R email ip =
     check_pair R (''auth:throttle:reset:email:'' @ normalize_email email) 900 10
       (''auth:throttle:reset:ip:'' @ normalize_ip ip) 900 20"

definition record_reset_success :: "'s redis \<Rightarrow> string \<Rightarrow> string \<Rightarrow> ('s, unit) sx" where
  "record_reset_success R email ip =
     sx_bind (decrement_if_positive R (''auth:throttle:reset:email:'' @ normalize_email email)) (\<lambda>_.
       decrement_if_positive R (''auth:throttle:reset:ip:'' @ normalize_ip ip))"

definition check_passwordless_send :: "'s redis \<Rightarrow> string \<Rightarrow> string \<Rightarrow> ('s, unit) sx" where
  "check_passwordless_send R email ip =
     check_pair R (''auth:throttle:passwordless:send:email:'' @ email) 3600 5
       (''auth:throttle:passwordless:send:ip:'' @ ip) 900 10"

definition check_passwordless_verify :: "'s redis \<Rightarrow> string \<Rightarrow> string \<Rightarrow> ('s, unit) sx" where
  "check_passwordless_verify R email ip =
     check_pair R (''auth:throttle:passwordless:verify:email:'' @ email) 900 10
       (''auth:throttle:passwordless:verify:ip:'' @ ip) 900 20"

definition check_mfa_send :: "'s redis \<Rightarrow> string \<Rightarrow> string \<Rightarrow> ('s, unit) sx" where
  "check_mfa_send R email ip =
     check_pair R (''auth:throttle:mfa:send:email:'' @ email) 3600 5 (''auth:throttle:mfa:send:ip:'' @ ip) 900 10"

definition check_mfa_verify :: "'s redis \<Rightarrow> string \<Rightarrow> string \<Rightarrow> ('s, unit) sx" where
  "check_mfa_verify R email ip =
     check_pair R (''auth:throttle:mfa:verify:email:'' @ email) 900 10 (''auth:throttle:mfa:verify:ip:'' @ ip) 900 20"

section \<open>Login traffic\<close>

datatype login_op = is_attempt: Attempt string string | is_success: Success string string

definition login_op_run :: "'s redis \<Rightarrow> throttle \<Rightarrow> login_op \<Rightarrow> ('s, unit) sx" where
  "login_op_run R T op =
     (case op of
        Attempt email ip \<Rightarrow> check_login_attempt R T email ip
      | Success email ip \<Rightarrow> record_login_success R email ip)"

text \<open>The traffic, one operation after the other, each with the milliseconds before it.\<close>

fun login_run :: "'s redis \<Rightarrow> throttle \<Rightarrow> (nat \<times> login_op) list \<Rightarrow> 's \<Rightarrow> (login_op \<times> unit res) list" where
  "login_run R T [] s = []"
| "login_run R T ((d, op) # ops) s =
     (case login_op_run R T op (redis_elapse R d s) of (r, t) \<Rightarrow> (op, r) # login_run R T ops t)"

definition passes :: "(login_op \<Rightarrow> bool) \<Rightarrow> (login_op \<times> unit res) list \<Rightarrow> nat" where
  "passes P trail = length (filter (\<lambda>(op, r). P op \<and> is_attempt op \<and> r = Inr ()) trail)"

definition successes :: "(login_op \<Rightarrow> bool) \<Rightarrow> (login_op \<times> unit res) list \<Rightarrow> nat" where
  "successes P trail = length (filter (\<lambda>(op, r). P op \<and> is_success op) trail)"

fun op_email_key :: "login_op \<Rightarrow> string" where
  "op_email_key (Attempt email ip) = login_email_key email"
| "op_email_key (Success email ip) = login_email_key email"

fun op_ip_key :: "login_op \<Rightarrow> string" where
  "op_ip_key (Attempt email ip) = login_ip_key ip"
| "op_ip_key (Success email ip) = login_ip_key ip"

section \<open>Counters on the reference store\<close>

definition bumped :: "nat \<Rightarrow> (rval \<times> nat option) option \<Rightarrow> (int \<times> rval \<times> nat option) option" where
  "bumped w v =
     (case v of
        None \<Rightarrow> Some (1, Num 1, Some (1000 * w))
      | Some (Num c, ttl) \<Rightarrow> Some (c + 1, Num (c + 1), if c + 1 = 1 then Some (1000 * w) else ttl)
      | _ \<Rightarrow> None)"

lemma bump_mem:
  "0 < w \<Longrightarrow> bump mem_redis k w st =
     (case bumped w (st k) of None \<Rightarrow> (Inl RedisError, st) | Some (n, v) \<Rightarrow> (Inr n, st(k \<mapsto> v)))"
  by (auto simp: bump_def bumped_def sx_bind_def sx_return_def st_add_def st_expire_def
      split: option.splits rval.splits)

lemma check_pair_mem:
  assumes "check_pair mem_redis ek ew em ik iw im st = (r, t)" and "ek \<noteq> ik" and "0 < ew" "0 < iw"
    and "(k, w, m) = (ek, ew, em) \<or> (k, w, m) = (ik, iw, im)"
  shows "(r \<noteq> Inr () \<and> t k = st k) \<or> (\<exists>n v. bumped w (st k) = Some (n, v) \<and> t k = Some v \<and> (r = Inr () \<longrightarrow> n \<le> m))"
proof (cases "bumped ew (st ek)")
  case None
  then show ?thesis using assms(1,3) by (auto simp: check_pair_def sx_bind_def bump_mem)
next
  case (Some b)
  obtain n v where b: "b = (n, v)" by (cases b) auto
  show ?thesis
  proof (cases "bumped iw (st ik)")
    case None
    then show ?thesis using assms Some b by (auto simp: check_pair_def sx_bind_def bump_mem)
  next
    case i: (Some q)
    obtain n' v' where q: "q = (n', v')" by (cases q) auto
    show ?thesis using assms Some b i q
      by (auto simp: check_pair_def sx_bind_def bump_mem sx_raise_def sx_return_def split: if_splits)
  qed
qed

lemma check_pair_frame:
  "0 < ew \<Longrightarrow> 0 < iw \<Longrightarrow> check_pair mem_redis ek ew em ik iw im st = (r, t) \<Longrightarrow> k \<noteq> ek \<Longrightarrow> k \<noteq> ik \<Longrightarrow> t k = st k"
  by (auto simp: check_pair_def sx_bind_def bump_mem sx_raise_def sx_return_def split: if_splits option.splits prod.splits)

definition decremented :: "(rval \<times> nat option) option \<Rightarrow> (rval \<times> nat option) option" where
  "decremented v = (case v of Some (Num c, ttl) \<Rightarrow> Some (Num (if c > 0 then c - 1 else c), ttl) | _ \<Rightarrow> v)"

lemma decrement_mem:
  "\<exists>r. decrement_if_positive mem_redis k st = (r, st(k := decremented (st k)))"
  by (auto simp: decrement_if_positive_def decremented_def sx_bind_def sx_return_def sx_raise_def st_get_def st_add_def
      fun_upd_idem split: option.splits rval.splits)

text \<open>A success may stop after the email counter, when its address counter is not a number.\<close>

lemma record_success_key:
  assumes "record_login_success mem_redis email ip st = (r, t)"
  shows "t k = st k \<or> (t k = decremented (st k) \<and> (k = login_email_key email \<or> k = login_ip_key ip))"
proof -
  obtain r1 where 1: "decrement_if_positive mem_redis (login_email_key email) st
      = (r1, st(login_email_key email := decremented (st (login_email_key email))))" (is "_ = (_, ?s1)") using decrement_mem by blast
  obtain r2 where 2: "decrement_if_positive mem_redis (login_ip_key ip) ?s1 = (r2, ?s1(login_ip_key ip := decremented (?s1 (login_ip_key ip))))"
    using decrement_mem by blast
  have "login_email_key email \<noteq> login_ip_key ip" by (simp add: login_email_key_def login_ip_key_def)
  then show ?thesis using assms 1 2 by (cases r1) (auto simp: record_login_success_def sx_bind_def split: if_splits)
qed

section \<open>Counting the attempts of a window\<close>

text \<open>
  The state of one counter after \<open>p\<close> passes and \<open>q\<close> successes that concern it, with \<open>left\<close>
  milliseconds of the traffic to come.
\<close>

definition counter_inv :: "nat \<Rightarrow> nat \<Rightarrow> nat \<Rightarrow> (rval \<times> nat option) option \<Rightarrow> bool" where
  "counter_inv p q left v \<longleftrightarrow>
     (v = None \<and> p = 0) \<or> (\<exists>c l. v = Some (Num c, Some l) \<and> int p \<le> c + int q \<and> left < l)"

lemma counter_inv_elapse: "counter_inv p q (d + left) (st k) \<Longrightarrow> counter_inv p q left (st_elapse d st k)"
  by (auto simp: counter_inv_def st_elapse_def)

lemma counter_inv_bumped:
  assumes "counter_inv p q left v" and "bumped w v = Some (n, u)" and "left < 1000 * w"
  shows "counter_inv (Suc p) q left (Some u)" and "int (Suc p) \<le> n + int q"
  using assms by (auto simp: counter_inv_def bumped_def split: if_splits)

lemma counter_inv_decremented:
  "counter_inv p q left v \<Longrightarrow> counter_inv p (Suc q) left (decremented v)"
  by (auto simp: counter_inv_def decremented_def split: if_splits)

lemma counter_inv_mono: "counter_inv p q left v \<Longrightarrow> p' \<le> p \<Longrightarrow> q \<le> q' \<Longrightarrow> counter_inv p' q' left v"
  by (fastforce simp: counter_inv_def)

text \<open>
  The traffic seen by one counter: which operations concern it, and what an operation does to it.
\<close>

definition sees :: "throttle \<Rightarrow> string \<Rightarrow> (login_op \<Rightarrow> bool) \<Rightarrow> nat \<Rightarrow> int \<Rightarrow> bool" where
  "sees T k P w m \<longleftrightarrow>
     (\<forall>op st r t. login_op_run mem_redis T op st = (r, t) \<longrightarrow>
        (if \<not> P op then t k = st k
         else if is_success op then t k = st k \<or> t k = decremented (st k)
         else (r \<noteq> Inr () \<and> t k = st k)
           \<or> (\<exists>n v. bumped w (st k) = Some (n, v) \<and> t k = Some v \<and> (r = Inr () \<longrightarrow> n \<le> m))))"

lemma login_keys_differ [simp]: "login_email_key e \<noteq> login_ip_key i" "login_ip_key i \<noteq> login_email_key e"
  by (simp_all add: login_email_key_def login_ip_key_def)

lemma sees_email:
  assumes "0 < login_window_sec T"
  shows "sees T (login_email_key e) (\<lambda>op. op_email_key op = login_email_key e) (login_window_sec T) (login_max_per_email T)"
  unfolding sees_def
proof (intro allI impI)
  fix op and st :: store and r t
  assume run: "login_op_run mem_redis T op st = (r, t)"
  show "if op_email_key op \<noteq> login_email_key e then t (login_email_key e) = st (login_email_key e)
    else if is_success op then t (login_email_key e) = st (login_email_key e) \<or> t (login_email_key e) = decremented (st (login_email_key e))
    else (r \<noteq> Inr () \<and> t (login_email_key e) = st (login_email_key e))
      \<or> (\<exists>n v. bumped (login_window_sec T) (st (login_email_key e)) = Some (n, v) \<and> t (login_email_key e) = Some v \<and> (r = Inr () \<longrightarrow> n \<le> login_max_per_email T))"
  proof (cases op)
    case (Attempt email ip)
    then have cp: "check_pair mem_redis (login_email_key email) (login_window_sec T) (login_max_per_email T)
        (login_ip_key ip) (login_window_sec T) (login_max_per_ip T) st = (r, t)"
      using run by (simp add: login_op_run_def check_login_attempt_def)
    show ?thesis
      using Attempt check_pair_mem[OF cp _ assms assms, of "login_email_key e" "login_window_sec T" "login_max_per_email T"]
        check_pair_frame[OF assms assms cp, of "login_email_key e"] by auto
  next
    case (Success email ip)
    then have "record_login_success mem_redis email ip st = (r, t)" using run by (simp add: login_op_run_def)
    from record_success_key[OF this, of "login_email_key e"] show ?thesis using Success by auto
  qed
qed

lemma sees_ip:
  assumes "0 < login_window_sec T"
  shows "sees T (login_ip_key i) (\<lambda>op. op_ip_key op = login_ip_key i) (login_window_sec T) (login_max_per_ip T)"
  unfolding sees_def
proof (intro allI impI)
  fix op and st :: store and r t
  assume run: "login_op_run mem_redis T op st = (r, t)"
  show "if op_ip_key op \<noteq> login_ip_key i then t (login_ip_key i) = st (login_ip_key i)
    else if is_success op then t (login_ip_key i) = st (login_ip_key i) \<or> t (login_ip_key i) = decremented (st (login_ip_key i))
    else (r \<noteq> Inr () \<and> t (login_ip_key i) = st (login_ip_key i))
      \<or> (\<exists>n v. bumped (login_window_sec T) (st (login_ip_key i)) = Some (n, v) \<and> t (login_ip_key i) = Some v \<and> (r = Inr () \<longrightarrow> n \<le> login_max_per_ip T))"
  proof (cases op)
    case (Attempt email ip)
    then have cp: "check_pair mem_redis (login_email_key email) (login_window_sec T) (login_max_per_email T)
        (login_ip_key ip) (login_window_sec T) (login_max_per_ip T) st = (r, t)"
      using run by (simp add: login_op_run_def check_login_attempt_def)
    show ?thesis
      using Attempt check_pair_mem[OF cp _ assms assms, of "login_ip_key i" "login_window_sec T" "login_max_per_ip T"]
        check_pair_frame[OF assms assms cp, of "login_ip_key i"] by auto
  next
    case (Success email ip)
    then have "record_login_success mem_redis email ip st = (r, t)" using run by (simp add: login_op_run_def)
    from record_success_key[OF this, of "login_ip_key i"] show ?thesis using Success by auto
  qed
qed

lemma login_run_bound:
  assumes "sees T k P w m" and "counter_inv p q (sum_list (map fst ops)) (st k)" and "sum_list (map fst ops) < 1000 * w"
    and "p \<le> nat m + q"
  shows "p + passes P (login_run mem_redis T ops st) \<le> nat m + (q + successes P (login_run mem_redis T ops st))"
  using assms(2-)
proof (induction ops arbitrary: p q st)
  case Nil
  then show ?case by (simp add: passes_def successes_def)
next
  case (Cons x ops)
  obtain d op where x: "x = (d, op)" by fastforce
  let ?left = "sum_list (map fst ops)"
  obtain r t where run: "login_op_run mem_redis T op (st_elapse d st) = (r, t)" by fastforce
  have inv: "counter_inv p q ?left (st_elapse d st k)" using counter_inv_elapse[of p q d ?left st k] Cons.prems(1) x by simp
  have left: "?left < 1000 * w" using Cons.prems(2) x by simp
  note eff = assms(1)[unfolded sees_def, rule_format, OF run]
  have IH: "counter_inv p' q' ?left (t k) \<Longrightarrow> p' \<le> nat m + q' \<Longrightarrow>
      p' + passes P (login_run mem_redis T ops t) \<le> nat m + (q' + successes P (login_run mem_redis T ops t))" for p' q'
    using Cons.IH left by blast
  have unfold: "login_run mem_redis T (x # ops) st = (op, r) # login_run mem_redis T ops t" using run by (simp add: x)
  consider (other) "\<not> P op" | (success) "P op" "is_success op" | (fail) "P op" "is_attempt op" "r \<noteq> Inr ()"
    | (pass) "P op" "is_attempt op" "r = Inr ()" by (cases op) auto
  then show ?case
  proof cases
    case other
    then show ?thesis using IH[of p q] inv eff Cons.prems(3) by (simp add: unfold passes_def successes_def)
  next
    case success
    then have "counter_inv p (Suc q) ?left (t k)"
      using eff inv counter_inv_decremented[of p q] counter_inv_mono[of p q ?left _ p "Suc q"] by auto
    then show ?thesis using IH[of p "Suc q"] success Cons.prems(3) by (cases op) (simp_all add: unfold passes_def successes_def)
  next
    case fail
    then have "counter_inv p q ?left (t k)"
      using eff inv left counter_inv_bumped(1)[of p q ?left _ w] counter_inv_mono[of "Suc p" q ?left _ p q] by (cases op) auto
    then show ?thesis using IH[of p q] fail Cons.prems(3) by (cases op) (simp_all add: unfold passes_def successes_def)
  next
    case pass
    then obtain n v where b: "bumped w (st_elapse d st k) = Some (n, v)" "t k = Some v" "n \<le> m"
      using eff by (cases op) auto
    then have "counter_inv (Suc p) q ?left (t k)" "Suc p \<le> nat m + q"
      using counter_inv_bumped[OF inv b(1) left] by simp_all
    then show ?thesis using IH[of "Suc p" q] pass by (cases op) (simp_all add: unfold passes_def successes_def)
  qed
qed

lemma locked_run_bound:
  assumes "sees T k P w m" and "st k = Some (Num c, None)" and "1 \<le> c" and "\<forall>(_, op) \<in> set ops. P op \<longrightarrow> is_attempt op"
  shows "int (passes P (login_run mem_redis T ops st)) \<le> max 0 (m - c)"
  using assms(2-)
proof (induction ops arbitrary: c st)
  case Nil
  then show ?case by (simp add: passes_def)
next
  case (Cons x ops)
  obtain d op where x: "x = (d, op)" by fastforce
  obtain r t where run: "login_op_run mem_redis T op (st_elapse d st) = (r, t)" by fastforce
  have k: "st_elapse d st k = Some (Num c, None)" using Cons.prems(1) by (simp add: st_elapse_def)
  note eff = assms(1)[unfolded sees_def, rule_format, OF run, unfolded k]
  have unfold: "login_run mem_redis T (x # ops) st = (op, r) # login_run mem_redis T ops t" using run by (simp add: x)
  have ops: "\<forall>(_, op) \<in> set ops. P op \<longrightarrow> is_attempt op" using Cons.prems(3) by auto
  have IH: "t k = Some (Num c', None) \<Longrightarrow> 1 \<le> c' \<Longrightarrow> int (passes P (login_run mem_redis T ops t)) \<le> max 0 (m - c')" for c'
    using Cons.IH ops by blast
  consider (same) "t k = Some (Num c, None)" "\<not> (P op \<and> r = Inr ())"
    | (more) "t k = Some (Num (c + 1), None)" "r = Inr () \<longrightarrow> c + 1 \<le> m"
    using eff Cons.prems(2,3) x by (cases "P op"; cases op) (auto simp: bumped_def split: if_splits)
  then show ?case
  proof cases
    case same
    then show ?thesis using IH[of c] Cons.prems(2) by (auto simp: unfold passes_def)
  next
    case more
    then show ?thesis using IH[of "c + 1"] Cons.prems(2) by (auto simp: unfold passes_def)
  qed
qed

section \<open>Simulation\<close>

context redis_server
begin

lemma bump_sim: "sim view (bump R k w) (bump mem_redis k w)"
  unfolding bump_def by (intro sim_bind sim_if sim_return incr_law expire_law)

lemma decrement_sim: "sim view (decrement_if_positive R k) (decrement_if_positive mem_redis k)"
  unfolding decrement_if_positive_def
  by (intro sim_bind get_law) (auto simp del: mem_redis_simps intro!: sim_bind decr_law split: option.split rval.split)

lemma login_op_run_sim: "sim view (login_op_run R T op) (login_op_run mem_redis T op)"
  unfolding login_op_run_def check_login_attempt_def check_pair_def record_login_success_def
  by (auto intro!: sim_bind bump_sim decrement_sim split: login_op.split)

lemma login_run_mem: "login_run R T ops s = login_run mem_redis T ops (view s)"
proof (induction ops arbitrary: s)
  case Nil
  then show ?case by simp
next
  case (Cons x ops)
  obtain d op where x: "x = (d, op)" by fastforce
  obtain r t where run: "login_op_run R T op (redis_elapse R d s) = (r, t)" by fastforce
  have "login_op_run mem_redis T op (redis_elapse mem_redis d (view s)) = (r, view t)"
    using simD[OF login_op_run_sim run] by (simp only: elapse_law)
  then show ?case using run Cons.IH[of t] by (simp add: x del: mem_redis_simps)
qed

end

section \<open>Properties\<close>

lemma no_successes: "\<forall>(_, op) \<in> set ops. is_attempt op \<Longrightarrow> successes P (login_run R T ops s) = 0"
proof (induction ops arbitrary: s)
  case Nil
  then show ?case by (simp add: successes_def)
next
  case (Cons x ops)
  obtain d op where x: "x = (d, op)" by fastforce
  obtain r t where "login_op_run R T op (redis_elapse R d s) = (r, t)" by fastforce
  then show ?case using Cons.IH[of t] Cons.prems by (cases op) (auto simp: x successes_def)
qed

text \<open>
  C33: brute force is bounded. While a throttle window lasts, the login attempts of one account
  that pass the check, under any spelling of its email in case and surrounding white space and from
  any addresses, are at most the per-account limit plus the successful logins that gave an
  attempt back; the same holds for the attempts of one address across all accounts.
\<close>

theorem login_attempts_bounded:
  assumes "redis_server R view" and "view s (login_email_key e) = None" and "view s (login_ip_key i) = None"
    and "sum_list (map fst ops) < 1000 * login_window_sec T"
  shows "passes (\<lambda>op. op_email_key op = login_email_key e) (login_run R T ops s)
      \<le> nat (login_max_per_email T) + successes (\<lambda>op. op_email_key op = login_email_key e) (login_run R T ops s)
    \<and> passes (\<lambda>op. op_ip_key op = login_ip_key i) (login_run R T ops s)
      \<le> nat (login_max_per_ip T) + successes (\<lambda>op. op_ip_key op = login_ip_key i) (login_run R T ops s)"
proof -
  have w: "0 < login_window_sec T" using assms(4) by (cases "login_window_sec T") auto
  have none: "counter_inv 0 0 n None" for n by (simp add: counter_inv_def)
  show ?thesis unfolding redis_server.login_run_mem[OF assms(1)]
    using login_run_bound[OF sees_email[OF w], of 0 0 ops "view s" e] login_run_bound[OF sees_ip[OF w], of 0 0 ops "view s" i]
      none assms(2-4) by simp
qed

definition sample_logins :: "(nat \<times> login_op) list" where
  "sample_logins = map (\<lambda>e. (1000, Attempt e ''10.0.0.1''))
     [''bob@x.io'', ''BOB@x.io'', '' bob@x.io'', ''Bob@x.io '', ''bob@X.io'', ''bob@x.IO'', ''BoB@x.io'']"

theorem login_attempts_bounded_witness:
  "passes (\<lambda>op. op_email_key op = login_email_key ''bob@x.io'') (login_run counting_redis default_throttle sample_logins (\<lambda>_. None, 0)) \<le> 5
   \<and> list_all (\<lambda>(_, op). op_email_key op = login_email_key ''bob@x.io'') sample_logins"
proof -
  have "sum_list (map fst sample_logins) < 1000 * login_window_sec default_throttle" by (simp add: sample_logins_def default_throttle_def)
  moreover have "successes (\<lambda>op. op_email_key op = login_email_key ''bob@x.io'') (login_run counting_redis default_throttle sample_logins (\<lambda>_. None, 0)) = 0"
    by (rule no_successes) (simp add: sample_logins_def)
  moreover have "list_all (\<lambda>(_, op). op_email_key op = login_email_key ''bob@x.io'') sample_logins"
    by (simp add: sample_logins_def login_email_key_def normalize_email_def py_lower_def py_lower_char_def py_strip_def py_isspace_def char_of_def bit_0)
  ultimately show ?thesis
    using login_attempts_bounded[OF counting.redis_server_axioms, of "(\<lambda>_. None, 0)" "''bob@x.io''" "''10.0.0.1''" sample_logins default_throttle]
    by (simp add: default_throttle_def)
qed

text \<open>
  A lost EXPIRE locks an account for good. When the EXPIRE of an account's first attempt fails
  (INCR and EXPIRE are two calls), the counter has no time to live: of all the attempts that
  follow, over any span of time and without a successful login in between, fewer than the limit
  ever pass, whereas the limit is meant per window.
\<close>

theorem lost_expire_locks_out:
  assumes "redis_server R view" and "view s (login_email_key e) = None" and "0 < login_window_sec T"
    and "login_op_run (R\<lparr>redis_expire := \<lambda>_ _ u. (Inl RedisError, u)\<rparr>) T (Attempt e i) s = (r, t)"
    and "\<forall>(_, op) \<in> set ops. op_email_key op = login_email_key e \<longrightarrow> is_attempt op"
  shows "r = Inl RedisError
    \<and> int (passes (\<lambda>op. op_email_key op = login_email_key e) (login_run R T ops t)) \<le> max 0 (login_max_per_email T - 1)"
proof -
  obtain q u where inc: "redis_incr R (login_email_key e) s = (q, u)" by fastforce
  have "st_add 1 (login_email_key e) (view s) = (q, view u)"
    using simD[OF redis_server.incr_law[OF assms(1)] inc] by simp
  then have "q = Inr 1" and "view u = (view s)(login_email_key e \<mapsto> (Num 1, None))" using assms(2) by (auto simp: st_add_def)
  then have q: "q = Inr 1" "view u (login_email_key e) = Some (Num 1, None)" by simp_all
  then have "r = Inl RedisError" "t = u" using assms(4) inc
    by (auto simp: login_op_run_def check_login_attempt_def check_pair_def bump_def sx_bind_def)
  then show ?thesis
    using locked_run_bound[OF sees_email[OF assms(3)], of "view u" e 1 ops] q(2) assms(5)
      redis_server.login_run_mem[OF assms(1)] by simp
qed

theorem lost_expire_locks_out_witness:
  "\<exists>t. login_op_run (mem_redis\<lparr>redis_expire := \<lambda>_ _ u. (Inl RedisError, u)\<rparr>) default_throttle (Attempt ''bob@x.io'' ''10.0.0.1'') (\<lambda>_. None) = (Inl RedisError, t)
     \<and> int (passes (\<lambda>op. op_email_key op = login_email_key ''bob@x.io'') (login_run mem_redis default_throttle
           (map (\<lambda>_. (10 ^ 9, Attempt ''bob@x.io'' ''10.0.0.1'')) [1 .. 20 :: int]) t)) \<le> 4"
proof -
  obtain r t where run: "login_op_run (mem_redis\<lparr>redis_expire := \<lambda>_ _ u. (Inl RedisError, u)\<rparr>) default_throttle (Attempt ''bob@x.io'' ''10.0.0.1'') (\<lambda>_. None) = (r, t)"
    by fastforce
  show ?thesis
    using lost_expire_locks_out[OF mem.redis_server_axioms _ _ run, of "map (\<lambda>_. (10 ^ 9, Attempt ''bob@x.io'' ''10.0.0.1'')) [1 .. 20 :: int]"] run
    by (auto simp: default_throttle_def)
qed

end
