(* ===== verification/Otp.thy ===== *)
theory Otp
  imports Redis
begin

text \<open>
  One-time passcodes (\<^verbatim>\<open>services/otp_service.py\<close>). All state lives in Redis: a hash of the code and an
  attempt counter per purpose and email, a cooldown, and an hourly send counter. The hash function,
  the random number and the outcome of the mail delivery are parameters. Shown: what a sequence
  of verifications answers after a code was issued, and a bound on the codes issued per hour.
\<close>

section \<open>Keys and constants\<close>

datatype otp_purpose = Signup | Password_reset | Passwordless_login | Mfa

fun purpose_str :: "otp_purpose \<Rightarrow> string" where
  "purpose_str Signup = ''signup''"
| "purpose_str Password_reset = ''password_reset''"
| "purpose_str Passwordless_login = ''passwordless_login''"
| "purpose_str Mfa = ''mfa''"

definition OTP_TTL_SEC :: nat where "OTP_TTL_SEC = 600"
definition ATTEMPT_TTL_SEC :: nat where "ATTEMPT_TTL_SEC = 600"
definition COOLDOWN_SEC :: nat where "COOLDOWN_SEC = 60"
definition MAX_SENDS_PER_HOUR :: int where "MAX_SENDS_PER_HOUR = 5"
definition MAX_ATTEMPTS :: int where "MAX_ATTEMPTS = 5"
definition OTP_LENGTH :: nat where "OTP_LENGTH = 6"

definition otp_hash_key :: "string \<Rightarrow> otp_purpose \<Rightarrow> string" where
  "otp_hash_key email p = ''otp:v1:'' @ purpose_str p @ '':'' @ py_lower email @ '':hash''"

definition attempts_key :: "string \<Rightarrow> otp_purpose \<Rightarrow> string" where
  "attempts_key email p = ''otp:v1:'' @ purpose_str p @ '':'' @ py_lower email @ '':attempts''"

definition cooldown_key :: "string \<Rightarrow> otp_purpose \<Rightarrow> string" where
  "cooldown_key email p = ''otp:v1:'' @ purpose_str p @ '':'' @ py_lower email @ '':cooldown''"

text \<open>The hour bucket is read from the clock at each call.\<close>

definition send_count_key :: "string \<Rightarrow> string \<Rightarrow> string" where
  "send_count_key email hour = ''email:send_count:'' @ py_lower email @ '':'' @ hour"

section \<open>Operations\<close>

definition generate_otp :: "nat \<Rightarrow> string" where
  "generate_otp n = replicate (OTP_LENGTH - length (py_digits n)) CHR ''0'' @ py_digits n"

fun check_cooldowns :: "'s redis \<Rightarrow> string \<Rightarrow> otp_purpose list \<Rightarrow> ('s, unit) sx" where
  "check_cooldowns R email [] s = (Inr (), s)"
| "check_cooldowns R email (p # ps) s =
     sx_bind (redis_exists R (cooldown_key email p)) (\<lambda>there.
       if there then sx_raise RateLimitError else check_cooldowns R email ps) s"

definition otp_check_rate_limits :: "'s redis \<Rightarrow> string \<Rightarrow> string \<Rightarrow> ('s, unit) sx" where
  "otp_check_rate_limits R hour email =
     sx_bind (check_cooldowns R email [Signup, Password_reset, Passwordless_login, Mfa]) (\<lambda>_.
     sx_bind (redis_get R (send_count_key email hour)) (\<lambda>send_count.
       case send_count of
         None \<Rightarrow> sx_return ()
       | Some (Num n) \<Rightarrow> if n \<ge> MAX_SENDS_PER_HOUR then sx_raise RateLimitError else sx_return ()
       | Some _ \<Rightarrow> sx_raise ValueError))"

record otp_clock =
  hour_checked :: string
  hour_counted :: string
  hour_expired :: string

definition generate_and_send ::
  "'s redis \<Rightarrow> (string \<Rightarrow> string) \<Rightarrow> (string \<Rightarrow> string \<Rightarrow> unit res) \<Rightarrow> otp_clock \<Rightarrow> nat \<Rightarrow> string \<Rightarrow> otp_purpose \<Rightarrow> ('s, unit) sx" where
  "generate_and_send R sha256 deliver clk rnd email p =
     (let email_key = py_lower email; otp = generate_otp rnd in
      sx_bind (otp_check_rate_limits R (hour_checked clk) email_key) (\<lambda>_.
      sx_bind
        (redis_pipe (redis_setex R (otp_hash_key email_key p) OTP_TTL_SEC (Txt (sha256 otp)))
        (redis_pipe (redis_setex R (attempts_key email_key p) ATTEMPT_TTL_SEC (Num 0))
        (redis_pipe (redis_setex R (cooldown_key email_key p) COOLDOWN_SEC (Txt ''1''))
        (redis_pipe (redis_incr R (send_count_key email_key (hour_counted clk)))
                    (redis_expire R (send_count_key email_key (hour_expired clk)) 3600))))) (\<lambda>_.
      (\<lambda>s. (deliver email_key otp, s)))))"

definition verify ::
  "'s redis \<Rightarrow> (string \<Rightarrow> string) \<Rightarrow> string \<Rightarrow> otp_purpose \<Rightarrow> string \<Rightarrow> ('s, bool) sx" where
  "verify R sha256 email p otp =
     (let email_key = py_lower email; hash_key = otp_hash_key email_key p; att_key = attempts_key email_key p;
          keys = [hash_key, att_key, cooldown_key email_key p] in
      sx_bind (redis_get R hash_key) (\<lambda>stored_hash.
        case stored_hash of
          None \<Rightarrow> sx_return False
        | Some stored \<Rightarrow>
            sx_bind (redis_incr R att_key) (\<lambda>attempts.
              if attempts > MAX_ATTEMPTS then sx_bind (redis_delete R keys) (\<lambda>_. sx_raise ValidationError)
              else if Txt (sha256 (py_strip otp)) = stored then sx_bind (redis_delete R keys) (\<lambda>_. sx_return True)
              else sx_return False)))"

definition invalidate_otp :: "'s redis \<Rightarrow> string \<Rightarrow> otp_purpose \<Rightarrow> ('s, unit) sx" where
  "invalidate_otp R email p =
     (let email_key = py_lower email in
      redis_delete R [otp_hash_key email_key p, attempts_key email_key p, cooldown_key email_key p])"

section \<open>Traffic of one account\<close>

datatype otp_op = Send otp_clock nat otp_purpose | Verify otp_purpose string | Invalidate otp_purpose

datatype otp_reply = Sent "unit res" | Verified "bool res" | Invalidated "unit res"

fun otp_op_run ::
  "'s redis \<Rightarrow> (string \<Rightarrow> string) \<Rightarrow> (string \<Rightarrow> string \<Rightarrow> unit res) \<Rightarrow> string \<Rightarrow> otp_op \<Rightarrow> 's \<Rightarrow> otp_reply \<times> 's" where
  "otp_op_run R sha256 deliver email (Send clk rnd p) s =
     (case generate_and_send R sha256 deliver clk rnd email p s of (r, t) \<Rightarrow> (Sent r, t))"
| "otp_op_run R sha256 deliver email (Verify p otp) s =
     (case verify R sha256 email p otp s of (r, t) \<Rightarrow> (Verified r, t))"
| "otp_op_run R sha256 deliver email (Invalidate p) s =
     (case invalidate_otp R email p s of (r, t) \<Rightarrow> (Invalidated r, t))"

fun otp_run ::
  "'s redis \<Rightarrow> (string \<Rightarrow> string) \<Rightarrow> (string \<Rightarrow> string \<Rightarrow> unit res) \<Rightarrow> string \<Rightarrow> (nat \<times> otp_op) list \<Rightarrow> 's \<Rightarrow> otp_reply list" where
  "otp_run R sha256 deliver email [] s = []"
| "otp_run R sha256 deliver email ((d, op) # ops) s =
     (case otp_op_run R sha256 deliver email op (redis_elapse R d s) of (r, t) \<Rightarrow> r # otp_run R sha256 deliver email ops t)"

text \<open>
  The specification of a code: it has a number of attempts used and milliseconds left, and each
  try is given by its delay and by whether its hash is that of the code.
\<close>

fun otp_spec :: "nat \<Rightarrow> nat \<Rightarrow> (nat \<times> bool) list \<Rightarrow> bool res list" where
  "otp_spec used left [] = []"
| "otp_spec used left ((d, hit) # tries) =
     (if left \<le> d then Inr False # map (\<lambda>_. Inr False) tries
      else if used \<ge> 5 then Inl ValidationError # map (\<lambda>_. Inr False) tries
      else if hit then Inr True # map (\<lambda>_. Inr False) tries
      else Inr False # otp_spec (Suc used) (left - d) tries)"

section \<open>Keys\<close>

lemma keys_lower [simp]:
  "otp_hash_key (py_lower e) p = otp_hash_key e p" "attempts_key (py_lower e) p = attempts_key e p"
  "cooldown_key (py_lower e) p = cooldown_key e p" "send_count_key (py_lower e) h = send_count_key e h"
  by (simp_all add: otp_hash_key_def attempts_key_def cooldown_key_def send_count_key_def)

lemma keys_differ [simp]:
  "otp_hash_key e p \<noteq> attempts_key e p" "otp_hash_key e p \<noteq> cooldown_key e p" "attempts_key e p \<noteq> cooldown_key e p"
  "attempts_key e p \<noteq> otp_hash_key e p" "cooldown_key e p \<noteq> otp_hash_key e p" "cooldown_key e p \<noteq> attempts_key e p"
  "otp_hash_key e p \<noteq> send_count_key e' h" "attempts_key e p \<noteq> send_count_key e' h" "cooldown_key e p \<noteq> send_count_key e' h"
  "send_count_key e' h \<noteq> otp_hash_key e p" "send_count_key e' h \<noteq> attempts_key e p" "send_count_key e' h \<noteq> cooldown_key e p"
  by (simp_all add: otp_hash_key_def attempts_key_def cooldown_key_def send_count_key_def)

lemma purpose_keys_differ:
  assumes "p \<noteq> q"
  shows "k \<in> {otp_hash_key e p, attempts_key e p, cooldown_key e p} \<Longrightarrow> k \<notin> {otp_hash_key e' q, attempts_key e' q, cooldown_key e' q}"
  using assms by (cases p; cases q; auto simp: otp_hash_key_def attempts_key_def cooldown_key_def)

section \<open>Operations on the reference store\<close>

lemma check_cooldowns_state: "check_cooldowns mem_redis e ps st = (r, t) \<Longrightarrow> t = st"
  by (induction ps arbitrary: r) (auto simp: sx_bind_def st_exists_def sx_raise_def split: if_splits)

lemma otp_check_rate_limits_state: "otp_check_rate_limits mem_redis h e st = (r, t) \<Longrightarrow> t = st"
  by (auto simp: otp_check_rate_limits_def sx_bind_def st_get_def st_exists_def sx_raise_def sx_return_def
      dest!: check_cooldowns_state split: prod.splits sum.splits option.splits rval.splits if_splits)

definition issued :: "(string \<Rightarrow> string) \<Rightarrow> nat \<Rightarrow> string \<Rightarrow> otp_purpose \<Rightarrow> store \<Rightarrow> store" where
  "issued sha256 rnd e p st =
     st(otp_hash_key e p \<mapsto> (Txt (sha256 (generate_otp rnd)), Some (1000 * OTP_TTL_SEC)),
        attempts_key e p \<mapsto> (Num 0, Some (1000 * ATTEMPT_TTL_SEC)),
        cooldown_key e p \<mapsto> (Txt ''1'', Some (1000 * COOLDOWN_SEC)))"

text \<open>
  What a send does: refused or failed at the checks it changes nothing; otherwise the code is
  issued and the hourly counter is incremented, also when a later call fails.
\<close>

lemma generate_mem:
  assumes "generate_and_send mem_redis H deliver clk rnd e p st = (r, t)"
  obtains (refused) err where "otp_check_rate_limits mem_redis (hour_checked clk) (py_lower e) st = (Inl err, st)" "r = Inl err" "t = st"
  | (passed) u where "otp_check_rate_limits mem_redis (hour_checked clk) (py_lower e) st = (Inr (), st)"
      "snd (st_add 1 (send_count_key e (hour_counted clk)) (issued H rnd e p st)) = u"
      "t = snd (st_expire (send_count_key e (hour_expired clk)) 3600 u)"
      "r = Inr () \<Longrightarrow> \<exists>n. fst (st_add 1 (send_count_key e (hour_counted clk)) (issued H rnd e p st)) = Inr n"
proof -
  obtain q v where c: "otp_check_rate_limits mem_redis (hour_checked clk) (py_lower e) st = (q, v)" by fastforce
  note v = otp_check_rate_limits_state[OF c]
  show ?thesis
  proof (cases q)
    case (Inl err)
    then show ?thesis using refused assms c v by (simp add: generate_and_send_def Let_def sx_bind_def)
  next
    case (Inr x)
    obtain a u where a: "st_add 1 (send_count_key e (hour_counted clk)) (issued H rnd e p st) = (a, u)" by fastforce
    obtain b w where b: "st_expire (send_count_key e (hour_expired clk)) 3600 u = (b, w)" by fastforce
    have "t = w" and "r = Inr () \<Longrightarrow> \<exists>n. a = Inr n"
      using assms c v Inr a b
      by (auto simp: generate_and_send_def Let_def sx_bind_def redis_pipe_def st_setex_def OTP_TTL_SEC_def ATTEMPT_TTL_SEC_def
          COOLDOWN_SEC_def issued_def exc_bind_Inr_iff split: prod.splits sum.splits)
    then show ?thesis using passed[of u] c v Inr a b by simp
  qed
qed

lemma verify_gone: "st (otp_hash_key e p) = None \<Longrightarrow> verify mem_redis H e p c st = (Inr False, st)"
  by (simp add: verify_def Let_def sx_bind_def st_get_def sx_return_def)

abbreviation forget :: "string \<Rightarrow> otp_purpose \<Rightarrow> store \<Rightarrow> store" where
  "forget e p st \<equiv> snd (st_delete [otp_hash_key e p, attempts_key e p, cooldown_key e p] st)"

lemma verify_live:
  assumes "st (otp_hash_key e p) = Some (Txt h, l)" and "st (attempts_key e p) = Some (Num a, l')"
  shows "verify mem_redis H e p c st =
     (if a + 1 > MAX_ATTEMPTS then (Inl ValidationError, forget e p st)
      else if H (py_strip c) = h then (Inr True, forget e p st)
      else (Inr False, st(attempts_key e p \<mapsto> (Num (a + 1), l'))))"
  using assms by (auto simp: verify_def Let_def sx_bind_def st_get_def st_add_def st_delete_def sx_return_def sx_raise_def intro!: ext)

section \<open>A code and its tries\<close>

abbreviation tries_of :: "otp_purpose \<Rightarrow> (nat \<times> string) list \<Rightarrow> (nat \<times> otp_op) list" where
  "tries_of p tries \<equiv> map (\<lambda>(d, c). (d, Verify p c)) tries"

abbreviation hits :: "(string \<Rightarrow> string) \<Rightarrow> string \<Rightarrow> (nat \<times> string) list \<Rightarrow> (nat \<times> bool) list" where
  "hits H h tries \<equiv> map (\<lambda>(d, c). (d, H (py_strip c) = h)) tries"

lemma otp_run_gone:
  "st (otp_hash_key e p) = None \<Longrightarrow> otp_run mem_redis H deliver e (tries_of p tries) st = map (\<lambda>_. Verified (Inr False)) tries"
proof (induction tries arbitrary: st)
  case Nil
  then show ?case by simp
next
  case (Cons x tries)
  obtain d c where x: "x = (d, c)" by fastforce
  have none: "st_elapse d st (otp_hash_key e p) = None" using Cons.prems by (simp add: st_elapse_def)
  show ?case using Cons.IH[of "st_elapse d st", OF none] verify_gone[of "st_elapse d st" e p H c, OF none] by (simp add: x)
qed

lemma forget_hash [simp]: "forget e p st (otp_hash_key e p) = None"
  by (simp add: st_delete_def)

lemma otp_run_spec:
  assumes "st (otp_hash_key e p) = Some (Txt h, Some left)" and "st (attempts_key e p) = Some (Num (int used), Some left)"
  shows "otp_run mem_redis H deliver e (tries_of p tries) st = map Verified (otp_spec used left (hits H h tries))"
  using assms
proof (induction tries arbitrary: st used left)
  case Nil
  then show ?case by simp
next
  case (Cons x tries)
  obtain d c where x: "x = (d, c)" by fastforce
  let ?st = "st_elapse d st"
  have rest: "map Verified (map (\<lambda>_. Inr False) (hits H h tries)) = map (\<lambda>_. Verified (Inr False)) tries" by simp
  show ?case
  proof (cases "left \<le> d")
    case True
    then have none: "?st (otp_hash_key e p) = None" using Cons.prems by (simp add: st_elapse_def)
    show ?thesis using True otp_run_gone[of ?st, OF none, of H deliver tries] verify_gone[of ?st e p H c, OF none] rest by (simp add: x)
  next
    case False
    then have live: "?st (otp_hash_key e p) = Some (Txt h, Some (left - d))" "?st (attempts_key e p) = Some (Num (int used), Some (left - d))"
      using Cons.prems by (simp_all add: st_elapse_def)
    note v = verify_live[of ?st, OF live, of H c]
    note gone = otp_run_gone[of "forget e p ?st", OF forget_hash, of H deliver]
    have "otp_run mem_redis H deliver e (tries_of p tries) (?st(attempts_key e p \<mapsto> (Num (int used + 1), Some (left - d))))
        = map Verified (otp_spec (Suc used) (left - d) (hits H h tries))"
      using live by (intro Cons.IH) (simp_all add: add.commute)
    then show ?thesis using False v gone rest by (auto simp: x MAX_ATTEMPTS_def)
  qed
qed

text \<open>The specification admits one success, within five tries and before the code expires.\<close>

lemma otp_spec_success:
  "j < length tries \<Longrightarrow> otp_spec used left tries ! j = Inr True \<longleftrightarrow>
     used + j < 5 \<and> snd (tries ! j) \<and> (\<forall>i < j. \<not> snd (tries ! i)) \<and> sum_list (map fst (take (Suc j) tries)) < left"
proof (induction used left tries arbitrary: j rule: otp_spec.induct)
  case (1 used left)
  then show ?case by simp
next
  case (2 used left d hit tries)
  show ?case
  proof (cases j)
    case 0
    then show ?thesis by auto
  next
    case (Suc i)
    have all: "(\<forall>k < Suc i. \<not> snd (((d, hit) # tries) ! k)) \<longleftrightarrow> \<not> hit \<and> (\<forall>k < i. \<not> snd (tries ! k))"
      by (auto simp: less_Suc_eq_0_disj)
    show ?thesis using Suc "2.IH"[of i] "2.prems" all by (auto simp: nth_Cons')
  qed
qed

section \<open>Codes per hour\<close>

fun op_hours :: "otp_op \<Rightarrow> string list" where
  "op_hours (Send clk rnd p) = [hour_checked clk, hour_counted clk, hour_expired clk]"
| "op_hours _ = []"

abbreviation sent :: "otp_reply \<Rightarrow> bool" where
  "sent r \<equiv> r = Sent (Inr ())"

text \<open>The send counter after \<open>n\<close> codes of an hour, with some milliseconds of it left.\<close>

definition count_inv :: "nat \<Rightarrow> nat \<Rightarrow> (rval \<times> nat option) option \<Rightarrow> bool" where
  "count_inv n left v \<longleftrightarrow> (v = None \<and> n = 0) \<or> (\<exists>c l. v = Some (Num c, Some l) \<and> int n \<le> c \<and> left < l)"

lemma otp_op_count:
  assumes "otp_op_run mem_redis H deliver e op st = (r, t)" and "\<forall>h' \<in> set (op_hours op). h' = h"
    and "count_inv n left (st (send_count_key e h))" and "left < 3600000" and "n \<le> 5"
  shows "count_inv (if sent r then Suc n else n) left (t (send_count_key e h)) \<and> (if sent r then Suc n else n) \<le> 5"
proof (cases op)
  case (Send clk rnd p)
  then obtain q where g: "generate_and_send mem_redis H deliver clk rnd e p st = (q, t)" "r = Sent q"
    using assms(1) by (auto split: prod.splits)
  have hours: "hour_checked clk = h" "hour_counted clk = h" "hour_expired clk = h" using assms(2) Send by auto
  show ?thesis
  proof (rule generate_mem[OF g(1)])
    fix err
    assume "q = Inl err" "t = st"
    then show ?thesis using assms(3,5) g(2) by simp
  next
    fix u
    let ?k = "send_count_key e h"
    assume c: "otp_check_rate_limits mem_redis (hour_checked clk) (py_lower e) st = (Inr (), st)"
      and u: "snd (st_add 1 (send_count_key e (hour_counted clk)) (issued H rnd e p st)) = u"
      and t: "t = snd (st_expire (send_count_key e (hour_expired clk)) 3600 u)"
    have k: "issued H rnd e p st ?k = st ?k" by (simp add: issued_def)
    show ?thesis
    proof (cases "st ?k")
      case None
      then have "n = 0" and "t ?k = Some (Num 1, Some 3600000)"
        using assms(3) u t k by (auto simp: hours count_inv_def st_add_def st_expire_def)
      then show ?thesis using assms(4) by (auto simp: count_inv_def)
    next
      case (Some v)
      then obtain m l where v: "v = (Num m, Some l)" "int n \<le> m" using assms(3) by (auto simp: count_inv_def)
      then have "t ?k = Some (Num (m + 1), Some 3600000)" using Some u t k by (auto simp: hours st_add_def st_expire_def)
      moreover have "m < 5" using c Some v
        by (auto simp: hours otp_check_rate_limits_def sx_bind_def st_get_def st_exists_def MAX_SENDS_PER_HOUR_def sx_raise_def
            split: prod.splits sum.splits if_splits)
      ultimately show ?thesis using v assms(4) by (auto simp: count_inv_def)
    qed
  qed
next
  case (Verify p c)
  have "t (send_count_key e h) = st (send_count_key e h)"
    using assms(1) Verify by (auto simp: verify_def Let_def sx_bind_def st_get_def st_add_def st_delete_def sx_return_def sx_raise_def
        split: prod.splits option.splits rval.splits if_splits)
  then show ?thesis using assms(1,3,5) Verify by (auto split: prod.splits)
next
  case (Invalidate p)
  then show ?thesis using assms(1,3,5) by (auto simp: invalidate_otp_def Let_def st_delete_def)
qed

lemma count_inv_elapse: "count_inv n (d + left) (st k) \<Longrightarrow> count_inv n left (st_elapse d st k)"
  by (auto simp: count_inv_def st_elapse_def)

lemma otp_run_count:
  assumes "count_inv n (sum_list (map fst ops)) (st (send_count_key e h))" and "sum_list (map fst ops) < 3600000" and "n \<le> 5"
    and "\<forall>(_, op) \<in> set ops. \<forall>h' \<in> set (op_hours op). h' = h"
  shows "n + length (filter sent (otp_run mem_redis H deliver e ops st)) \<le> 5"
  using assms
proof (induction ops arbitrary: n st)
  case Nil
  then show ?case by simp
next
  case (Cons x ops)
  obtain d op where x: "x = (d, op)" by fastforce
  obtain r t where run: "otp_op_run mem_redis H deliver e op (st_elapse d st) = (r, t)" by fastforce
  let ?n = "if sent r then Suc n else n" and ?left = "sum_list (map fst ops)"
  have "count_inv n ?left (st_elapse d st (send_count_key e h))"
    using count_inv_elapse[of n d ?left st "send_count_key e h"] Cons.prems(1) x by simp
  then have "count_inv ?n ?left (t (send_count_key e h))" "?n \<le> 5"
    using otp_op_count[OF run, of h n ?left] Cons.prems x by auto
  then have "?n + length (filter sent (otp_run mem_redis H deliver e ops t)) \<le> 5"
    using Cons.IH Cons.prems(2,4) x by auto
  then show ?case using run by (auto simp: x split: if_splits)
qed

section \<open>Simulation\<close>

lemma check_cooldowns_Cons:
  "check_cooldowns R e (p # ps) = sx_bind (redis_exists R (cooldown_key e p)) (\<lambda>there.
     if there then sx_raise RateLimitError else check_cooldowns R e ps)"
  by (rule ext) simp

context redis_server
begin

lemma check_cooldowns_sim: "sim view (check_cooldowns R e ps) (check_cooldowns mem_redis e ps)"
proof (induction ps)
  case Nil
  then show ?case by (simp add: sim_def)
next
  case (Cons p ps)
  then show ?case unfolding check_cooldowns_Cons by (intro sim_bind sim_if sim_raise exists_law)
qed

lemma otp_check_rate_limits_sim: "sim view (otp_check_rate_limits R h e) (otp_check_rate_limits mem_redis h e)"
  unfolding otp_check_rate_limits_def
  by (intro sim_bind check_cooldowns_sim get_law) (auto split: option.split rval.split)

lemma generate_and_send_sim:
  "sim view (generate_and_send R H deliver clk rnd e p) (generate_and_send mem_redis H deliver clk rnd e p)"
  unfolding generate_and_send_def Let_def
  by (intro sim_bind sim_pipe otp_check_rate_limits_sim setex_law incr_law expire_law sim_pure)

lemma verify_sim: "sim view (verify R H e p c) (verify mem_redis H e p c)"
  unfolding verify_def Let_def
  by (intro sim_bind get_law) (auto simp del: mem_redis_simps intro!: sim_bind incr_law delete_law split: option.split)

lemma otp_op_run_mem: "otp_op_run R H deliver e op s = (r, t) \<Longrightarrow> otp_op_run mem_redis H deliver e op (view s) = (r, view t)"
  by (cases op) (auto simp del: mem_redis_simps simp: invalidate_otp_def Let_def
      dest!: simD[OF generate_and_send_sim] simD[OF verify_sim] simD[OF delete_law] split: prod.splits)

lemma otp_run_mem: "otp_run R H deliver e ops s = otp_run mem_redis H deliver e ops (view s)"
proof (induction ops arbitrary: s)
  case Nil
  then show ?case by simp
next
  case (Cons x ops)
  obtain d op where x: "x = (d, op)" by fastforce
  obtain r t where run: "otp_op_run R H deliver e op (redis_elapse R d s) = (r, t)" by fastforce
  have "otp_op_run mem_redis H deliver e op (redis_elapse mem_redis d (view s)) = (r, view t)"
    using otp_op_run_mem[OF run] by (simp only: elapse_law)
  then show ?case using run Cons.IH[of t] by (simp add: x del: mem_redis_simps)
qed

end

section \<open>Properties\<close>

lemma issued_code:
  assumes "generate_and_send mem_redis H deliver clk rnd e p st = (Inr (), t)"
  shows "t (otp_hash_key e p) = Some (Txt (H (generate_otp rnd)), Some 600000)" "t (attempts_key e p) = Some (Num 0, Some 600000)"
    and "q \<noteq> p \<Longrightarrow> k \<in> {otp_hash_key e q, attempts_key e q, cooldown_key e q} \<Longrightarrow> t k = st k"
proof -
  have frame: "t k = issued H rnd e p st k" if "k \<noteq> send_count_key e (hour_counted clk)" "k \<noteq> send_count_key e (hour_expired clk)" for k
    using that
    by (rule_tac generate_mem[OF assms]) (auto simp: st_add_def st_expire_def split: option.splits prod.splits rval.splits)
  show "t (otp_hash_key e p) = Some (Txt (H (generate_otp rnd)), Some 600000)" "t (attempts_key e p) = Some (Num 0, Some 600000)"
    by (simp_all add: frame issued_def OTP_TTL_SEC_def ATTEMPT_TTL_SEC_def)
  show "t k = st k" if "q \<noteq> p" and k: "k \<in> {otp_hash_key e q, attempts_key e q, cooldown_key e q}"
    using frame[of k] k purpose_keys_differ[OF \<open>q \<noteq> p\<close> k, of e] by (auto simp: issued_def)
qed

text \<open>
  C34: the life of a code. Once a code was issued and mailed, the tries to verify it, under any
  spelling of the email in upper and lower case and at any times, are answered as the
  specification says: a try succeeds exactly when it is the first match, among the first five
  tries, before ten minutes have passed; every other try is refused. A code for one purpose
  changes no answer for another purpose.
\<close>

theorem otp_code_lifecycle:
  assumes "redis_server R view" and "generate_and_send R H deliver clk rnd email p s = (Inr (), t)"
    and "py_lower email' = py_lower email"
  shows "otp_run R H deliver email' (tries_of p tries) t = map Verified (otp_spec 0 600000 (hits H (H (generate_otp rnd)) tries))
    \<and> (\<forall>j < length tries. otp_run R H deliver email' (tries_of p tries) t ! j = Verified (Inr True) \<longleftrightarrow>
         j < 5 \<and> sum_list (map fst (take (Suc j) tries)) < 600000 \<and> H (py_strip (snd (tries ! j))) = H (generate_otp rnd)
           \<and> (\<forall>i < j. H (py_strip (snd (tries ! i))) \<noteq> H (generate_otp rnd)))
    \<and> (q \<noteq> p \<longrightarrow> fst (verify R H email' q c t) = fst (verify R H email' q c s))"
proof -
  have keys: "otp_hash_key email' x = otp_hash_key email x" "attempts_key email' x = attempts_key email x"
    "cooldown_key email' x = cooldown_key email x" for x
    using assms(3) keys_lower by metis+
  have g: "generate_and_send mem_redis H deliver clk rnd email p (view s) = (Inr (), view t)"
    by (rule simD[OF redis_server.generate_and_send_sim[OF assms(1)] assms(2)])
  note code = issued_code[OF g]
  have run: "otp_run R H deliver email' (tries_of p tries) t = map Verified (otp_spec 0 600000 (hits H (H (generate_otp rnd)) tries))"
    unfolding redis_server.otp_run_mem[OF assms(1)] using code by (intro otp_run_spec) (simp_all add: keys)
  have len: "length (otp_spec u l xs) = length xs" for u l xs by (induction u l xs rule: otp_spec.induct) auto
  have "\<forall>j < length tries. otp_run R H deliver email' (tries_of p tries) t ! j = Verified (Inr True) \<longleftrightarrow>
         j < 5 \<and> sum_list (map fst (take (Suc j) tries)) < 600000 \<and> H (py_strip (snd (tries ! j))) = H (generate_otp rnd)
           \<and> (\<forall>i < j. H (py_strip (snd (tries ! i))) \<noteq> H (generate_otp rnd))"
  proof (intro allI impI)
    fix j
    assume j: "j < length tries"
    let ?hs = "hits H (H (generate_otp rnd)) tries"
    have "map fst (take (Suc j) ?hs) = map fst (take (Suc j) tries)" by (simp add: take_map case_prod_beta' comp_def)
    moreover have "(\<forall>i < j. \<not> snd (?hs ! i)) \<longleftrightarrow> (\<forall>i < j. H (py_strip (snd (tries ! i))) \<noteq> H (generate_otp rnd))"
      using j by (auto simp: case_prod_beta')
    moreover have nth: "otp_run R H deliver email' (tries_of p tries) t ! j = Verified (otp_spec 0 600000 ?hs ! j)"
      unfolding run using j len by simp
    ultimately show "otp_run R H deliver email' (tries_of p tries) t ! j = Verified (Inr True) \<longleftrightarrow>
         j < 5 \<and> sum_list (map fst (take (Suc j) tries)) < 600000 \<and> H (py_strip (snd (tries ! j))) = H (generate_otp rnd)
           \<and> (\<forall>i < j. H (py_strip (snd (tries ! i))) \<noteq> H (generate_otp rnd))"
      using otp_spec_success[of j ?hs 0 600000] j nth by (simp add: case_prod_beta') blast
  qed
  moreover have "q \<noteq> p \<longrightarrow> fst (verify R H email' q c t) = fst (verify R H email' q c s)"
  proof
    assume q: "q \<noteq> p"
    have "verify R H email' q c u = (fst (verify mem_redis H email' q c (view u)), snd (verify R H email' q c u))" for u
      using simD[OF redis_server.verify_sim[OF assms(1)]] by (metis fst_conv prod.collapse)
    moreover have "fst (verify mem_redis H email' q c (view t)) = fst (verify mem_redis H email' q c (view s))"
      using code(3)[OF q] by (auto simp: verify_def Let_def sx_bind_def st_get_def st_add_def st_delete_def sx_return_def sx_raise_def keys
          split: option.splits prod.splits rval.splits)
    ultimately show "fst (verify R H email' q c t) = fst (verify R H email' q c s)" by (metis fst_conv)
  qed
  ultimately show ?thesis using run by blast
qed

definition sample_clock :: otp_clock where
  "sample_clock = \<lparr>hour_checked = ''2026010112'', hour_counted = ''2026010112'', hour_expired = ''2026010112''\<rparr>"

theorem otp_code_lifecycle_witness:
  "\<exists>t. generate_and_send mem_redis (\<lambda>x. x) (\<lambda>_ _. Inr ()) sample_clock 7 ''bob@x.io'' Mfa (\<lambda>_. None) = (Inr (), t)
     \<and> otp_run mem_redis (\<lambda>x. x) (\<lambda>_ _. Inr ()) ''bob@x.io'' (tries_of Mfa [(1, ''1''), (1, ''000007''), (1, ''000007'')]) t
         = [Verified (Inr False), Verified (Inr True), Verified (Inr False)]"
proof -
  obtain r t where g: "generate_and_send mem_redis (\<lambda>x. x) (\<lambda>_ _. Inr ()) sample_clock 7 ''bob@x.io'' Mfa (\<lambda>_. None) = (r, t)"
    by fastforce
  have "fst (generate_and_send mem_redis (\<lambda>x. x) (\<lambda>_ _. Inr ()) sample_clock 7 ''bob@x.io'' Mfa (\<lambda>_. None)) = Inr ()"
    by (simp add: generate_and_send_def Let_def otp_check_rate_limits_def sx_bind_def redis_pipe_def st_exists_def st_get_def
        st_setex_def st_add_def st_expire_def sx_return_def OTP_TTL_SEC_def ATTEMPT_TTL_SEC_def COOLDOWN_SEC_def)
  then have r: "r = Inr ()" using g by simp
  have otp: "generate_otp 7 = ''000007''" by code_simp
  have "py_strip ''1'' = ''1''" "py_strip ''000007'' = ''000007''" by code_simp+
  then show ?thesis
    using otp_code_lifecycle[OF mem.redis_server_axioms g[unfolded r] refl, of "[(1, ''1''), (1, ''000007''), (1, ''000007'')]"] g r otp
    by simp
qed



end
