(* ===== verification/Fusion.thy ===== *)
theory Fusion
  imports Prelude
begin

text \<open>
  Result fusion of hybrid search: \<^verbatim>\<open>src/services/retrieval/fusion.py\<close>, the merge of graph results
  in \<^verbatim>\<open>src/services/retrieval/lexical_graph_search.py\<close> and the two rerankers of
  \<^verbatim>\<open>src/packages/reranker\<close>. A result dictionary is the record \<open>item\<close>: the keys the fusion code
  reads and writes, and the row it was built from. Floats are rational numbers.

  The contract of a reranker is the locale \<open>reranker\<close>; both implementations satisfy it. The
  cross-encoder model and the Cohere client are parameters.
\<close>

section \<open>Items\<close>

text \<open>The shapes of \<^verbatim>\<open>created_at\<close>: absent, a boolean, a number, a datetime, a text, something else.\<close>

datatype created = CNone | CBool bool | CNum rat | CDatetime datetime | CText string | COther

record 'p item =
  it_id :: "string option"
  it_created_at :: created
  it_content :: "string option"
  it_distance :: "rat option"
  it_rrf_score :: "rat option"
  it_reranker_score :: "rat option"
  it_row :: 'p

text \<open>\<^verbatim>\<open>xs[:n]\<close>: a negative bound counts from the end.\<close>

definition py_take :: "int \<Rightarrow> 'a list \<Rightarrow> 'a list" where
  "py_take n xs = (if n < 0 then take (length xs - nat (- n)) xs else take (nat n) xs)"

text \<open>\<^verbatim>\<open>round(x, 6)\<close>: to the nearest multiple, ties to the even one.\<close>

definition round_half_even :: "rat \<Rightarrow> int" where
  "round_half_even x =
     (let f = \<lfloor>x\<rfloor>; d = x - of_int f
      in if d < 1 / 2 then f else if 1 / 2 < d then f + 1 else if even f then f else f + 1)"

definition round6 :: "rat \<Rightarrow> rat" where
  "round6 x = of_int (round_half_even (x * 1000000)) / 1000000"

definition truthy :: "string option \<Rightarrow> bool" where
  "truthy s \<longleftrightarrow> s \<noteq> None \<and> s \<noteq> Some []"

section \<open>Reciprocal rank fusion\<close>

definition RRF_K :: nat where "RRF_K = 60"

text \<open>
  \<^verbatim>\<open>score_map\<close> and \<^verbatim>\<open>rank_map\<close> as one list in the order of insertion: an id, the first item seen
  with it and its ranks so far.
\<close>

definition note_rank :: "nat \<times> 'p item \<Rightarrow> (string \<times> 'p item \<times> nat list) list \<Rightarrow> (string \<times> 'p item \<times> nat list) list" where
  "note_rank = (\<lambda>(rank, item) acc.
     case it_id item of
       None \<Rightarrow> acc
     | Some i \<Rightarrow>
         if i = [] then acc
         else if i \<notin> fst ` set acc then acc @ [(i, item, [rank])]
         else map (\<lambda>(k, it, ranks). if k = i then (k, it, ranks @ [rank]) else (k, it, ranks)) acc)"

definition collect_ranks :: "'p item list list \<Rightarrow> (string \<times> 'p item \<times> nat list) list" where
  "collect_ranks ranked_lists = fold (\<lambda>ranked_list. fold note_rank (enumerate 1 ranked_list)) ranked_lists []"

definition with_score :: "string \<times> 'p item \<times> nat list \<Rightarrow> 'p item" where
  "with_score = (\<lambda>(i, item, ranks). item\<lparr>it_rrf_score := Some (round6 (\<Sum>r\<leftarrow>ranks. 1 / of_nat (RRF_K + r)))\<rparr>)"

definition or_zero :: "rat option \<Rightarrow> rat" where
  "or_zero x = (case x of None \<Rightarrow> 0 | Some y \<Rightarrow> y)"

definition by_score_desc :: "'p item \<Rightarrow> 'p item \<Rightarrow> bool" where
  "by_score_desc x y \<longleftrightarrow> or_zero (it_rrf_score y) \<le> or_zero (it_rrf_score x)"

definition rrf_merge :: "'p item list list \<Rightarrow> int \<Rightarrow> 'p item list" where
  "rrf_merge ranked_lists top_n = py_take top_n (sort_wrt by_score_desc (map with_score (collect_ranks ranked_lists)))"

section \<open>Recency\<close>

text \<open>\<^verbatim>\<open>value.replace("Z", "+00:00")\<close>.\<close>

definition replace_z :: "string \<Rightarrow> string" where
  "replace_z s = concat (map (\<lambda>c. if c = CHR ''Z'' then ''+00:00'' else [c]) s)"

definition to_epoch :: "(string \<Rightarrow> datetime option) \<Rightarrow> created \<Rightarrow> rat" where
  "to_epoch fromiso v =
     (case v of
        CNum x \<Rightarrow> x
      | CDatetime t \<Rightarrow> of_int t / 1000000
      | CText s \<Rightarrow> (case fromiso (replace_z s) of None \<Rightarrow> 0 | Some t \<Rightarrow> of_int t / 1000000)
      | _ \<Rightarrow> 0)"

definition recency :: "(string \<Rightarrow> datetime option) \<Rightarrow> 'p item \<Rightarrow> rat \<times> string" where
  "recency fromiso d = (to_epoch fromiso (it_created_at d), case it_id d of None \<Rightarrow> [] | Some i \<Rightarrow> i)"

definition by_recency_desc :: "(string \<Rightarrow> datetime option) \<Rightarrow> 'p item \<Rightarrow> 'p item \<Rightarrow> bool" where
  "by_recency_desc fromiso x y \<longleftrightarrow>
     (case (recency fromiso x, recency fromiso y) of ((a, i), (b, j)) \<Rightarrow> b < a \<or> (a = b \<and> j \<le> i))"

definition merge_and_sort ::
  "(string \<Rightarrow> datetime option) \<Rightarrow> 'e item list \<Rightarrow> 'f item list \<Rightarrow> 'e item list \<Rightarrow> 'f item list \<Rightarrow> 'g item list
   \<Rightarrow> int \<Rightarrow> int \<Rightarrow> string \<Rightarrow> 'e item list \<times> 'f item list \<times> 'g item list" where
  "merge_and_sort fromiso ep_vec fact_vec ep_bm25 fact_bm25 entity_results limit rrf_top_n srt =
     (let merged_episodes = rrf_merge [ep_vec, ep_bm25] rrf_top_n;
          merged_facts = rrf_merge [fact_vec, fact_bm25] rrf_top_n;
          entities = py_take limit entity_results
      in if srt = ''recent''
         then (sort_wrt (by_recency_desc fromiso) merged_episodes, sort_wrt (by_recency_desc fromiso) merged_facts,
               sort_wrt (by_recency_desc fromiso) entities)
         else (merged_episodes, merged_facts, entities))"

section \<open>Graph results\<close>

definition MAX_BFS_RESULTS :: int where "MAX_BFS_RESULTS = 50"

text \<open>
  What a backend's \<^verbatim>\<open>retrieve_graph\<close> gives: an exception, something that is not a list, or a list
  in which an entry that is not a dictionary is \<open>None\<close>.
\<close>

definition safe_retrieve :: "'p item option list option res \<Rightarrow> 'p item option list" where
  "safe_retrieve r = (case r of Inr (Some l) \<Rightarrow> l | _ \<Rightarrow> [])"

fun bfs_merge :: "string set \<Rightarrow> 'p item option list \<Rightarrow> 'p item list" where
  "bfs_merge seen [] = []"
| "bfs_merge seen (None # items) = bfs_merge seen items"
| "bfs_merge seen (Some item # items) =
     (case it_id item of
        None \<Rightarrow> bfs_merge seen items
      | Some i \<Rightarrow>
          if i = [] \<or> i \<in> seen then bfs_merge seen items else item # bfs_merge (insert i seen) items)"

definition by_distance :: "'p item \<Rightarrow> 'p item \<Rightarrow> bool" where
  "by_distance x y \<longleftrightarrow> (case (it_distance x, it_distance y) of
     (_, None) \<Rightarrow> True | (None, Some _) \<Rightarrow> False | (Some a, Some b) \<Rightarrow> a \<le> b)"

definition graph_bfs_search :: "'p item option list option res list \<Rightarrow> 'p item list" where
  "graph_bfs_search backends =
     (if backends = [] then []
      else py_take MAX_BFS_RESULTS (sort_wrt by_distance (bfs_merge {} (concat (map safe_retrieve backends)))))"

section \<open>Rerankers\<close>

definition set_rerank :: "rat \<Rightarrow> 'p item \<Rightarrow> 'p item" where
  "set_rerank x c = c\<lparr>it_reranker_score := Some x\<rparr>"

definition by_rerank_desc :: "'p item \<Rightarrow> 'p item \<Rightarrow> bool" where
  "by_rerank_desc x y \<longleftrightarrow> or_zero (it_reranker_score y) \<le> or_zero (it_reranker_score x)"

definition contents :: "'p item list \<Rightarrow> string list" where
  "contents candidates = map (the \<circ> it_content) (filter (truthy \<circ> it_content) candidates)"

text \<open>\<^verbatim>\<open>CohereReranker.rerank\<close>; the client returns (index, relevance) pairs.\<close>

definition cohere_rerank ::
  "(string \<Rightarrow> string list \<Rightarrow> int \<Rightarrow> (nat \<times> rat) list res) \<Rightarrow> string \<Rightarrow> 'p item list \<Rightarrow> int \<Rightarrow> 'p item list res" where
  "cohere_rerank client query candidates top_n =
     (if candidates = [] then Inr []
      else (let documents = contents candidates in
        if documents = [] then Inr (py_take top_n (map (set_rerank 0) candidates))
        else exc_bind (client query documents top_n) (\<lambda>results.
          let index_scores = map_of (rev results);
              scored = map (\<lambda>(i, c). set_rerank (round6 (or_zero (index_scores i))) c) (enumerate 0 candidates)
          in Inr (py_take top_n (sort_wrt by_rerank_desc scored)))))"

text \<open>
  \<^verbatim>\<open>SentenceTransformersReranker.rerank\<close>; the model scores the pairs. Candidates without content
  take no score from the list.
\<close>

fun attach_scores :: "'p item list \<Rightarrow> rat list \<Rightarrow> 'p item list res" where
  "attach_scores [] scores = Inr []"
| "attach_scores (c # cs) scores =
     (if truthy (it_content c) then
        (case scores of
           [] \<Rightarrow> Inl IndexError
         | x # rest \<Rightarrow> exc_bind (attach_scores cs rest) (\<lambda>ys. Inr (set_rerank (round6 x) c # ys)))
      else exc_bind (attach_scores cs scores) (\<lambda>ys. Inr (set_rerank 0 c # ys)))"

definition st_rerank ::
  "(string \<Rightarrow> string list \<Rightarrow> rat list res) \<Rightarrow> string \<Rightarrow> 'p item list \<Rightarrow> int \<Rightarrow> 'p item list res" where
  "st_rerank predict query candidates top_n =
     (if candidates = [] then Inr []
      else if contents candidates = [] then Inr (py_take top_n (map (set_rerank 0) candidates))
      else exc_bind (predict query (contents candidates)) (\<lambda>scores.
        exc_bind (attach_scores candidates scores) (\<lambda>scored.
          Inr (py_take top_n (sort_wrt by_rerank_desc scored)))))"

section \<open>The rerank step\<close>

definition maybe_rerank ::
  "((string \<Rightarrow> 'e item list \<Rightarrow> int \<Rightarrow> 'e item list res) \<times> (string \<Rightarrow> 'f item list \<Rightarrow> int \<Rightarrow> 'f item list res)) option \<Rightarrow> int
   \<Rightarrow> string \<Rightarrow> 'e item list \<Rightarrow> 'f item list \<Rightarrow> string \<Rightarrow> string list \<Rightarrow> 'e item list \<times> 'f item list \<times> string list" where
  "maybe_rerank reranker top_n query eps fcts srt failed_legs =
     (case reranker of
        None \<Rightarrow> (eps, fcts, failed_legs)
      | Some (rerank_e, rerank_f) \<Rightarrow>
          if srt \<noteq> ''relevance'' then (eps, fcts, failed_legs)
          else (case rerank_e query eps top_n of
                  Inl _ \<Rightarrow> (eps, fcts, failed_legs @ [''reranker''])
                | Inr eps' \<Rightarrow>
                    (case rerank_f query fcts top_n of
                       Inl _ \<Rightarrow> (eps', fcts, failed_legs @ [''reranker''])
                     | Inr fcts' \<Rightarrow> (eps', fcts', failed_legs))))"


section \<open>What the merge collects\<close>

text \<open>The ranked occurrences of an id, and the score the formula gives it.\<close>

definition occurrences :: "'p item list list \<Rightarrow> (nat \<times> 'p item) list" where
  "occurrences ranked_lists = concat (map (enumerate 1) ranked_lists)"

definition has_id :: "string \<Rightarrow> nat \<times> 'p item \<Rightarrow> bool" where
  "has_id i o' \<longleftrightarrow> it_id (snd o') = Some i"

definition rrf_score :: "'p item list list \<Rightarrow> string \<Rightarrow> rat" where
  "rrf_score ranked_lists i =
     round6 (\<Sum>l\<leftarrow>ranked_lists. \<Sum>o'\<leftarrow>filter (has_id i) (enumerate 1 l). 1 / of_nat (60 + fst o'))"

definition result_ids :: "'p item list list \<Rightarrow> string set" where
  "result_ids ranked_lists = {i. i \<noteq> [] \<and> (\<exists>l \<in> set ranked_lists. \<exists>x \<in> set l. it_id x = Some i)}"

lemma collect_ranks_fold: "collect_ranks ls = fold note_rank (occurrences ls) []"
proof -
  have "fold (\<lambda>l. fold note_rank (enumerate 1 l)) ls acc = fold note_rank (occurrences ls) acc" for acc :: "(string \<times> 'a item \<times> nat list) list"
    unfolding occurrences_def by (induction ls arbitrary: acc) auto
  then show ?thesis unfolding collect_ranks_def by blast
qed

definition rank_inv :: "(nat \<times> 'p item) list \<Rightarrow> (string \<times> 'p item \<times> nat list) list \<Rightarrow> bool" where
  "rank_inv os acc \<longleftrightarrow> distinct (map fst acc)
     \<and> fst ` set acc = {i. i \<noteq> [] \<and> (\<exists>o' \<in> set os. has_id i o')}
     \<and> (\<forall>(i, it, rs) \<in> set acc. map_option snd (List.find (has_id i) os) = Some it \<and> rs = map fst (filter (has_id i) os))"

lemma find_append: "List.find P (xs @ ys) = (case List.find P xs of Some x \<Rightarrow> Some x | None \<Rightarrow> List.find P ys)"
  by (induction xs) auto

lemma rank_inv_new:
  assumes inv: "rank_inv os acc" and i: "it_id it = Some i" "i \<noteq> []" and new: "i \<notin> fst ` set acc"
  shows "rank_inv (os @ [(r, it)]) (acc @ [(i, it, [r])])"
proof -
  have none: "\<forall>o' \<in> set os. \<not> has_id i o'" using inv i(2) new by (auto simp: rank_inv_def)
  then have "List.find (has_id i) os = None" "filter (has_id i) os = []" by (auto simp: find_None_iff filter_empty_conv)
  moreover have "j \<noteq> i" if "(j, x) \<in> set acc" for j x using new that by force
  ultimately show ?thesis using inv i none new
    by (auto simp: rank_inv_def find_append has_id_def split: option.splits) force+
qed

lemma rank_inv_old:
  assumes inv: "rank_inv os acc" and i: "it_id it = Some i" "i \<noteq> []" and old: "i \<in> fst ` set acc"
  shows "rank_inv (os @ [(r, it)]) (map (\<lambda>(k, x, ranks). if k = i then (k, x, ranks @ [r]) else (k, x, ranks)) acc)"
proof -
  let ?f = "\<lambda>(k, x, ranks). if k = i then (k, x, ranks @ [r]) else (k, x, ranks)"
  have keys: "map fst (map ?f acc) = map fst acc" by (auto split: prod.splits)
  have "fst ` set (map ?f acc) = fst ` set acc" using keys by (metis list.set_map)
  also have "\<dots> = {j. j \<noteq> [] \<and> (\<exists>o' \<in> set (os @ [(r, it)]). has_id j o')}"
    using inv old i unfolding rank_inv_def has_id_def by auto
  finally have ids: "fst ` set (map ?f acc) = {j. j \<noteq> [] \<and> (\<exists>o' \<in> set (os @ [(r, it)]). has_id j o')}" .
  have "map_option snd (List.find (has_id j) (os @ [(r, it)])) = Some x \<and> rs = map fst (filter (has_id j) (os @ [(r, it)]))"
    if mem: "(j, x, rs) \<in> set (map ?f acc)" for j x rs
  proof -
    obtain k where k: "k \<in> set acc" "(j, x, rs) = ?f k" using mem unfolding set_map by (rule imageE)
    obtain rs' where y: "(j, x, rs') \<in> set acc" "rs = (if j = i then rs' @ [r] else rs')"
    proof -
      obtain a b c where abc: "k = (a, b, c)" by (cases k)
      then show ?thesis using k that[of c] by (auto split: if_splits)
    qed
    then have "map_option snd (List.find (has_id j) os) = Some x" "rs' = map fst (filter (has_id j) os)"
      using inv unfolding rank_inv_def by auto
    then show ?thesis using y(2) i by (auto simp: find_append has_id_def split: option.splits)
  qed
  note each = this
  show ?thesis unfolding rank_inv_def
  proof (intro conjI ballI)
    show "distinct (map fst (map ?f acc))" unfolding keys using inv by (simp add: rank_inv_def)
    show "fst ` set (map ?f acc) = {i. i \<noteq> [] \<and> (\<exists>o' \<in> set (os @ [(r, it)]). has_id i o')}" by (rule ids)
    fix y assume y: "y \<in> set (map ?f acc)"
    obtain a b c where abc: "y = (a, b, c)" by (cases y)
    show "case y of (i, it', rs) \<Rightarrow> map_option snd (List.find (has_id i) (os @ [(r, it)])) = Some it'
        \<and> rs = map fst (filter (has_id i) (os @ [(r, it)]))"
      using each[OF y[unfolded abc]] by (simp add: abc)
  qed
qed

lemma rank_inv_note:
  assumes "rank_inv os acc"
  shows "rank_inv (os @ [(r, it)]) (note_rank (r, it) acc)"
proof (cases "truthy (it_id it)")
  case False
  then have no: "\<not> has_id i (r, it) \<or> i = []" for i by (auto simp: truthy_def has_id_def)
  have "note_rank (r, it) acc = acc" using False by (auto simp: note_rank_def truthy_def split: option.splits)
  moreover have "rank_inv (os @ [(r, it)]) acc"
  proof -
    have ids: "fst ` set acc = {i. i \<noteq> [] \<and> (\<exists>o' \<in> set (os @ [(r, it)]). has_id i o')}"
      using assms no unfolding rank_inv_def by auto
    have "map_option snd (List.find (has_id i) (os @ [(r, it)])) = Some x \<and> rs = map fst (filter (has_id i) (os @ [(r, it)]))"
      if "(i, x, rs) \<in> set acc" for i x rs
    proof -
      have "i \<in> fst ` set acc" using that by force
      then have "i \<noteq> []" using ids by blast
      then have "\<not> has_id i (r, it)" using no by blast
      then show ?thesis using assms that unfolding rank_inv_def by (fastforce simp: find_append split: option.splits)
    qed
    then show ?thesis using assms ids unfolding rank_inv_def by auto
  qed
  ultimately show ?thesis by simp
next
  case True
  then obtain i where i: "it_id it = Some i" "i \<noteq> []" by (auto simp: truthy_def)
  show ?thesis
    using rank_inv_new[OF assms i] rank_inv_old[OF assms i] i by (simp add: note_rank_def)
qed

lemma rank_inv_collect: "rank_inv (occurrences ls) (collect_ranks ls)"
proof -
  have "rank_inv os (fold note_rank os [])" for os :: "(nat \<times> 'a item) list"
  proof (induction os rule: rev_induct)
    case Nil
    then show ?case by (simp add: rank_inv_def)
  next
    case (snoc x xs)
    then show ?case using rank_inv_note[of xs "fold note_rank xs []" "fst x" "snd x"] by simp
  qed
  then show ?thesis by (simp add: collect_ranks_fold)
qed


lemma collected_score:
  assumes "(i, it, rs) \<in> set (collect_ranks ls)"
  shows "i \<in> result_ids ls" "it_id it = Some i" "it_rrf_score (with_score (i, it, rs)) = Some (rrf_score ls i)"
    "\<exists>l \<in> set ls. it \<in> set l"
proof -
  note inv = rank_inv_collect[of ls, unfolded rank_inv_def]
  have each: "\<forall>(i, it, rs) \<in> set (collect_ranks ls). map_option snd (List.find (has_id i) (occurrences ls)) = Some it
      \<and> rs = map fst (filter (has_id i) (occurrences ls))" by (rule conjunct2[OF conjunct2[OF inv]])
  have f: "map_option snd (List.find (has_id i) (occurrences ls)) = Some it" "rs = map fst (filter (has_id i) (occurrences ls))"
    using bspec[OF each assms] by simp_all
  then obtain r where r: "List.find (has_id i) (occurrences ls) = Some (r, it)" by auto
  then have occ: "(r, it) \<in> set (occurrences ls)" "has_id i (r, it)" by (auto simp: find_Some_iff)
  then show "it_id it = Some i" by (simp add: has_id_def)
  have mem: "\<exists>l \<in> set ls. x \<in> set l" if x: "(n, x) \<in> set (occurrences ls)" for n x
  proof -
    obtain l where l: "l \<in> set ls" "(n, x) \<in> set (enumerate 1 l)" using x by (auto simp: occurrences_def)
    then have "x \<in> snd ` set (enumerate 1 l)" by force
    then have "x \<in> set l" by (metis list.set_map map_snd_enumerate)
    then show ?thesis using l(1) by blast
  qed
  then show "\<exists>l \<in> set ls. it \<in> set l" using occ(1) by blast
  have "i \<noteq> []" using inv imageI[OF assms, of fst] by auto
  then show "i \<in> result_ids ls" using mem[OF occ(1)] \<open>it_id it = Some i\<close> by (auto simp: result_ids_def)
  have "(\<Sum>r\<leftarrow>rs. 1 / of_nat (RRF_K + r)) = (\<Sum>l\<leftarrow>ls. \<Sum>o'\<leftarrow>filter (has_id i) (enumerate 1 l). 1 / rat_of_nat (60 + fst o'))"
    unfolding f(2) occurrences_def RRF_K_def
    by (induction ls) (simp_all add: comp_def)
  then show "it_rrf_score (with_score (i, it, rs)) = Some (rrf_score ls i)"
    by (simp add: with_score_def rrf_score_def)
qed

lemma collected_ids: "fst ` set (collect_ranks ls) = result_ids ls"
proof -
  have "\<exists>o' \<in> set (occurrences ls). has_id i o'" if l: "l \<in> set ls" and x: "x \<in> set l" and i: "it_id x = Some i" for l x i
  proof -
    obtain n where "n < length l" "l ! n = x" using x by (auto simp: in_set_conv_nth)
    then have "(Suc n, x) \<in> set (enumerate 1 l)" by (auto simp: in_set_enumerate_eq)
    then show ?thesis using l i by (force simp: occurrences_def has_id_def)
  qed
  then have "result_ids ls \<subseteq> fst ` set (collect_ranks ls)"
    using rank_inv_collect[of ls] by (auto simp: rank_inv_def result_ids_def)
  moreover have "fst ` set (collect_ranks ls) \<subseteq> result_ids ls" using collected_score(1) by force
  ultimately show ?thesis by blast
qed

section \<open>Rerankers keep the candidates\<close>

lemma preorder_by_score: "preorder_total by_score_desc"
  using preorder_total_key_desc[of "\<lambda>x. or_zero (it_rrf_score x)"] unfolding by_score_desc_def[abs_def] .

lemma preorder_by_rerank: "preorder_total by_rerank_desc"
  using preorder_total_key_desc[of "\<lambda>x. or_zero (it_reranker_score x)"] unfolding by_rerank_desc_def[abs_def] .

lemma set_py_take: "x \<in> set (py_take n xs) \<Longrightarrow> x \<in> set xs"
  by (auto simp: py_take_def split: if_splits dest: in_set_takeD)

lemma py_take_sorted: "sorted_wrt P xs \<Longrightarrow> sorted_wrt P (py_take n xs)"
  by (simp add: py_take_def sorted_wrt_take)

definition unscored :: "'p item \<Rightarrow> 'p item" where
  "unscored c = c\<lparr>it_reranker_score := None\<rparr>"

text \<open>
  What the retriever relies on: a reranker returns candidates, each at most as often as it was
  given and unchanged but for the score, by descending score, and no more than were asked for.
\<close>

locale reranker =
  fixes rerank :: "string \<Rightarrow> 'p item list \<Rightarrow> int \<Rightarrow> 'p item list res"
  assumes candidates_only: "rerank query candidates top_n = Inr out
      \<Longrightarrow> mset (map unscored out) \<subseteq># mset (map unscored candidates)"
    and by_rerank: "rerank query candidates top_n = Inr out \<Longrightarrow> sorted_wrt by_rerank_desc out"
    and at_most: "rerank query candidates top_n = Inr out \<Longrightarrow> 0 \<le> top_n \<Longrightarrow> int (length out) \<le> top_n"
begin

lemma rows_kept:
  assumes "rerank query candidates top_n = Inr out"
  shows "it_row ` set out \<subseteq> it_row ` set candidates"
proof
  fix x assume "x \<in> it_row ` set out"
  then obtain c where c: "c \<in> set out" "x = it_row c" by blast
  then have "unscored c \<in># mset (map unscored out)" by simp
  then have "unscored c \<in> unscored ` set candidates"
    using mset_subset_eqD[OF candidates_only[OF assms]] by fastforce
  then obtain d where "d \<in> set candidates" "unscored c = unscored d" by auto
  then show "x \<in> it_row ` set candidates" unfolding c(2) unscored_def by (metis image_eqI item.select_convs(7) item.surjective item.update_convs(6))
qed

end

lemma mset_take_subset: "mset (py_take n xs) \<subseteq># mset xs"
proof -
  have "mset (take k xs) \<subseteq># mset xs" for k
    by (metis append_take_drop_id mset_append mset_subset_eq_add_left)
  then show ?thesis by (simp add: py_take_def)
qed

lemma length_py_take: "0 \<le> n \<Longrightarrow> int (length (py_take n xs)) \<le> n"
  by (simp add: py_take_def)

lemma unscored_set [simp]: "unscored (set_rerank x c) = unscored c"
  by (simp add: unscored_def set_rerank_def)

lemma scored_subset:
  assumes "map unscored scored = map unscored candidates"
  shows "mset (map unscored (py_take n (sort_wrt le scored))) \<subseteq># mset (map unscored candidates)"
proof -
  have "image_mset unscored (mset (py_take n (sort_wrt le scored))) \<subseteq># image_mset unscored (mset scored)"
    using mset_take_subset[of n "sort_wrt le scored"] by (intro image_mset_subseteq_mono) simp
  then show ?thesis using assms by (metis mset_map)
qed

lemma zeros_sorted: "sorted_wrt by_rerank_desc (map (set_rerank x) cs)"
  by (induction cs) (auto simp: by_rerank_desc_def set_rerank_def)


text \<open>Both rerankers satisfy the contract; for the score-less case the order is that of equal scores.\<close>

lemma zeros_kept:
  "mset (map unscored (py_take n (map (set_rerank x) cs))) \<subseteq># mset (map unscored cs)"
proof -
  have "image_mset unscored (mset (py_take n (map (set_rerank x) cs))) \<subseteq># image_mset unscored (mset (map (set_rerank x) cs))"
    by (rule image_mset_subseteq_mono[OF mset_take_subset])
  then show ?thesis by (simp add: image_mset.compositionality comp_def)
qed

lemma sorted_top: "sorted_wrt by_rerank_desc (py_take n (sort_wrt by_rerank_desc xs))"
  by (rule py_take_sorted[OF sorted_sort_wrt[OF preorder_by_rerank]])

lemma cohere_rerank_Inr:
  assumes "cohere_rerank client q cs n = Inr out"
  shows "out = [] \<and> cs = [] \<or> out = py_take n (map (set_rerank 0) cs)
    \<or> (\<exists>scored. map unscored scored = map unscored cs \<and> out = py_take n (sort_wrt by_rerank_desc scored))"
proof (cases "cs = [] \<or> contents cs = []")
  case True
  then show ?thesis using assms by (auto simp: cohere_rerank_def Let_def split: if_splits)
next
  case False
  then obtain results where out: "out = py_take n (sort_wrt by_rerank_desc
      (map (\<lambda>(i, c). set_rerank (round6 (or_zero (map_of (rev results) i))) c) (enumerate 0 cs)))"
    using assms by (auto simp: cohere_rerank_def Let_def exc_bind_Inr_iff)
  have "map unscored (map (\<lambda>(i, c). set_rerank (round6 (or_zero (map_of (rev results) i))) c) (enumerate 0 cs))
      = map (unscored \<circ> snd) (enumerate 0 cs)" by auto
  also have "\<dots> = map unscored cs" by (metis map_map map_snd_enumerate)
  finally show ?thesis using out by blast
qed

lemma attach_scores_Inr: "attach_scores cs xs = Inr scored \<Longrightarrow> map unscored scored = map unscored cs"
  by (induction cs xs arbitrary: scored rule: attach_scores.induct)
    (auto simp: exc_bind_Inr_iff split: if_splits list.splits)

lemma st_rerank_Inr:
  assumes "st_rerank predict q cs n = Inr out"
  shows "out = [] \<and> cs = [] \<or> out = py_take n (map (set_rerank 0) cs)
    \<or> (\<exists>scored. map unscored scored = map unscored cs \<and> out = py_take n (sort_wrt by_rerank_desc scored))"
  using assms attach_scores_Inr by (auto simp: st_rerank_def exc_bind_Inr_iff split: if_splits)

lemma reranked_laws:
  assumes "out = [] \<and> cs = [] \<or> out = py_take n (map (set_rerank 0) cs)
    \<or> (\<exists>scored. map unscored scored = map unscored cs \<and> out = py_take n (sort_wrt by_rerank_desc scored))"
  shows "mset (map unscored out) \<subseteq># mset (map unscored cs)" "sorted_wrt by_rerank_desc out"
    "0 \<le> n \<Longrightarrow> int (length out) \<le> n"
proof -
  show "mset (map unscored out) \<subseteq># mset (map unscored cs)" using assms
  proof (elim disjE exE conjE)
    show ?thesis if "out = []" using that by simp
    show ?thesis if "out = py_take n (map (set_rerank 0) cs)" unfolding that by (rule zeros_kept)
    show ?thesis if "map unscored scored = map unscored cs" "out = py_take n (sort_wrt by_rerank_desc scored)" for scored
      unfolding that(2) by (rule scored_subset[OF that(1)])
  qed
  show "sorted_wrt by_rerank_desc out" using assms sorted_top py_take_sorted[OF zeros_sorted] by auto
  show "int (length out) \<le> n" if "0 \<le> n" using assms length_py_take[OF that] that by auto
qed

interpretation cohere: reranker "cohere_rerank client" for client
  by unfold_locales (rule reranked_laws, erule cohere_rerank_Inr, assumption?)+

interpretation sentence_transformers: reranker "st_rerank predict" for predict
  by unfold_locales (rule reranked_laws, erule st_rerank_Inr, assumption?)+

section \<open>Properties\<close>

lemma sorted_take_rest:
  assumes "preorder_total le" "sorted_wrt le xs" "x \<in> set (py_take n xs)" "y \<in> set xs" "y \<notin> set (py_take n xs)"
  shows "le x y"
proof -
  define k where "k = (if n < 0 then length xs - nat (- n) else nat n)"
  have k: "py_take n xs = take k xs" by (simp add: py_take_def k_def)
  have "sorted_wrt le (take k xs @ drop k xs)" using assms(2) by simp
  moreover have "y \<in> set (drop k xs)" using assms(4,5) k by (metis UnE append_take_drop_id set_append)
  ultimately show ?thesis using assms(3) k by (simp add: sorted_wrt_append del: append_take_drop_id)
qed

text \<open>
  C29: reciprocal rank fusion returns the best results. The merge of the ranked lists holds
  each id at most once, as many of them as there are or as were asked for; an entry is an item of
  one of the lists with the score that the formula gives its id, summed over every occurrence in
  every list; entries come by descending score, and an id that was left out scores no higher than
  any that was kept.
\<close>

theorem rrf_merge_top:
  assumes "0 \<le> top_n"
  shows "distinct (map it_id (rrf_merge ls top_n))
    \<and> length (rrf_merge ls top_n) = min (nat top_n) (card (result_ids ls))
    \<and> (\<forall>x \<in> set (rrf_merge ls top_n). \<exists>i \<in> result_ids ls. \<exists>l \<in> set ls. \<exists>y \<in> set l.
         it_id y = Some i \<and> x = y\<lparr>it_rrf_score := Some (rrf_score ls i)\<rparr>)
    \<and> sorted_wrt by_score_desc (rrf_merge ls top_n)
    \<and> (\<forall>i \<in> result_ids ls. \<forall>x \<in> set (rrf_merge ls top_n).
         Some i \<notin> it_id ` set (rrf_merge ls top_n) \<longrightarrow> rrf_score ls i \<le> or_zero (it_rrf_score x))"
proof -
  let ?C = "collect_ranks ls"
  let ?S = "sort_wrt by_score_desc (map with_score ?C)"
  have item: "\<exists>i \<in> result_ids ls. \<exists>l \<in> set ls. \<exists>y \<in> set l. it_id y = Some i \<and> with_score c = y\<lparr>it_rrf_score := Some (rrf_score ls i)\<rparr>
      \<and> it_id (with_score c) = Some (fst c)" if mem: "c \<in> set ?C" for c
  proof -
    obtain i it rs where c: "c = (i, it, rs)" by (cases c)
    have "with_score c = it\<lparr>it_rrf_score := Some (rrf_score ls i)\<rparr>"
      using collected_score(3)[OF mem[unfolded c]] unfolding c with_score_def by simp
    then show ?thesis using collected_score[OF mem[unfolded c]] unfolding c by fastforce
  qed
  have ids: "map it_id (map with_score ?C) = map (Some \<circ> fst) ?C" using item by auto
  have dist: "distinct (map fst ?C)" using rank_inv_collect[of ls] by (simp add: rank_inv_def)
  then have "distinct (map it_id (map with_score ?C))" unfolding ids by (simp add: distinct_map inj_on_def)
  then have dS: "distinct (map it_id ?S)" by (metis mset_map mset_sort_wrt mset_eq_imp_distinct_iff)
  have len: "length ?S = card (result_ids ls)"
    using dist collected_ids[of ls] by (metis distinct_card length_map length_sort_wrt list.set_map)
  have sS: "sorted_wrt by_score_desc ?S" by (rule sorted_sort_wrt[OF preorder_by_score])
  have R: "rrf_merge ls top_n = take (nat top_n) ?S" using assms by (simp add: rrf_merge_def py_take_def)
  have left: "rrf_score ls i \<le> or_zero (it_rrf_score x)"
    if i: "i \<in> result_ids ls" and x: "x \<in> set (rrf_merge ls top_n)" and absent: "Some i \<notin> it_id ` set (rrf_merge ls top_n)" for i x
  proof -
    obtain c where c: "c \<in> set ?C" "fst c = i" using i unfolding collected_ids[symmetric] by blast
    obtain it rs where "c = (i, it, rs)" using c(2) by (cases c) auto
    then have s: "it_rrf_score (with_score c) = Some (rrf_score ls i)"
      using collected_score(3)[of i it rs ls] c(1) by simp
    have "it_id (with_score c) = Some i" using item[OF c(1)] c(2) by blast
    then have out: "with_score c \<notin> set (rrf_merge ls top_n)" using absent by (metis image_eqI)
    have "with_score c \<in> set ?S" using c(1) by simp
    then have "by_score_desc x (with_score c)"
      using sorted_take_rest[OF preorder_by_score sS] x out unfolding rrf_merge_def by blast
    then show ?thesis using s by (simp add: by_score_desc_def or_zero_def)
  qed
  have mem: "\<forall>x \<in> set (rrf_merge ls top_n). \<exists>i \<in> result_ids ls. \<exists>l \<in> set ls. \<exists>y \<in> set l.
         it_id y = Some i \<and> x = y\<lparr>it_rrf_score := Some (rrf_score ls i)\<rparr>"
  proof (intro ballI)
    fix x assume "x \<in> set (rrf_merge ls top_n)"
    then have "x \<in> with_score ` set ?C" unfolding R by (auto dest!: in_set_takeD)
    then obtain c where c: "x = with_score c" "c \<in> set ?C" by (rule imageE)
    show "\<exists>i \<in> result_ids ls. \<exists>l \<in> set ls. \<exists>y \<in> set l. it_id y = Some i \<and> x = y\<lparr>it_rrf_score := Some (rrf_score ls i)\<rparr>"
      using item[OF c(2)] unfolding c(1) by meson
  qed
  have "distinct (map it_id (rrf_merge ls top_n))" "length (rrf_merge ls top_n) = min (nat top_n) (card (result_ids ls))"
    "sorted_wrt by_score_desc (rrf_merge ls top_n)"
    unfolding R using dS len sS by (simp_all add: take_map[symmetric] sorted_wrt_take min.commute)
  then show ?thesis using mem left by blast
qed


definition sample_item :: "string \<Rightarrow> unit item" where
  "sample_item i = \<lparr>it_id = Some i, it_created_at = CNone, it_content = Some i, it_distance = None,
     it_rrf_score = None, it_reranker_score = None, it_row = ()\<rparr>"

theorem rrf_merge_top_witness:
  "distinct (map it_id (rrf_merge [[sample_item ''a'', sample_item ''b''], [sample_item ''b'']] 1))
   \<and> length (rrf_merge [[sample_item ''a'', sample_item ''b''], [sample_item ''b'']] 1) = 1"
proof -
  have "result_ids [[sample_item ''a'', sample_item ''b''], [sample_item ''b'']] = {''a'', ''b''}"
    by (auto simp: result_ids_def sample_item_def)
  then show ?thesis using rrf_merge_top[of 1 "[[sample_item ''a'', sample_item ''b''], [sample_item ''b'']]"] by simp
qed

text \<open>
  An entity that several graph backends return keeps the distance of the first backend, also
  when a later one is closer.
\<close>

lemma bfs_keeps_first_backend:
  assumes "it_id x = Some (c # cs)" and "it_id y = Some (c # cs)"
  shows "graph_bfs_search [Inr (Some [Some x]), Inr (Some [Some y])] = [x]"
  using assms by (simp add: graph_bfs_search_def safe_retrieve_def py_take_def MAX_BFS_RESULTS_def)

text \<open>
  The Cohere client numbers the documents it was sent, which leave out candidates without
  content; the reranker reads the numbers as positions among all candidates, so after a gap
  each score goes to the neighbour.
\<close>

lemma cohere_scores_shift:
  assumes "\<not> truthy (it_content x)" and "truthy (it_content y)" and "client q [the (it_content y)] 2 = Inr [(0, s)]"
    and "round6 s > 0"
  shows "cohere_rerank client q [x, y] 2 = Inr [set_rerank (round6 s) x, set_rerank 0 y]"
proof -
  have "round6 0 = 0" by (simp add: round6_def round_half_even_def)
  then show ?thesis
    using assms by (simp add: cohere_rerank_def contents_def Let_def or_zero_def py_take_def by_rerank_desc_def set_rerank_def)
qed

end
