(* ===== verification/Hybrid_Search.thy ===== *)
theory Hybrid_Search
  imports Fusion Fact_Pages
begin

text \<open>
  Hybrid retrieval: \<^verbatim>\<open>src/services/retrieval\<close> (the five legs and \<^verbatim>\<open>hybrid_search\<close>) over the
  statements of \<^verbatim>\<open>src/repositories/retrieval_repository.py\<close> and the full-text searches of the fact
  and episode repositories. Cosine distance, text-search match and rank, the embedder, the graph
  backends and the failures of the database are parameters. The legs share one reading of the clock
  when no query time is given. The lemmas show when a search fails and what it returns when
  some of its legs do, and that no search returns a fact that is not valid at the time asked for.
\<close>

section \<open>Rows and parameters\<close>

record ep_doc =
  d_id :: uuid
  d_project_id :: uuid
  d_organization_id :: uuid
  d_content :: string
  d_is_deleted :: bool
  d_embedding :: "rat list option"
  d_created_at :: datetime

record search_lib =
  cosine :: "rat list \<Rightarrow> rat list \<Rightarrow> rat" \<comment> \<open>pgvector's \<^verbatim>\<open><=>\<close>\<close>
  ts_match :: "string \<Rightarrow> string \<Rightarrow> bool" \<comment> \<open>\<^verbatim>\<open>to_tsvector(content) @@ plainto_tsquery(query)\<close>\<close>
  ts_rank :: "string \<Rightarrow> string \<Rightarrow> rat"
  scan_docs :: "ep_doc list \<Rightarrow> ep_doc list"

record 'g retriever =
  rt_pg :: pg
  rt_lib :: search_lib
  rt_text :: val_text
  rt_str_time :: "datetime \<Rightarrow> string" \<comment> \<open>\<^verbatim>\<open>str\<close> of a timestamp\<close>
  rt_embed :: "string \<Rightarrow> rat list list res"
  rt_org :: uuid
  rt_backends :: "string \<Rightarrow> uuid \<Rightarrow> datetime option \<Rightarrow> 'g item option list option res list"
  rt_fault :: "string \<Rightarrow> exn option" \<comment> \<open>what the database raises during a leg\<close>
  rt_reranker :: "((string \<Rightarrow> ep_doc item list \<Rightarrow> int \<Rightarrow> ep_doc item list res)
                  \<times> (string \<Rightarrow> fact item list \<Rightarrow> int \<Rightarrow> fact item list res)) option"
  rt_top_k :: int
  rt_top_n :: int

definition DEFAULT_RERANK_TOP_K :: int where "DEFAULT_RERANK_TOP_K = 50"
definition DEFAULT_RERANK_TOP_N :: int where "DEFAULT_RERANK_TOP_N = 10"

text \<open>\<^verbatim>\<open>HybridRetriever.__init__\<close>: the organization's settings, or the defaults for a missing or zero one.\<close>

definition configured :: "(int option \<times> int option) option \<Rightarrow> 'g retriever \<Rightarrow> 'g retriever" where
  "configured org_config R =
     (let pick = (\<lambda>x d. case x of None \<Rightarrow> d | Some k \<Rightarrow> if k = 0 then d else k);
          (k, n) = (case org_config of None \<Rightarrow> (None, None) | Some c \<Rightarrow> c)
      in R\<lparr>rt_top_k := pick k DEFAULT_RERANK_TOP_K, rt_top_n := pick n DEFAULT_RERANK_TOP_N\<rparr>)"

section \<open>Statements\<close>

definition sql_limit :: "int \<Rightarrow> 'a list \<Rightarrow> 'a list res" where
  "sql_limit n rows = (if n < 0 then Inl DataError else Inr (take (nat n) rows))"

definition as_of :: "pg \<Rightarrow> datetime option \<Rightarrow> datetime" where
  "as_of P t = (case t of None \<Rightarrow> utcnow P | Some x \<Rightarrow> x)"

definition vector_search_facts ::
  "'g retriever \<Rightarrow> rat list \<Rightarrow> uuid \<Rightarrow> int \<Rightarrow> datetime option \<Rightarrow> fact list \<Rightarrow> fact list res" where
  "vector_search_facts R embedding proj limit query_time rows =
     sql_limit limit (sort_wrt (\<lambda>f g. cosine (rt_lib R) (the (f_embedding f)) embedding \<le> cosine (rt_lib R) (the (f_embedding g)) embedding)
       (scan_rows (rt_pg R) (filter (\<lambda>f. f_project_id f = proj \<and> effective_at (as_of (rt_pg R) query_time) f
          \<and> f_embedding f \<noteq> None \<and> f_embedding f \<noteq> Some []) rows)))"

definition vector_search_episodes :: "'g retriever \<Rightarrow> rat list \<Rightarrow> uuid \<Rightarrow> int \<Rightarrow> ep_doc list \<Rightarrow> ep_doc list res" where
  "vector_search_episodes R embedding proj limit rows =
     sql_limit limit (sort_wrt (\<lambda>d e. cosine (rt_lib R) (the (d_embedding d)) embedding \<le> cosine (rt_lib R) (the (d_embedding e)) embedding)
       (scan_docs (rt_lib R) (filter (\<lambda>d. d_project_id d = proj \<and> \<not> d_is_deleted d
          \<and> d_embedding d \<noteq> None \<and> d_embedding d \<noteq> Some []) rows)))"

definition bm25_search_facts ::
  "'g retriever \<Rightarrow> string \<Rightarrow> uuid \<Rightarrow> int \<Rightarrow> datetime option \<Rightarrow> fact list \<Rightarrow> fact list res" where
  "bm25_search_facts R query proj limit query_time rows =
     sql_limit (min limit 200) (sort_wrt (\<lambda>f g. ts_rank (rt_lib R) (f_content g) query \<le> ts_rank (rt_lib R) (f_content f) query)
       (scan_rows (rt_pg R) (filter (\<lambda>f. f_project_id f = proj \<and> f_organization_id f = rt_org R
          \<and> ts_match (rt_lib R) (f_content f) query \<and> effective_at (as_of (rt_pg R) query_time) f) rows)))"

definition bm25_search_episodes :: "'g retriever \<Rightarrow> string \<Rightarrow> uuid \<Rightarrow> int \<Rightarrow> ep_doc list \<Rightarrow> ep_doc list res" where
  "bm25_search_episodes R query proj limit rows =
     sql_limit (min limit 200) (sort_wrt (\<lambda>d e. ts_rank (rt_lib R) (d_content e) query \<le> ts_rank (rt_lib R) (d_content d) query)
       (scan_docs (rt_lib R) (filter (\<lambda>d. d_project_id d = proj \<and> d_organization_id d = rt_org R
          \<and> \<not> d_is_deleted d \<and> ts_match (rt_lib R) (d_content d) query) rows)))"

text \<open>The dictionaries: a vector leg keeps the timestamp, a full-text leg a text of it.\<close>

definition mk_result :: "uuid \<Rightarrow> string \<Rightarrow> created \<Rightarrow> 'p \<Rightarrow> 'p item" where
  "mk_result i content cr row =
     \<lparr>it_id = Some (uuid_str i), it_created_at = cr, it_content = Some content, it_distance = None,
      it_rrf_score = None, it_reranker_score = None, it_row = row\<rparr>"

definition fact_result :: "(datetime \<Rightarrow> created) \<Rightarrow> fact \<Rightarrow> fact item" where
  "fact_result cr f = mk_result (f_id f) (f_content f) (cr (f_created_at f)) f"

definition doc_result :: "(datetime \<Rightarrow> created) \<Rightarrow> ep_doc \<Rightarrow> ep_doc item" where
  "doc_result cr d = mk_result (d_id d) (d_content d) (cr (d_created_at d)) d"

section \<open>Legs\<close>

text \<open>The names of the legs.\<close>

definition episode_vector :: string where "episode_vector = ''episode_vector''"
definition fact_vector :: string where "fact_vector = ''fact_vector''"
definition episode_bm25 :: string where "episode_bm25 = ''episode_bm25''"
definition fact_bm25 :: string where "fact_bm25 = ''fact_bm25''"
definition graph_bfs :: string where "graph_bfs = ''graph_bfs''"

definition LEGS :: "string list" where
  "LEGS = [episode_vector, fact_vector, episode_bm25, fact_bm25, graph_bfs]"

definition CANONICAL_EMBED_DIM :: nat where "CANONICAL_EMBED_DIM = 768"

definition embed_query :: "'g retriever \<Rightarrow> string \<Rightarrow> rat list res" where
  "embed_query R query =
     (case rt_embed R query of
        Inr (v # _) \<Rightarrow> if length v = CANONICAL_EMBED_DIM then Inr v else Inl SearchLegFailedError
      | _ \<Rightarrow> Inl SearchLegFailedError)"

definition run_leg :: "'g retriever \<Rightarrow> string \<Rightarrow> 'a list res \<Rightarrow> 'a list res" where
  "run_leg R leg_name body =
     (case rt_fault R leg_name of
        Some _ \<Rightarrow> Inl SearchLegFailedError
      | None \<Rightarrow> (case body of Inl _ \<Rightarrow> Inl SearchLegFailedError | Inr xs \<Rightarrow> Inr xs))"

definition leg_episode_vector :: "'g retriever \<Rightarrow> rat list option \<Rightarrow> uuid \<Rightarrow> int \<Rightarrow> ep_doc list \<Rightarrow> ep_doc item list res" where
  "leg_episode_vector R embedding proj limit docs =
     (case embedding of
        None \<Rightarrow> Inr []
      | Some v \<Rightarrow> run_leg R episode_vector
          (exc_bind (vector_search_episodes R v proj limit docs) (\<lambda>ds. Inr (map (doc_result CDatetime) ds))))"

definition leg_fact_vector ::
  "'g retriever \<Rightarrow> rat list option \<Rightarrow> uuid \<Rightarrow> int \<Rightarrow> datetime option \<Rightarrow> fact list \<Rightarrow> fact item list res" where
  "leg_fact_vector R embedding proj limit query_time rows =
     (case embedding of
        None \<Rightarrow> Inr []
      | Some v \<Rightarrow> run_leg R fact_vector
          (exc_bind (vector_search_facts R v proj limit query_time rows) (\<lambda>fs. Inr (map (fact_result CDatetime) fs))))"

definition leg_episode_bm25 :: "'g retriever \<Rightarrow> string \<Rightarrow> uuid \<Rightarrow> int \<Rightarrow> ep_doc list \<Rightarrow> ep_doc item list res" where
  "leg_episode_bm25 R query proj limit docs =
     run_leg R episode_bm25
       (exc_bind (bm25_search_episodes R query proj limit docs) (\<lambda>ds. Inr (map (doc_result (CText \<circ> rt_str_time R)) ds)))"

definition leg_fact_bm25 ::
  "'g retriever \<Rightarrow> string \<Rightarrow> uuid \<Rightarrow> int \<Rightarrow> datetime option \<Rightarrow> fact list \<Rightarrow> fact item list res" where
  "leg_fact_bm25 R query proj limit query_time rows =
     run_leg R fact_bm25
       (exc_bind (bm25_search_facts R query proj limit query_time rows)
          (\<lambda>fs. Inr (map (fact_result (CText \<circ> iso (rt_text R))) fs)))"

definition leg_graph_bfs :: "'g retriever \<Rightarrow> string \<Rightarrow> uuid \<Rightarrow> datetime option \<Rightarrow> 'g item list res" where
  "leg_graph_bfs R query proj query_time =
     run_leg R graph_bfs (Inr (graph_bfs_search (rt_backends R query proj query_time)))"

text \<open>\<^verbatim>\<open>_safe_leg\<close>: a failed leg contributes nothing; the flag says that its name is noted.\<close>

definition safe_leg :: "'a list res \<Rightarrow> ('a list \<times> bool) res" where
  "safe_leg r = (case r of Inr xs \<Rightarrow> Inr (xs, False) | Inl e \<Rightarrow> if e = SearchLegFailedError then Inr ([], True) else Inl e)"

section \<open>The search\<close>

record 'g search_result =
  sr_episodes :: "ep_doc item list"
  sr_facts :: "fact item list"
  sr_entities :: "'g item list"
  sr_counts :: "nat list" \<comment> \<open>vector, bm25 and merged episodes; the same of facts; graph entities\<close>
  sr_total_items :: nat
  sr_query_embedding_dim :: "nat option"
  sr_degraded :: bool
  sr_failed_legs :: "string list"

text \<open>From the check that some leg is up to the response.\<close>

definition combine_legs ::
  "'g retriever \<Rightarrow> string list \<Rightarrow> nat option \<Rightarrow> string \<Rightarrow> int \<Rightarrow> string \<Rightarrow> ep_doc item list \<Rightarrow> fact item list
   \<Rightarrow> ep_doc item list \<Rightarrow> fact item list \<Rightarrow> 'g item list \<Rightarrow> 'g search_result res" where
  "combine_legs R failed_legs emb_dim query limit srt ev fv eb fb ents =
     (if list_all (\<lambda>n. n \<in> set failed_legs) LEGS then Inl SearchLegFailedError
      else if srt \<notin> {''relevance'', ''recent''} then Inl ValidationError
      else
        (let rrf_top_n = (if rt_reranker R \<noteq> None then rt_top_k R else limit);
             (eps, fcts, entities) = merge_and_sort (from_iso (rt_text R)) ev fv eb fb ents limit rrf_top_n srt;
             (eps', fcts', failed') = maybe_rerank (rt_reranker R) (rt_top_n R) query eps fcts srt failed_legs
         in Inr \<lparr>sr_episodes = eps', sr_facts = fcts', sr_entities = entities,
                 sr_counts = [length ev, length eb, length eps', length fv, length fb, length fcts', length ents],
                 sr_total_items = length eps' + length fcts' + length entities,
                 sr_query_embedding_dim = emb_dim, sr_degraded = (failed' \<noteq> []), sr_failed_legs = failed'\<rparr>))"

text \<open>
  \<open>completed\<close> is the order in which the legs end, which is the order of their names without a
  session factory and any other when they run concurrently.
\<close>

definition hybrid_search ::
  "'g retriever \<Rightarrow> string list \<Rightarrow> nat option \<Rightarrow> string \<Rightarrow> uuid \<Rightarrow> int \<Rightarrow> datetime option \<Rightarrow> string
   \<Rightarrow> ep_doc list \<Rightarrow> fact list \<Rightarrow> 'g search_result res" where
  "hybrid_search R completed last_dim query proj limit query_time srt docs rows =
     (let retrieval_limit = (if rt_reranker R \<noteq> None then max limit (rt_top_k R) else limit);
          embedded = embed_query R query;
          embedding = (case embedded of Inl _ \<Rightarrow> None | Inr v \<Rightarrow> Some v);
          emb_dim = (case embedded of Inl _ \<Rightarrow> last_dim | Inr v \<Rightarrow> Some (length v));
          failed0 = (case embedded of Inl _ \<Rightarrow> [episode_vector, fact_vector] | Inr _ \<Rightarrow> [])
      in exc_bind (safe_leg (leg_episode_vector R embedding proj retrieval_limit docs)) (\<lambda>(ev, b1).
         exc_bind (safe_leg (leg_fact_vector R embedding proj retrieval_limit query_time rows)) (\<lambda>(fv, b2).
         exc_bind (safe_leg (leg_episode_bm25 R query proj retrieval_limit docs)) (\<lambda>(eb, b3).
         exc_bind (safe_leg (leg_fact_bm25 R query proj retrieval_limit query_time rows)) (\<lambda>(fb, b4).
         exc_bind (safe_leg (leg_graph_bfs R query proj query_time)) (\<lambda>(ents, b5).
           let noted = map fst (filter snd (zip LEGS [b1, b2, b3, b4, b5]));
               failed_legs = failed0 @ filter (\<lambda>n. n \<in> set noted) completed
           in combine_legs R failed_legs emb_dim query limit srt ev fv eb fb ents))))))"

section \<open>Degradation\<close>

text \<open>A leg is down when the database fails it, and a vector leg also when there is no embedding.\<close>

definition leg_down :: "'g retriever \<Rightarrow> string \<Rightarrow> string \<Rightarrow> bool" where
  "leg_down R query n \<longleftrightarrow> rt_fault R n \<noteq> None \<or> (n \<in> {episode_vector, fact_vector} \<and> isl (embed_query R query))"

definition contribution :: "'a list res \<Rightarrow> 'a list" where
  "contribution r = (case r of Inl _ \<Rightarrow> [] | Inr xs \<Rightarrow> xs)"

definition opt_embedding :: "'g retriever \<Rightarrow> string \<Rightarrow> rat list option" where
  "opt_embedding R query = (case embed_query R query of Inl _ \<Rightarrow> None | Inr v \<Rightarrow> Some v)"

lemma leg_Inr [simp]: "safe_leg (Inr xs) = Inr (xs, False)" "contribution (Inr xs) = xs"
  by (simp_all add: safe_leg_def contribution_def)

lemma safe_run_leg: "safe_leg (run_leg R n body) = Inr (contribution (run_leg R n body), isl (run_leg R n body))"
  by (auto simp: safe_leg_def run_leg_def contribution_def split: option.split sum.split)

lemma isl_run_leg: "\<not> isl body \<Longrightarrow> isl (run_leg R n body) \<longleftrightarrow> rt_fault R n \<noteq> None"
  by (auto simp: run_leg_def split: option.split sum.split)

lemma sql_limit_ok: "0 \<le> n \<Longrightarrow> sql_limit n rows = Inr (take (nat n) rows)"
  by (simp add: sql_limit_def)

lemma embed_query_cases: "embed_query R query = Inl SearchLegFailedError \<or> (\<exists>v. embed_query R query = Inr v)"
  by (auto simp: embed_query_def split: sum.splits list.splits)

lemma safe_legs:
  assumes "0 \<le> limit"
  shows "safe_leg (leg_episode_vector R (opt_embedding R q) proj limit docs)
      = Inr (contribution (leg_episode_vector R (opt_embedding R q) proj limit docs),
             \<not> isl (embed_query R q) \<and> rt_fault R episode_vector \<noteq> None)"
    "safe_leg (leg_fact_vector R (opt_embedding R q) proj limit t rows)
      = Inr (contribution (leg_fact_vector R (opt_embedding R q) proj limit t rows),
             \<not> isl (embed_query R q) \<and> rt_fault R fact_vector \<noteq> None)"
    "safe_leg (leg_episode_bm25 R q proj limit docs)
      = Inr (contribution (leg_episode_bm25 R q proj limit docs), rt_fault R episode_bm25 \<noteq> None)"
    "safe_leg (leg_fact_bm25 R q proj limit t rows)
      = Inr (contribution (leg_fact_bm25 R q proj limit t rows), rt_fault R fact_bm25 \<noteq> None)"
    "safe_leg (leg_graph_bfs R q proj t)
      = Inr (contribution (leg_graph_bfs R q proj t), rt_fault R graph_bfs \<noteq> None)"
proof -
  have lim: "0 \<le> min limit 200" using assms by simp
  show "safe_leg (leg_episode_vector R (opt_embedding R q) proj limit docs)
      = Inr (contribution (leg_episode_vector R (opt_embedding R q) proj limit docs),
             \<not> isl (embed_query R q) \<and> rt_fault R episode_vector \<noteq> None)"
    by (cases "embed_query R q")
      (simp_all add: leg_episode_vector_def opt_embedding_def safe_run_leg isl_run_leg
        vector_search_episodes_def sql_limit_ok[OF assms])
  show "safe_leg (leg_fact_vector R (opt_embedding R q) proj limit t rows)
      = Inr (contribution (leg_fact_vector R (opt_embedding R q) proj limit t rows),
             \<not> isl (embed_query R q) \<and> rt_fault R fact_vector \<noteq> None)"
    by (cases "embed_query R q")
      (simp_all add: leg_fact_vector_def opt_embedding_def safe_run_leg isl_run_leg
        vector_search_facts_def sql_limit_ok[OF assms])
  show "safe_leg (leg_episode_bm25 R q proj limit docs)
      = Inr (contribution (leg_episode_bm25 R q proj limit docs), rt_fault R episode_bm25 \<noteq> None)"
    by (simp add: leg_episode_bm25_def safe_run_leg isl_run_leg bm25_search_episodes_def sql_limit_ok[OF lim])
  show "safe_leg (leg_fact_bm25 R q proj limit t rows)
      = Inr (contribution (leg_fact_bm25 R q proj limit t rows), rt_fault R fact_bm25 \<noteq> None)"
    by (simp add: leg_fact_bm25_def safe_run_leg isl_run_leg bm25_search_facts_def sql_limit_ok[OF lim])
  show "safe_leg (leg_graph_bfs R q proj t) = Inr (contribution (leg_graph_bfs R q proj t), rt_fault R graph_bfs \<noteq> None)"
    by (simp add: leg_graph_bfs_def safe_run_leg isl_run_leg)
qed


text \<open>The names a search notes, and the whole search in terms of what the legs contribute.\<close>

definition noted_legs :: "'g retriever \<Rightarrow> string list \<Rightarrow> string \<Rightarrow> string list" where
  "noted_legs R completed q =
     (case embed_query R q of Inl _ \<Rightarrow> [episode_vector, fact_vector] | Inr _ \<Rightarrow> [])
     @ filter (\<lambda>n. n \<in> set (map fst (filter snd (zip LEGS
          [\<not> isl (embed_query R q) \<and> rt_fault R episode_vector \<noteq> None, \<not> isl (embed_query R q) \<and> rt_fault R fact_vector \<noteq> None,
           rt_fault R episode_bm25 \<noteq> None, rt_fault R fact_bm25 \<noteq> None, rt_fault R graph_bfs \<noteq> None])))) completed"

lemma hybrid_search_eq:
  fixes R :: "'g retriever"
  assumes "0 \<le> limit"
  shows "hybrid_search R completed dim0 q proj limit t srt docs rows =
    (let k = (if rt_reranker R \<noteq> None then max limit (rt_top_k R) else limit)
     in combine_legs R (noted_legs R completed q) (case embed_query R q of Inl _ \<Rightarrow> dim0 | Inr v \<Rightarrow> Some (length v)) q limit srt
          (contribution (leg_episode_vector R (opt_embedding R q) proj k docs))
          (contribution (leg_fact_vector R (opt_embedding R q) proj k t rows))
          (contribution (leg_episode_bm25 R q proj k docs)) (contribution (leg_fact_bm25 R q proj k t rows))
          (contribution (leg_graph_bfs R q proj t)))"
proof -
  have k: "0 \<le> (if rt_reranker R \<noteq> None then max limit (rt_top_k R) else limit)" using assms by (simp add: le_max_iff_disj)
  show ?thesis
    unfolding hybrid_search_def Let_def opt_embedding_def[symmetric] safe_legs[OF k] exc_bind.simps prod.case noted_legs_def
    by (rule refl)
qed

lemma noted_set:
  assumes "mset completed = mset LEGS"
  shows "set (noted_legs R completed q) = {n \<in> set LEGS. leg_down R q n}"
proof -
  have "set completed = set LEGS" using assms by (metis set_mset_mset)
  moreover have "distinct LEGS" by (simp add: LEGS_def episode_vector_def fact_vector_def episode_bm25_def fact_bm25_def graph_bfs_def)
  ultimately show ?thesis by (cases "embed_query R q") (auto simp: noted_legs_def leg_down_def LEGS_def)
qed

lemma maybe_rerank_cases:
  assumes "maybe_rerank rr n q eps fcts srt failed = (eps', fcts', failed')"
  obtains "failed' = failed" "rr = None \<or> srt \<noteq> ''relevance''" "eps' = eps" "fcts' = fcts"
  | re rf where "rr = Some (re, rf)" "srt = ''relevance''" "failed' = failed \<or> failed' = failed @ [''reranker'']"
      "fcts' = fcts \<or> rf q fcts n = Inr fcts'" "eps' = eps \<or> re q eps n = Inr eps'"
proof (cases rr)
  case None
  then show ?thesis using assms that(1) by (simp add: maybe_rerank_def)
next
  case (Some p)
  obtain re rf where p: "p = (re, rf)" by fastforce
  show ?thesis
  proof (cases "srt = ''relevance''")
    case False
    then show ?thesis using assms that(1) Some p by (simp add: maybe_rerank_def)
  next
    case True
    then show ?thesis using assms that(2)[of re rf] Some p
      by (auto simp: maybe_rerank_def split: sum.splits)
  qed
qed

lemma combine_legs_outcome:
  assumes set: "set noted = {n \<in> set LEGS. leg_down R q n}"
  shows "combine_legs R noted emb_dim q limit srt ev fv eb fb ents = Inl SearchLegFailedError \<longleftrightarrow> (\<forall>n \<in> set LEGS. leg_down R q n)"
    "combine_legs R noted emb_dim q limit srt ev fv eb fb ents = Inl ValidationError
      \<longleftrightarrow> (\<exists>n \<in> set LEGS. \<not> leg_down R q n) \<and> srt \<notin> {''relevance'', ''recent''}"
    "combine_legs R noted emb_dim q limit srt ev fv eb fb ents = Inr r \<Longrightarrow>
       (\<exists>n \<in> set LEGS. \<not> leg_down R q n) \<and> srt \<in> {''relevance'', ''recent''}
       \<and> set (sr_failed_legs r) - {''reranker''} = {n \<in> set LEGS. leg_down R q n}
       \<and> sr_degraded r = (sr_failed_legs r \<noteq> [])
       \<and> (''reranker'' \<in> set (sr_failed_legs r) \<longrightarrow> rt_reranker R \<noteq> None \<and> srt = ''relevance'')
       \<and> (rt_reranker R = None \<and> srt = ''relevance'' \<longrightarrow>
            sr_episodes r = rrf_merge [ev, eb] limit \<and> sr_facts r = rrf_merge [fv, fb] limit)"
proof -
  let ?all = "\<forall>n \<in> set LEGS. leg_down R q n"
  have all: "list_all (\<lambda>n. n \<in> set noted) LEGS \<longleftrightarrow> ?all" unfolding set by (auto simp: list_all_iff)
  have no_rr: "''reranker'' \<notin> set LEGS"
    by (simp add: LEGS_def episode_vector_def fact_vector_def episode_bm25_def fact_bm25_def graph_bfs_def)
  obtain eps fcts entities where
    m: "merge_and_sort (from_iso (rt_text R)) ev fv eb fb ents limit (if rt_reranker R \<noteq> None then rt_top_k R else limit) srt
      = (eps, fcts, entities)" by (rule prod_cases3)
  obtain eps' fcts' failed' where rr: "maybe_rerank (rt_reranker R) (rt_top_n R) q eps fcts srt noted = (eps', fcts', failed')"
    by (rule prod_cases3)
  note run = combine_legs_def[of R noted emb_dim q limit srt ev fv eb fb ents, unfolded all Let_def m prod.case rr]
  show "combine_legs R noted emb_dim q limit srt ev fv eb fb ents = Inl SearchLegFailedError \<longleftrightarrow> ?all"
    "combine_legs R noted emb_dim q limit srt ev fv eb fb ents = Inl ValidationError
      \<longleftrightarrow> (\<exists>n \<in> set LEGS. \<not> leg_down R q n) \<and> srt \<notin> {''relevance'', ''recent''}"
    unfolding run by (simp_all split: if_split)
  assume r: "combine_legs R noted emb_dim q limit srt ev fv eb fb ents = Inr r"
  have g: "\<not> ?all" "srt \<in> {''relevance'', ''recent''}"
    using r unfolding run by (cases ?all; cases "srt \<in> {''relevance'', ''recent''}"; simp)+
  then have "\<not> srt \<notin> {''relevance'', ''recent''}" by blast
  then have v: "sr_failed_legs r = failed'" "sr_degraded r = (failed' \<noteq> [])" "sr_episodes r = eps'" "sr_facts r = fcts'"
    using r unfolding run if_not_P[OF g(1)] by auto
  have sets: "set noted - {''reranker''} = {n \<in> set LEGS. leg_down R q n}" "''reranker'' \<notin> set noted"
    using set no_rr by auto
  from rr have "set failed' - {''reranker''} = {n \<in> set LEGS. leg_down R q n}
       \<and> (''reranker'' \<in> set failed' \<longrightarrow> rt_reranker R \<noteq> None \<and> srt = ''relevance'')
       \<and> (rt_reranker R = None \<and> srt = ''relevance'' \<longrightarrow> eps' = eps \<and> fcts' = fcts)"
  proof (cases rule: maybe_rerank_cases)
    case 1
    then show ?thesis using sets by blast
  next
    case (2 re rf)
    have "set failed' = set noted \<or> set failed' = insert ''reranker'' (set noted)" using 2(3) by auto
    moreover have "rt_reranker R \<noteq> None" using 2(1) by simp
    ultimately show ?thesis using sets 2(2) by blast
  qed
  moreover have "rt_reranker R = None \<and> srt = ''relevance'' \<longrightarrow> eps = rrf_merge [ev, eb] limit \<and> fcts = rrf_merge [fv, fb] limit"
    using m by (auto simp: merge_and_sort_def Let_def)
  ultimately show "(\<exists>n \<in> set LEGS. \<not> leg_down R q n) \<and> srt \<in> {''relevance'', ''recent''}
       \<and> set (sr_failed_legs r) - {''reranker''} = {n \<in> set LEGS. leg_down R q n}
       \<and> sr_degraded r = (sr_failed_legs r \<noteq> [])
       \<and> (''reranker'' \<in> set (sr_failed_legs r) \<longrightarrow> rt_reranker R \<noteq> None \<and> srt = ''relevance'')
       \<and> (rt_reranker R = None \<and> srt = ''relevance'' \<longrightarrow>
            sr_episodes r = rrf_merge [ev, eb] limit \<and> sr_facts r = rrf_merge [fv, fb] limit)"
    using g v by simp
qed

section \<open>Rows of a search\<close>

lemma rrf_merge_rows:
  assumes "x \<in> set (rrf_merge ls n)"
  shows "\<exists>l \<in> set ls. \<exists>y \<in> set l. it_row x = it_row y"
proof -
  have "x \<in> set (map with_score (collect_ranks ls))" using set_py_take[OF assms[unfolded rrf_merge_def]] by simp
  then obtain i it rs where c: "(i, it, rs) \<in> set (collect_ranks ls)" "x = with_score (i, it, rs)" by auto
  then have "it_row x = it_row it" by (simp add: with_score_def)
  then show ?thesis using collected_score(4)[OF c(1)] by blast
qed

lemma contribution_run_leg: "x \<in> set (contribution (run_leg R n body)) \<Longrightarrow> \<exists>xs. body = Inr xs \<and> x \<in> set xs"
  by (auto simp: contribution_def run_leg_def split: option.splits sum.splits)

lemma sql_limit_sub: "sql_limit n rows = Inr xs \<Longrightarrow> set xs \<subseteq> set rows"
  by (auto simp: sql_limit_def split: if_splits dest: in_set_takeD)

lemma fact_legs_rows:
  assumes P: "postgres (rt_pg R)"
    and x: "x \<in> set (contribution (leg_fact_vector R v proj k t rows)) \<or> x \<in> set (contribution (leg_fact_bm25 R q proj k t rows))"
  shows "it_row x \<in> set rows \<and> f_project_id (it_row x) = proj \<and> effective_at (as_of (rt_pg R) t) (it_row x)"
proof -
  have scan: "set (scan_rows (rt_pg R) fs) = set fs" for fs by (rule postgres.scan_rows_set[OF P])
  have row: "it_row (fact_result c f) = f" for c f by (simp add: fact_result_def mk_result_def)
  from x show ?thesis
  proof
    assume "x \<in> set (contribution (leg_fact_vector R v proj k t rows))"
    then obtain w fs where fs: "vector_search_facts R w proj k t rows = Inr fs" "x \<in> fact_result CDatetime ` set fs"
      by (auto simp: leg_fact_vector_def exc_bind_Inr_iff split: option.splits dest!: contribution_run_leg)
    then show ?thesis using sql_limit_sub[OF fs(1)[unfolded vector_search_facts_def]] scan row by auto
  next
    assume "x \<in> set (contribution (leg_fact_bm25 R q proj k t rows))"
    then obtain fs where fs: "bm25_search_facts R q proj k t rows = Inr fs" "x \<in> fact_result (CText \<circ> iso (rt_text R)) ` set fs"
      by (auto simp: leg_fact_bm25_def exc_bind_Inr_iff dest!: contribution_run_leg)
    then show ?thesis using sql_limit_sub[OF fs(1)[unfolded bm25_search_facts_def]] scan row by auto
  qed
qed

lemma combine_legs_facts:
  assumes "combine_legs R noted emb_dim q limit srt ev fv eb fb ents = Inr r"
    and rr: "\<And>re rf. rt_reranker R = Some (re, rf) \<Longrightarrow> reranker rf"
  shows "it_row ` set (sr_facts r) \<subseteq> it_row ` (set fv \<union> set fb)"
proof -
  obtain eps fcts entities where
    m: "merge_and_sort (from_iso (rt_text R)) ev fv eb fb ents limit (if rt_reranker R \<noteq> None then rt_top_k R else limit) srt
      = (eps, fcts, entities)" by (rule prod_cases3)
  obtain eps' fcts' failed' where mr: "maybe_rerank (rt_reranker R) (rt_top_n R) q eps fcts srt noted = (eps', fcts', failed')"
    by (rule prod_cases3)
  have v: "sr_facts r = fcts'"
    using assms(1) unfolding combine_legs_def Let_def m prod.case mr by (auto split: if_split_asm)
  have "set fcts = set (rrf_merge [fv, fb] (if rt_reranker R \<noteq> None then rt_top_k R else limit))"
    using m by (auto simp: merge_and_sort_def Let_def split: if_split_asm)
  then have "it_row ` set fcts \<subseteq> it_row ` (set fv \<union> set fb)" using rrf_merge_rows by fastforce
  moreover from mr have "it_row ` set fcts' \<subseteq> it_row ` set fcts"
  proof (cases rule: maybe_rerank_cases)
    case (2 re rf)
    then show ?thesis using reranker.rows_kept[OF rr[OF 2(1)]] by blast
  qed simp
  ultimately show ?thesis unfolding v by blast
qed

section \<open>Properties\<close>



text \<open>
  C27: a search never returns a fact that is not valid. Whatever legs fail, whatever the order and
  with any reranker that keeps its contract, every fact in the result of a search is a row of the
  fact table that belongs to the project and is valid at the time asked for (now, if none is
  given): superseded and retracted facts do not come back through retrieval.
\<close>

theorem hybrid_search_facts_effective:
  assumes "postgres (rt_pg R)" and "\<And>re rf. rt_reranker R = Some (re, rf) \<Longrightarrow> reranker rf" and "0 \<le> limit"
    and "hybrid_search R completed dim0 q proj limit t srt docs rows = Inr r" and "x \<in> set (sr_facts r)"
  shows "it_row x \<in> set rows \<and> f_project_id (it_row x) = proj \<and> effective_at (as_of (rt_pg R) t) (it_row x)"
proof -
  have "it_row x \<in> it_row ` set (sr_facts r)" using assms(5) by blast
  from subsetD[OF combine_legs_facts[OF assms(4)[unfolded hybrid_search_eq[OF assms(3)] Let_def] assms(2)] this]
  obtain y where "it_row x = it_row y"
      "y \<in> set (contribution (leg_fact_vector R (opt_embedding R q) proj (if rt_reranker R \<noteq> None then max limit (rt_top_k R) else limit) t rows))
       \<union> set (contribution (leg_fact_bm25 R q proj (if rt_reranker R \<noteq> None then max limit (rt_top_k R) else limit) t rows))"
    by (rule imageE)
  then show ?thesis using fact_legs_rows[OF assms(1)] by auto
qed

text \<open>A retriever whose embedder and graph are down.\<close>

definition sample_retriever :: "unit retriever" where
  "sample_retriever =
     \<lparr>rt_pg = sample_pg,
      rt_lib = \<lparr>cosine = (\<lambda>_ _. 0), ts_match = (\<lambda>_ _. True), ts_rank = (\<lambda>_ _. 1), scan_docs = (\<lambda>ds. ds)\<rparr>,
      rt_text = sample_texts, rt_str_time = (\<lambda>_. []), rt_embed = (\<lambda>_. Inl ExternalServiceError), rt_org = 1,
      rt_backends = (\<lambda>_ _ _. []), rt_fault = (\<lambda>n. if n = graph_bfs then Some DataError else None),
      rt_reranker = None, rt_top_k = 50, rt_top_n = 10\<rparr>"

lemma leg_names: "episode_bm25 \<noteq> graph_bfs" "episode_bm25 \<noteq> episode_vector" "episode_bm25 \<noteq> fact_vector" "fact_bm25 \<noteq> graph_bfs"
  by (simp_all add: episode_vector_def fact_vector_def episode_bm25_def fact_bm25_def graph_bfs_def)

lemma sample_up: "episode_bm25 \<in> set LEGS" "\<not> leg_down sample_retriever q episode_bm25"
  using leg_names by (simp_all add: leg_down_def sample_retriever_def LEGS_def)

lemma sample_noted: "list_all (\<lambda>n. n \<in> set (noted_legs sample_retriever LEGS q)) LEGS = False"
  using sample_up(1) sample_up(2)[of q] noted_set[OF refl, of sample_retriever q] by (auto simp: list_all_iff)

lemma sample_search:
  "\<exists>r. hybrid_search sample_retriever LEGS None q 2 5 None ''relevance'' [] rows = Inr r
     \<and> sr_facts r = rrf_merge [[], contribution (leg_fact_bm25 sample_retriever q 2 5 None rows)] 5"
proof -
  have "rt_reranker sample_retriever = None" "opt_embedding sample_retriever q = None"
    by (simp_all add: sample_retriever_def opt_embedding_def embed_query_def)
  then show ?thesis
    unfolding hybrid_search_eq[of 5, simplified] combine_legs_def Let_def sample_noted
    by (simp add: merge_and_sort_def Let_def maybe_rerank_def leg_fact_vector_def)
qed


lemma sample_hit:
  "sr_facts r = rrf_merge [[], contribution (leg_fact_bm25 sample_retriever q 2 5 None [session_row 1 2])] 5
   \<Longrightarrow> \<exists>x. x \<in> set (sr_facts r)"
  using leg_names(4) uuid_str_nonempty
  by (simp add: leg_fact_bm25_def run_leg_def sample_retriever_def bm25_search_facts_def sql_limit_def as_of_def
      session_row_def sample_fact_def mk_fact_def sample_pg_def effective_at_def sample_entry_def build_entry_def sample_in_def Let_def
      fact_result_def mk_result_def rrf_merge_def py_take_def collect_ranks_def note_rank_def)

theorem hybrid_search_facts_effective_witness:
  "\<exists>r x. hybrid_search sample_retriever LEGS None ''q'' 2 5 None ''relevance'' [] [session_row 1 2] = Inr r
     \<and> x \<in> set (sr_facts r) \<and> it_row x = session_row 1 2 \<and> effective_at 100 (it_row x)"
proof -
  obtain r where r: "hybrid_search sample_retriever LEGS None ''q'' 2 5 None ''relevance'' [] [session_row 1 2] = Inr r"
      "sr_facts r = rrf_merge [[], contribution (leg_fact_bm25 sample_retriever ''q'' 2 5 None [session_row 1 2])] 5"
    using sample_search by blast
  obtain x where x: "x \<in> set (sr_facts r)" using sample_hit[OF r(2)] by blast
  have R: "postgres (rt_pg sample_retriever)" "rt_reranker sample_retriever = None"
    by (simp_all add: sample_retriever_def sample.postgres_axioms)
  have now: "as_of (rt_pg sample_retriever) None = 100" by (simp add: sample_retriever_def as_of_def sample_pg_def)
  have "it_row x \<in> set [session_row 1 2] \<and> f_project_id (it_row x) = 2 \<and> effective_at (as_of (rt_pg sample_retriever) None) (it_row x)"
    by (rule hybrid_search_facts_effective[OF R(1) _ _ r(1) x]) (simp_all add: R(2))
  then show ?thesis using r(1) x now by auto
qed

end
