(* ===== verification/Blob_Ingest.thy ===== *)
theory Blob_Ingest
  imports Conflict_Matching
begin

text \<open>
  Attachments of an ingestion: the upload boundary of \<^verbatim>\<open>services/blob_storage_service.py\<close>, key
  construction of \<^verbatim>\<open>core/blob_storage.py\<close>, the batch insert of
  \<^verbatim>\<open>repositories/episode_blob_repository.py\<close> and \<^verbatim>\<open>services/memory/blob_ingest.py\<close>.

  The object store (S3) is not part of the sources: its commands are a record over an unknown
  state and the locale \<open>object_store\<close> states what is relied on. SHA-256 and fresh UUIDs are
  parameters. An \<^verbatim>\<open>UploadFile\<close> is a stream that can be read once: the state keeps what is left of
  each one. Python iterates over a set of blob ids in an unspecified order; the model takes the
  order of first mention.
\<close>

section \<open>Names and types of files\<close>

definition normalize_upload_mime :: "string \<Rightarrow> string" where
  "normalize_upload_mime mime_type = py_lower (py_strip (hd (py_split (CHR '';'') mime_type)))"

definition allowed_upload_mime_types :: "string list" where
  "allowed_upload_mime_types =
     [''application/pdf'', ''application/msword'',
      ''application/vnd.openxmlformats-officedocument.wordprocessingml.document'', ''application/octet-stream'']"

definition is_allowed_upload_mime :: "string \<Rightarrow> bool" where
  "is_allowed_upload_mime mime_type \<longleftrightarrow>
     mime_type \<in> set allowed_upload_mime_types \<or> take 5 mime_type = ''text/'' \<or> take 6 mime_type = ''image/''"

definition MAX_SAFE_FILE_NAME_CHARS :: nat where
  "MAX_SAFE_FILE_NAME_CHARS = 128"

definition safe_char :: "char \<Rightarrow> bool" where
  "safe_char c \<longleftrightarrow>
     (97 \<le> code c \<and> code c \<le> 122) \<or> (65 \<le> code c \<and> code c \<le> 90) \<or> (48 \<le> code c \<and> code c \<le> 57)
     \<or> c \<in> {CHR ''.'', CHR ''_'', CHR ''-''}"

text \<open>One underscore replaces one code point: its lead byte becomes the underscore, the other bytes vanish.\<close>

definition sub_unsafe :: "string \<Rightarrow> string" where
  "sub_unsafe s = map (\<lambda>c. if safe_char c then c else CHR ''_'') (filter (\<lambda>c. \<not> utf8_cont c) s)"

definition strip_chars :: "char set \<Rightarrow> string \<Rightarrow> string" where
  "strip_chars A s = rev (dropWhile (\<lambda>c. c \<in> A) (rev (dropWhile (\<lambda>c. c \<in> A) s)))"

definition basename :: "string \<Rightarrow> string" where
  "basename s = rev (takeWhile (\<lambda>c. c \<noteq> CHR ''/'' \<and> c \<noteq> CHR 0x5C) (rev s))"

definition sanitize_file_name :: "string \<Rightarrow> string" where
  "sanitize_file_name file_name =
     (let cleaned = py_remove ''%00'' (py_remove [CHR 0x00] file_name);
          base = py_strip (basename cleaned);
          safe = take MAX_SAFE_FILE_NAME_CHARS (sub_unsafe base);
          name = strip_chars {CHR ''.'', CHR ''_''} safe
      in if name = [] then ''unnamed'' else name)"

definition build_key :: "uuid \<Rightarrow> uuid \<Rightarrow> uuid \<Rightarrow> nat \<Rightarrow> string \<Rightarrow> string" where
  "build_key org proj episode_id blob_index file_name =
     ''blobs/'' @ uuid_str org @ ''/'' @ uuid_str proj @ ''/'' @ uuid_str episode_id @ ''/''
     @ py_digits blob_index @ ''_'' @ sanitize_file_name file_name"

section \<open>Bounded reads\<close>

definition UPLOAD_CHUNK_BYTES :: nat where
  "UPLOAD_CHUNK_BYTES = 1024 * 1024"

text \<open>
  The loop \<^verbatim>\<open>while chunk := await upload_file.read(n)\<close> on a stream: the result and what is left.
\<close>

function read_chunks :: "nat \<Rightarrow> nat \<Rightarrow> string \<Rightarrow> string \<Rightarrow> string res \<times> string" where
  "read_chunks n max_bytes buffer stream =
     (if n = 0 \<or> stream = [] then (Inr buffer, stream)
      else (let buffer' = buffer @ take n stream; rest = drop n stream in
            if length buffer' > max_bytes then (Inl PayloadTooLargeError, rest)
            else read_chunks n max_bytes buffer' rest))"
  by pat_completeness auto
termination
  by (relation "measure (\<lambda>(n, m, b, s). length s)") auto

declare read_chunks.simps [simp del]

definition read_upload_bounded :: "string \<Rightarrow> nat \<Rightarrow> string res \<times> string" where
  "read_upload_bounded stream max_bytes = read_chunks UPLOAD_CHUNK_BYTES max_bytes [] stream"

definition read_bytes_bounded :: "string \<Rightarrow> nat \<Rightarrow> string res" where
  "read_bytes_bounded data max_bytes = (if length data > max_bytes then Inl PayloadTooLargeError else Inr data)"

section \<open>The object store\<close>

record 'o s3 =
  s3_put :: "string \<Rightarrow> string \<Rightarrow> string \<Rightarrow> ('o, unit) sx" \<comment> \<open>key, bytes, content type\<close>
  s3_delete :: "string \<Rightarrow> ('o, unit) sx"

locale object_store =
  fixes S :: "'o s3" and objects :: "'o \<Rightarrow> string \<rightharpoonup> string"
  assumes put_ok: "s3_put S k d m s = (Inr u, t) \<Longrightarrow> objects t = (objects s)(k \<mapsto> d)"
    and put_fail: "s3_put S k d m s = (Inl e, t) \<Longrightarrow> objects t = objects s \<or> objects t = (objects s)(k \<mapsto> d)"
    and delete_ok: "s3_delete S k s = (Inr u, t) \<Longrightarrow> objects t = (objects s)(k := None)"
    and delete_fail: "s3_delete S k s = (Inl e, t) \<Longrightarrow> objects t = objects s"

text \<open>A bucket in memory, with keys it refuses.\<close>

definition mem_s3 :: "(string \<Rightarrow> bool) \<Rightarrow> (string \<rightharpoonup> string) s3" where
  "mem_s3 refuse =
     \<lparr>s3_put = (\<lambda>k d m s. if refuse k then (Inl ExternalServiceError, s) else (Inr (), s(k \<mapsto> d))),
      s3_delete = (\<lambda>k s. if refuse k then (Inl ExternalServiceError, s) else (Inr (), s(k := None)))\<rparr>"

interpretation bucket: object_store "mem_s3 refuse" "\<lambda>s. s" for refuse
  by unfold_locales (auto simp: mem_s3_def split: if_splits)

section \<open>Storage settings\<close>

text \<open>The storage fields of an organization's configuration; an unset field is \<^const>\<open>None\<close>.\<close>

record org_storage =
  os_blob_storage_backend :: "string option"
  os_s3_endpoint_url :: "string option"
  os_s3_region :: "string option"
  os_s3_access_key_id :: "string option"
  os_s3_secret_access_key :: "string option"
  os_s3_bucket_name :: "string option"
  os_max_blob_size_mb :: "nat option"

record storage_config =
  cfg_backend :: string
  cfg_endpoint_url :: string
  cfg_region :: string
  cfg_access_key_id :: string
  cfg_secret_access_key :: string
  cfg_bucket_name :: string
  cfg_max_blob_size_mb :: nat

definition max_blob_bytes :: "storage_config \<Rightarrow> nat" where
  "max_blob_bytes c = cfg_max_blob_size_mb c * 1024 * 1024"

definition or_default :: "'a option \<Rightarrow> 'a \<Rightarrow> 'a" where
  "or_default x d = (case x of Some v \<Rightarrow> v | None \<Rightarrow> d)"

text \<open>\<^verbatim>\<open>to_blob_storage_config\<close> keeps the set fields, and these override the platform's defaults.\<close>

definition to_blob_storage_config :: "org_storage \<Rightarrow> storage_config \<Rightarrow> storage_config" where
  "to_blob_storage_config c d =
     \<lparr>cfg_backend = or_default (os_blob_storage_backend c) (cfg_backend d),
      cfg_endpoint_url = or_default (os_s3_endpoint_url c) (cfg_endpoint_url d),
      cfg_region = or_default (os_s3_region c) (cfg_region d),
      cfg_access_key_id = or_default (os_s3_access_key_id c) (cfg_access_key_id d),
      cfg_secret_access_key = or_default (os_s3_secret_access_key c) (cfg_secret_access_key d),
      cfg_bucket_name = or_default (os_s3_bucket_name c) (cfg_bucket_name d),
      cfg_max_blob_size_mb = or_default (os_max_blob_size_mb c) (cfg_max_blob_size_mb d)\<rparr>"

definition default_storage :: storage_config where
  "default_storage =
     \<lparr>cfg_backend = ''s3'', cfg_endpoint_url = ''http://minio:9000'', cfg_region = ''auto'', cfg_access_key_id = [],
      cfg_secret_access_key = [], cfg_bucket_name = ''openzync-blobs'', cfg_max_blob_size_mb = 50\<rparr>"

definition resolve_storage_config :: "(uuid \<Rightarrow> org_storage res) \<Rightarrow> uuid \<Rightarrow> storage_config res" where
  "resolve_storage_config get_org_config org =
     (case get_org_config org of
        Inl _ \<Rightarrow> Inl ExternalServiceError
      | Inr c \<Rightarrow> Inr (to_blob_storage_config c default_storage))"

section \<open>Uploads of one episode\<close>

record blob_meta =
  bm_blob_id :: nat
  bm_mime_type :: string
  bm_file_name :: string

record blob_row =
  br_id :: uuid
  br_organization_id :: uuid
  br_project_id :: uuid
  br_session_id :: uuid
  br_episode_id :: uuid
  br_created_by :: uuid
  br_storage_key :: string
  br_file_name :: string
  br_mime_type :: string
  br_file_size :: nat
  br_content_hash :: string
  br_blob_index :: nat

record 'o blob_state =
  bs_store :: 'o
  bs_streams :: "string list" \<comment> \<open>what is left of each uploaded file\<close>
  bs_rows :: "blob_row list"
  bs_draws :: nat

record 'o blob_env =
  be_s3 :: "'o s3"
  be_sha256 :: "string \<Rightarrow> string"
  be_uuid4 :: "nat \<Rightarrow> uuid"
  be_max_bytes :: nat
  be_max_blobs_per_request :: nat

text \<open>What the process provides: the organizations' settings, a client for a configuration, the limit.\<close>

record 'o blob_platform =
  bp_get_org_config :: "uuid \<Rightarrow> org_storage res"
  bp_client :: "storage_config \<Rightarrow> 'o s3"
  bp_sha256 :: "string \<Rightarrow> string"
  bp_uuid4 :: "nat \<Rightarrow> uuid"
  bp_max_blobs_per_request :: nat

definition blob_env_for :: "'o blob_platform \<Rightarrow> storage_config \<Rightarrow> 'o blob_env" where
  "blob_env_for B c =
     \<lparr>be_s3 = bp_client B c, be_sha256 = bp_sha256 B, be_uuid4 = bp_uuid4 B, be_max_bytes = max_blob_bytes c,
      be_max_blobs_per_request = bp_max_blobs_per_request B\<rparr>"

text \<open>The identifiers an upload is stored under.\<close>

record blob_scope =
  sc_org :: uuid
  sc_project :: uuid
  sc_session :: uuid
  sc_user :: uuid

text \<open>An entry of the files passed on: bytes read before, or a stream with its name and content type.\<close>

datatype upload = Bytes string | Upload "string option" "string option" nat

definition upload_name :: "blob_meta \<Rightarrow> upload \<Rightarrow> string" where
  "upload_name meta f =
     (if bm_file_name meta \<noteq> [] then bm_file_name meta
      else (case f of
              Bytes _ \<Rightarrow> ''unnamed''
            | Upload fn _ _ \<Rightarrow> (case fn of Some (c # cs) \<Rightarrow> c # cs | _ \<Rightarrow> ''unnamed'')))"

definition upload_mime :: "blob_meta \<Rightarrow> upload \<Rightarrow> string" where
  "upload_mime meta f =
     normalize_upload_mime
       (if bm_mime_type meta \<noteq> [] then bm_mime_type meta
        else (case f of
                Bytes _ \<Rightarrow> ''application/octet-stream''
              | Upload _ ct _ \<Rightarrow> (case ct of Some (c # cs) \<Rightarrow> c # cs | _ \<Rightarrow> ''application/octet-stream'')))"

text \<open>
  Sending one file: bytes are checked and put; a stream is sent part by part and aborted when it
  grows over the limit, so nothing is stored then.
\<close>

definition send_upload :: "'o blob_env \<Rightarrow> string \<Rightarrow> string \<Rightarrow> upload \<Rightarrow> ('o blob_state, string) sx" where
  "send_upload E key mime_type f st =
     (case f of
        Bytes d \<Rightarrow>
          (case read_bytes_bounded d (be_max_bytes E) of
             Inl e \<Rightarrow> (Inl e, st)
           | Inr data \<Rightarrow>
               (case s3_put (be_s3 E) key data mime_type (bs_store st) of
                  (Inl e, o') \<Rightarrow> (Inl e, st\<lparr>bs_store := o'\<rparr>)
                | (Inr _, o') \<Rightarrow> (Inr data, st\<lparr>bs_store := o'\<rparr>)))
      | Upload _ _ i \<Rightarrow>
          (case read_upload_bounded (bs_streams st ! i) (be_max_bytes E) of
             (Inl e, rest) \<Rightarrow> (Inl e, st\<lparr>bs_streams := (bs_streams st)[i := rest]\<rparr>)
           | (Inr data, rest) \<Rightarrow>
               (case s3_put (be_s3 E) key data mime_type (bs_store st) of
                  (Inl e, o') \<Rightarrow> (Inl e, st\<lparr>bs_store := o', bs_streams := (bs_streams st)[i := rest]\<rparr>)
                | (Inr _, o') \<Rightarrow> (Inr data, st\<lparr>bs_store := o', bs_streams := (bs_streams st)[i := rest]\<rparr>))))"

definition upload_one ::
  "'o blob_env \<Rightarrow> blob_scope \<Rightarrow> uuid \<Rightarrow> upload list \<Rightarrow> blob_meta \<Rightarrow> ('o blob_state, blob_row) sx" where
  "upload_one E sc episode_id files meta st =
     (if bm_blob_id meta \<ge> length files then (Inl ValidationError, st)
      else (let f = files ! bm_blob_id meta;
                file_name = upload_name meta f;
                mime_type = upload_mime meta f in
            if \<not> is_allowed_upload_mime mime_type then (Inl ValidationError, st)
            else (let key = build_key (sc_org sc) (sc_project sc) episode_id (bm_blob_id meta) file_name in
                  case send_upload E key mime_type f st of
                    (Inl e, st') \<Rightarrow> (Inl e, st')
                  | (Inr data, st') \<Rightarrow>
                      (Inr \<lparr>br_id = be_uuid4 E (bs_draws st'), br_organization_id = sc_org sc, br_project_id = sc_project sc,
                            br_session_id = sc_session sc, br_episode_id = episode_id, br_created_by = sc_user sc,
                            br_storage_key = key, br_file_name = file_name, br_mime_type = mime_type,
                            br_file_size = length data, br_content_hash = be_sha256 E data,
                            br_blob_index = bm_blob_id meta\<rparr>,
                       st'\<lparr>bs_draws := Suc (bs_draws st')\<rparr>))))"

fun upload_each ::
  "'o blob_env \<Rightarrow> blob_scope \<Rightarrow> uuid \<Rightarrow> upload list \<Rightarrow> blob_meta list \<Rightarrow> ('o blob_state, blob_row list) sx" where
  "upload_each E sc episode_id files [] st = (Inr [], st)"
| "upload_each E sc episode_id files (m # ms) st =
     (case upload_one E sc episode_id files m st of
        (Inl e, st') \<Rightarrow> (Inl e, st')
      | (Inr r, st') \<Rightarrow>
          (case upload_each E sc episode_id files ms st' of
             (Inl e, st'') \<Rightarrow> (Inl e, st'')
           | (Inr rs, st'') \<Rightarrow> (Inr (r # rs), st'')))"

text \<open>
  \<^verbatim>\<open>EpisodeBlobRepository.batch_create\<close>: one INSERT, with the primary key and the unique constraint on
  the episode and the index.
\<close>

definition batch_create_blobs :: "blob_row list \<Rightarrow> blob_row list \<Rightarrow> (blob_row list \<times> blob_row list) res" where
  "batch_create_blobs new rows =
     (if distinct (map br_id (rows @ new)) \<and> distinct (map (\<lambda>r. (br_episode_id r, br_blob_index r)) (rows @ new))
      then Inr (new, rows @ new) else Inl IntegrityError)"

definition upload_blobs ::
  "'o blob_env \<Rightarrow> blob_scope \<Rightarrow> uuid \<Rightarrow> upload list \<Rightarrow> blob_meta list \<Rightarrow> ('o blob_state, blob_row list) sx" where
  "upload_blobs E sc episode_id files metas st =
     (if length metas > be_max_blobs_per_request E then (Inl ValidationError, st)
      else (case upload_each E sc episode_id files metas st of
              (Inl e, st') \<Rightarrow> (Inl e, st')
            | (Inr new, st') \<Rightarrow>
                if new = [] then (Inr [], st')
                else (case batch_create_blobs new (bs_rows st') of
                        Inl e \<Rightarrow> (Inl e, st')
                      | Inr (created, rows) \<Rightarrow> (Inr created, st'\<lparr>bs_rows := rows\<rparr>))))"

section \<open>Uploads of an ingestion\<close>

text \<open>
  \<^verbatim>\<open>_process_blobs\<close>. Every file is read once: a file that several references share stays cached
  until its last episode has been uploaded.
\<close>

definition ep_blob_metas :: "uuid list \<Rightarrow> blob_meta list list \<Rightarrow> (uuid \<times> blob_meta list) list res" where
  "ep_blob_metas episode_ids blobs_of =
     exc_map (\<lambda>(i, metas). if i < length episode_ids then Inr (episode_ids ! i, metas) else Inl IndexError)
       (filter (\<lambda>(i, metas). metas \<noteq> []) (enumerate 0 blobs_of))"

definition use_counts :: "(uuid \<times> blob_meta list) list \<Rightarrow> nat \<Rightarrow> nat" where
  "use_counts eps bid = length (filter (\<lambda>m. bm_blob_id m = bid) (concat (map snd eps)))"

record 'o blob_loop =
  bl_state :: "'o blob_state"
  bl_shared :: "nat \<rightharpoonup> string" \<comment> \<open>\<^verbatim>\<open>shared_bytes\<close>\<close>
  bl_remaining :: "nat \<Rightarrow> int"

fun fill_slots ::
  "'o blob_env \<Rightarrow> (nat \<Rightarrow> bool) \<Rightarrow> nat list \<Rightarrow> upload list \<Rightarrow> ('o blob_loop, upload list) sx" where
  "fill_slots E is_shared [] slots l = (Inr slots, l)"
| "fill_slots E is_shared (bid # bids) slots l =
     (if bid \<ge> length slots then (Inl ValidationError, l)
      else (case bl_shared l bid of
              Some d \<Rightarrow> fill_slots E is_shared bids (slots[bid := Bytes d]) l
            | None \<Rightarrow>
                (case read_upload_bounded (bs_streams (bl_state l) ! bid) (be_max_bytes E) of (r, rest) \<Rightarrow>
                   let l1 = l\<lparr>bl_state := (bl_state l)\<lparr>bs_streams := (bs_streams (bl_state l))[bid := rest]\<rparr>\<rparr> in
                   case r of
                     Inl e \<Rightarrow> (Inl e, l1)
                   | Inr d \<Rightarrow>
                       fill_slots E is_shared bids (slots[bid := Bytes d])
                         (if is_shared bid then l1\<lparr>bl_shared := (bl_shared l1)(bid \<mapsto> d)\<rparr> else l1))))"

definition release_one :: "(nat \<Rightarrow> bool) \<Rightarrow> nat \<Rightarrow> 'o blob_loop \<Rightarrow> 'o blob_loop res" where
  "release_one is_shared bid l =
     (if \<not> is_shared bid then Inr l
      else (let left = bl_remaining l bid - 1; l1 = l\<lparr>bl_remaining := (bl_remaining l)(bid := left)\<rparr> in
            if left \<le> 0
            then (if bl_shared l1 bid = None then Inl KeyError else Inr (l1\<lparr>bl_shared := (bl_shared l1)(bid := None)\<rparr>))
            else Inr l1))"

definition blob_episode ::
  "'o blob_env \<Rightarrow> blob_scope \<Rightarrow> (nat \<Rightarrow> bool) \<Rightarrow> uuid \<times> blob_meta list \<Rightarrow> ('o blob_loop, blob_row list) sx" where
  "blob_episode E sc is_shared ep l =
     (case ep of (episode_id, metas) \<Rightarrow>
      let needed_ids = remdups (map bm_blob_id metas);
          slots = replicate (length (bs_streams (bl_state l))) (Bytes []) in
      case fill_slots E is_shared needed_ids slots l of
        (Inl e, l1) \<Rightarrow> (Inl e, l1)
      | (Inr slots', l1) \<Rightarrow>
          (case upload_blobs E sc episode_id slots' metas (bl_state l1) of
             (Inl e, st) \<Rightarrow> (Inl e, l1\<lparr>bl_state := st\<rparr>)
           | (Inr records, st) \<Rightarrow>
               (case exc_fold (release_one is_shared) needed_ids (l1\<lparr>bl_state := st\<rparr>) of
                  Inl e \<Rightarrow> (Inl e, l1\<lparr>bl_state := st\<rparr>)
                | Inr l2 \<Rightarrow> (Inr records, l2))))"

fun blob_episodes ::
  "'o blob_env \<Rightarrow> blob_scope \<Rightarrow> (nat \<Rightarrow> bool) \<Rightarrow> (uuid \<times> blob_meta list) list \<Rightarrow> ('o blob_loop, blob_row list) sx" where
  "blob_episodes E sc is_shared [] l = (Inr [], l)"
| "blob_episodes E sc is_shared (ep # eps) l =
     (case blob_episode E sc is_shared ep l of
        (Inl e, l') \<Rightarrow> (Inl e, l')
      | (Inr rs, l') \<Rightarrow>
          (case blob_episodes E sc is_shared eps l' of
             (Inl e, l'') \<Rightarrow> (Inl e, l'')
           | (Inr rs', l'') \<Rightarrow> (Inr (rs @ rs'), l'')))"

text \<open>The storage settings of the organization give the client; without them nothing is uploaded.\<close>

definition process_blobs ::
  "'o blob_platform \<Rightarrow> blob_scope \<Rightarrow> uuid list \<Rightarrow> blob_meta list list
   \<Rightarrow> ('o blob_state, nat \<times> blob_row list) sx" where
  "process_blobs B sc episode_ids blobs_of st =
     (case ep_blob_metas episode_ids blobs_of of
        Inl e \<Rightarrow> (Inl e, st)
      | Inr eps \<Rightarrow>
          if eps = [] then (Inr (0, []), st)
          else (case resolve_storage_config (bp_get_org_config B) (sc_org sc) of
                  Inl e \<Rightarrow> (Inl e, st)
                | Inr config \<Rightarrow>
                    (case blob_episodes (blob_env_for B config) sc (\<lambda>bid. use_counts eps bid > 1) eps
                            \<lparr>bl_state = st, bl_shared = Map.empty, bl_remaining = (\<lambda>bid. int (use_counts eps bid))\<rparr> of
                       (Inl e, l) \<Rightarrow> (Inl e, bl_state l)
                     | (Inr records, l) \<Rightarrow> (Inr (length records, records), bl_state l))))"

text \<open>\<^verbatim>\<open>_compensate_blob_uploads\<close>: every failure is logged only.\<close>

definition compensate_blob_uploads ::
  "'o blob_platform \<Rightarrow> uuid \<Rightarrow> string list \<Rightarrow> 'o \<Rightarrow> 'o" where
  "compensate_blob_uploads B org storage_keys s =
     (if storage_keys = [] then s
      else (case resolve_storage_config (bp_get_org_config B) org of
              Inl _ \<Rightarrow> s
            | Inr config \<Rightarrow> fold (\<lambda>key t. snd (s3_delete (bp_client B config) key t)) storage_keys s))"

section \<open>File names and keys\<close>

lemma dropWhile_set: "set (dropWhile P xs) \<subseteq> set xs"
  by (meson set_dropWhileD subsetI)

lemma set_strip_chars: "set (strip_chars A s) \<subseteq> set s"
  unfolding strip_chars_def using dropWhile_set by (metis set_rev subset_trans)

lemma length_strip_chars: "length (strip_chars A s) \<le> length s"
  unfolding strip_chars_def using length_dropWhile_le by (metis length_rev le_trans)

lemma strip_chars_ends:
  assumes "strip_chars A s \<noteq> []"
  shows "hd (strip_chars A s) \<notin> A \<and> List.last (strip_chars A s) \<notin> A"
proof -
  let ?t = "dropWhile (\<lambda>c. c \<in> A) s" and ?u = "dropWhile (\<lambda>c. c \<in> A) (rev (dropWhile (\<lambda>c. c \<in> A) s))"
  have u: "?u \<noteq> []" using assms by (simp add: strip_chars_def)
  obtain p where p: "rev ?t = p @ ?u" by (metis takeWhile_dropWhile_id)
  then have "?t = rev ?u @ rev p" by (metis rev_append rev_rev_ident)
  then have "hd (rev ?u) = hd ?t" using u by (metis hd_append2 rev_is_Nil_conv)
  moreover have "?t \<noteq> []" using u by (metis dropWhile.simps(1) rev.simps(1))
  ultimately have "hd (rev ?u) \<notin> A" using hd_dropWhile[of "\<lambda>c. c \<in> A" s] by simp
  moreover have "List.last (rev ?u) \<notin> A" using hd_dropWhile[of "\<lambda>c. c \<in> A" "rev ?t"] u by (simp add: last_rev)
  ultimately show ?thesis by (simp add: strip_chars_def)
qed

lemma strip_chars_id:
  assumes "s \<noteq> [] \<Longrightarrow> hd s \<notin> A \<and> List.last s \<notin> A"
  shows "strip_chars A s = s"
proof (cases s)
  case (Cons c cs)
  have "dropWhile (\<lambda>c. c \<in> A) s = s" using assms Cons by simp
  moreover have "dropWhile (\<lambda>c. c \<in> A) (rev s) = rev s"
    using assms Cons by (cases "rev s") (auto simp: hd_rev[symmetric])
  ultimately show ?thesis by (simp add: strip_chars_def)
qed (simp add: strip_chars_def)

lemma safe_char_facts:
  assumes "safe_char c"
  shows "\<not> utf8_cont c" "\<not> py_isspace c" "c \<noteq> CHR ''/''" "c \<noteq> CHR 0x5C" "c \<noteq> CHR 0x00" "c \<noteq> CHR ''%''"
  using assms by (auto simp: safe_char_def utf8_cont_def py_isspace_def)

lemma sub_unsafe_safe: "c \<in> set (sub_unsafe s) \<Longrightarrow> safe_char c"
  by (auto simp: sub_unsafe_def safe_char_def)

lemma sub_unsafe_id: "(\<And>c. c \<in> set s \<Longrightarrow> safe_char c) \<Longrightarrow> sub_unsafe s = s"
  unfolding sub_unsafe_def using safe_char_facts(1)
  by (induction s) auto

lemma basename_id: "CHR ''/'' \<notin> set s \<Longrightarrow> CHR 0x5C \<notin> set s \<Longrightarrow> basename s = s"
  unfolding basename_def by (subst takeWhile_eq_all_conv[THEN iffD2]) auto

lemma sanitize_file_name_safe:
  "sanitize_file_name f \<noteq> [] \<and> length (sanitize_file_name f) \<le> 128
   \<and> (\<forall>c \<in> set (sanitize_file_name f). safe_char c)
   \<and> hd (sanitize_file_name f) \<notin> {CHR ''.'', CHR ''_''} \<and> List.last (sanitize_file_name f) \<notin> {CHR ''.'', CHR ''_''}"
proof -
  let ?base = "py_strip (basename (py_remove ''%00'' (py_remove [CHR 0x00] f)))"
  let ?safe = "take MAX_SAFE_FILE_NAME_CHARS (sub_unsafe ?base)"
  let ?name = "strip_chars {CHR ''.'', CHR ''_''} ?safe"
  have r: "sanitize_file_name f = (if ?name = [] then ''unnamed'' else ?name)"
    by (simp add: sanitize_file_name_def Let_def)
  show ?thesis
  proof (cases "?name = []")
    case True
    then show ?thesis unfolding r by (simp add: safe_char_def)
  next
    case False
    have "length ?name \<le> 128" using length_strip_chars[of "{CHR ''.'', CHR ''_''}" ?safe]
      by (simp add: MAX_SAFE_FILE_NAME_CHARS_def)
    moreover have "safe_char c" if "c \<in> set ?name" for c
      using that set_strip_chars[of "{CHR ''.'', CHR ''_''}" ?safe] sub_unsafe_safe by (meson in_set_takeD subsetD)
    ultimately show ?thesis unfolding r using False strip_chars_ends[OF False] by simp
  qed
qed

lemma sanitize_safe_id:
  assumes ne: "t \<noteq> []" and len: "length t \<le> 128" and safe: "\<And>c. c \<in> set t \<Longrightarrow> safe_char c"
    and ends: "hd t \<notin> {CHR ''.'', CHR ''_''}" "List.last t \<notin> {CHR ''.'', CHR ''_''}"
  shows "sanitize_file_name t = t"
proof -
  have "CHR 0x00 \<notin> set t" "CHR ''%'' \<notin> set t" "CHR ''/'' \<notin> set t" "CHR 0x5C \<notin> set t"
    using safe safe_char_facts by blast+
  then have 1: "py_remove ''%00'' (py_remove [CHR 0x00] t) = t" and 2: "basename t = t"
    by (simp_all add: py_remove_absent basename_id)
  have 3: "py_strip t = t" using safe safe_char_facts(2) by (blast intro: py_strip_id)
  have 4: "sub_unsafe t = t" using safe by (rule sub_unsafe_id)
  have 5: "take MAX_SAFE_FILE_NAME_CHARS t = t" using len by (simp add: MAX_SAFE_FILE_NAME_CHARS_def)
  have 6: "strip_chars {CHR ''.'', CHR ''_''} t = t" by (rule strip_chars_id) (simp only: ends simp_thms)
  show ?thesis unfolding sanitize_file_name_def Let_def 1 2 3 4 5 6 using ne by simp
qed

text \<open>
  C19: stored file names are safe. Whatever name a caller sends, the name used in a storage key is not
  empty, has at most 128 characters, all of them letters, digits, dots, underscores or dashes
  (so no path separator, no NUL byte and no white space), neither starts nor ends with a dot or an
  underscore (so it is neither hidden nor a parent reference), and sanitizing it again changes nothing.
\<close>

theorem stored_file_names_safe:
  "sanitize_file_name f \<noteq> [] \<and> length (sanitize_file_name f) \<le> 128
   \<and> list_all safe_char (sanitize_file_name f)
   \<and> hd (sanitize_file_name f) \<notin> {CHR ''.'', CHR ''_''} \<and> List.last (sanitize_file_name f) \<notin> {CHR ''.'', CHR ''_''}
   \<and> sanitize_file_name (sanitize_file_name f) = sanitize_file_name f"
proof -
  note ok = sanitize_file_name_safe[of f]
  have "sanitize_file_name (sanitize_file_name f) = sanitize_file_name f"
    by (rule sanitize_safe_id) (use ok in blast)+
  then show ?thesis using ok by (simp add: list_all_iff)
qed

lemma length_uuid_str [simp]: "length (uuid_str u) = 36"
  by (simp add: uuid_str_def Let_def)

text \<open>Keys separate organizations, projects, episodes and attachments.\<close>

lemma build_key_inj:
  assumes "build_key org proj ep i f = build_key org' proj' ep' i' f'"
  shows "uuid_str org = uuid_str org' \<and> uuid_str proj = uuid_str proj' \<and> uuid_str ep = uuid_str ep' \<and> i = i'
    \<and> sanitize_file_name f = sanitize_file_name f'"
proof -
  have ids: "uuid_str org = uuid_str org' \<and> uuid_str proj = uuid_str proj' \<and> uuid_str ep = uuid_str ep'"
    and rest: "py_digits i @ CHR ''_'' # sanitize_file_name f = py_digits i' @ CHR ''_'' # sanitize_file_name f'"
    using assms by (simp_all add: build_key_def)
  have "CHR ''_'' \<notin> set (py_digits k)" for k using py_digits_chars[of "CHR ''_''" k] by auto
  then have "py_digits i = py_digits i' \<and> sanitize_file_name f = sanitize_file_name f'"
    using sep_append_eq[OF _ _ rest] by blast
  then show ?thesis using ids py_digits_inj by blast
qed

section \<open>Every attachment is stored with its bytes\<close>

lemma read_chunks_result:
  assumes "0 < n" and "length buffer \<le> max_bytes"
  shows "fst (read_chunks n max_bytes buffer stream)
    = (if length (buffer @ stream) \<le> max_bytes then Inr (buffer @ stream) else Inl PayloadTooLargeError)"
  using assms
proof (induction n max_bytes buffer stream rule: read_chunks.induct)
  case (1 n mx buf s)
  show ?case
  proof (cases "s = []")
    case True
    then show ?thesis using 1(3) by (subst read_chunks.simps) simp
  next
    case False
    let ?b = "buf @ take n s"
    have all: "length (?b @ drop n s) = length (buf @ s)" by simp
    show ?thesis
    proof (cases "length ?b > mx")
      case True
      then have "length (buf @ s) > mx" by simp
      then show ?thesis using True False 1(2) by (subst read_chunks.simps) (simp add: Let_def)
    next
      case le: False
      then have "fst (read_chunks n mx ?b (drop n s))
          = (if length (?b @ drop n s) \<le> mx then Inr (?b @ drop n s) else Inl PayloadTooLargeError)"
        using 1(1)[of ?b "drop n s"] 1(2) False by simp
      then show ?thesis using le False 1(2) by (subst read_chunks.simps) (simp add: Let_def)
    qed
  qed
qed

lemma read_upload_bounded_result:
  "fst (read_upload_bounded stream max_bytes) = read_bytes_bounded stream max_bytes"
  unfolding read_upload_bounded_def read_bytes_bounded_def
  using read_chunks_result[of UPLOAD_CHUNK_BYTES "[]" max_bytes stream] by (auto simp: UPLOAD_CHUNK_BYTES_def)

lemma read_bytes_bounded_Inr [simp]: "read_bytes_bounded d n = Inr x \<longleftrightarrow> x = d \<and> length d \<le> n"
  by (auto simp: read_bytes_bounded_def)

text \<open>The row of an attachment with the bytes \<open>d\<close>.\<close>

definition row_of :: "'o blob_env \<Rightarrow> blob_scope \<Rightarrow> uuid \<Rightarrow> blob_meta \<Rightarrow> string \<Rightarrow> uuid \<Rightarrow> blob_row" where
  "row_of E sc ep m d i =
     \<lparr>br_id = i, br_organization_id = sc_org sc, br_project_id = sc_project sc, br_session_id = sc_session sc,
      br_episode_id = ep, br_created_by = sc_user sc,
      br_storage_key = build_key (sc_org sc) (sc_project sc) ep (bm_blob_id m) (upload_name m (Bytes d)),
      br_file_name = upload_name m (Bytes d), br_mime_type = upload_mime m (Bytes d), br_file_size = length d,
      br_content_hash = be_sha256 E d, br_blob_index = bm_blob_id m\<rparr>"

definition row_matches :: "'o blob_env \<Rightarrow> blob_scope \<Rightarrow> string list \<Rightarrow> uuid \<Rightarrow> blob_meta \<Rightarrow> blob_row \<Rightarrow> bool" where
  "row_matches E sc files ep m r \<longleftrightarrow>
     r = row_of E sc ep m (files ! bm_blob_id m) (br_id r)
     \<and> length (files ! bm_blob_id m) \<le> be_max_bytes E \<and> is_allowed_upload_mime (br_mime_type r)"

lemma row_matches_fields:
  assumes "row_matches E sc files ep m r"
  shows "br_episode_id r = ep" "br_blob_index r = bm_blob_id m" "br_file_size r = length (files ! bm_blob_id m)"
    "br_content_hash r = be_sha256 E (files ! bm_blob_id m)" "is_allowed_upload_mime (br_mime_type r)"
    "br_storage_key r = build_key (sc_org sc) (sc_project sc) ep (bm_blob_id m) (upload_name m (Bytes (files ! bm_blob_id m)))"
proof -
  have r: "r = row_of E sc ep m (files ! bm_blob_id m) (br_id r)" using assms by (simp add: row_matches_def)
  show "br_episode_id r = ep" "br_blob_index r = bm_blob_id m" "br_file_size r = length (files ! bm_blob_id m)"
    "br_content_hash r = be_sha256 E (files ! bm_blob_id m)"
    "br_storage_key r = build_key (sc_org sc) (sc_project sc) ep (bm_blob_id m) (upload_name m (Bytes (files ! bm_blob_id m)))"
    by (subst r, simp add: row_of_def)+
  show "is_allowed_upload_mime (br_mime_type r)" using assms by (simp add: row_matches_def)
qed

definition stored :: "string list \<Rightarrow> (string \<rightharpoonup> string) \<Rightarrow> blob_row \<Rightarrow> bool" where
  "stored files objs r \<longleftrightarrow>
     (\<exists>org proj ep f. br_storage_key r = build_key org proj ep (br_blob_index r) f)
     \<and> objs (br_storage_key r) = Some (files ! br_blob_index r)"

lemma stored_put:
  assumes "stored files objs r"
  shows "stored files (objs(build_key org proj ep i f \<mapsto> files ! i)) r"
  using assms build_key_inj unfolding stored_def by fastforce

lemma stored_row_of: "stored files (objs(br_storage_key (row_of E sc ep m (files ! bm_blob_id m) i) \<mapsto> files ! bm_blob_id m))
    (row_of E sc ep m (files ! bm_blob_id m) i)"
  by (auto simp: stored_def row_of_def)

definition slots_match :: "string list \<Rightarrow> upload list \<Rightarrow> nat set \<Rightarrow> bool" where
  "slots_match files slots bids \<longleftrightarrow> length slots = length files \<and> (\<forall>b \<in> bids. b < length files \<longrightarrow> slots ! b = Bytes (files ! b))"

lemma upload_one_Inr:
  assumes "upload_one E sc ep slots m st = (Inr r, st')" and "slots_match files slots {bm_blob_id m}"
  obtains u s' where "row_matches E sc files ep m r"
    "s3_put (be_s3 E) (br_storage_key r) (files ! bm_blob_id m) (br_mime_type r) (bs_store st) = (Inr u, s')"
    "st' = st\<lparr>bs_store := s', bs_draws := Suc (bs_draws st)\<rparr>"
proof -
  have lt: "bm_blob_id m < length slots" using assms(1) by (auto simp: upload_one_def split: if_splits)
  then have sl: "slots ! bm_blob_id m = Bytes (files ! bm_blob_id m)" using assms(2) by (simp add: slots_match_def)
  show thesis
    using assms(1) lt
    by (auto simp: upload_one_def sl Let_def send_upload_def row_matches_def row_of_def
        split: if_splits sum.splits prod.splits intro: that)
qed

context object_store
begin

lemma upload_each_stored:
  assumes "upload_each E sc ep slots ms st = (Inr rs, st')" and "be_s3 E = S"
    and "slots_match files slots (bm_blob_id ` set ms)"
  shows "list_all2 (row_matches E sc files ep) ms rs \<and> bs_streams st' = bs_streams st \<and> bs_rows st' = bs_rows st
    \<and> list_all (stored files (objects (bs_store st'))) rs
    \<and> (\<forall>q. stored files (objects (bs_store st)) q \<longrightarrow> stored files (objects (bs_store st')) q)"
  using assms(1,3)
proof (induction ms arbitrary: st rs)
  case Nil
  then show ?case by simp
next
  case (Cons m ms)
  obtain r st1 where one: "upload_one E sc ep slots m st = (Inr r, st1)"
    using Cons.prems(1) by (auto split: prod.splits sum.splits)
  then obtain rs' where rest: "upload_each E sc ep slots ms st1 = (Inr rs', st')" and rs: "rs = r # rs'"
    using Cons.prems(1) by (auto split: prod.splits sum.splits)
  have "slots_match files slots {bm_blob_id m}" using Cons.prems(2) by (simp add: slots_match_def)
  from upload_one_Inr[OF one this] obtain u s' where m: "row_matches E sc files ep m r"
    and put: "s3_put S (br_storage_key r) (files ! bm_blob_id m) (br_mime_type r) (bs_store st) = (Inr u, s')"
    and st1: "st1 = st\<lparr>bs_store := s', bs_draws := Suc (bs_draws st)\<rparr>" using assms(2) by metis
  have obj: "objects (bs_store st1) = (objects (bs_store st))(br_storage_key r \<mapsto> files ! bm_blob_id m)"
    using put_ok[OF put] st1 by simp
  have r: "r = row_of E sc ep m (files ! bm_blob_id m) (br_id r)" using m by (simp add: row_matches_def)
  have new: "stored files (objects (bs_store st1)) r" unfolding obj using stored_row_of r by metis
  have key: "br_storage_key r = build_key (sc_org sc) (sc_project sc) ep (bm_blob_id m) (upload_name m (Bytes (files ! bm_blob_id m)))"
    by (rule row_matches_fields(6)[OF m])
  have old: "stored files (objects (bs_store st)) q \<Longrightarrow> stored files (objects (bs_store st1)) q" for q
    unfolding obj key by (rule stored_put)
  have "slots_match files slots (bm_blob_id ` set ms)" using Cons.prems(2) by (simp add: slots_match_def)
  note IH = Cons.IH[OF rest this]
  show ?case using IH m new old st1 by (simp add: rs list_all_iff)
qed

end

text \<open>What a loop state knows of the files: cached bytes are right, and what is needed can still be had.\<close>

definition cache_right :: "string list \<Rightarrow> 'o blob_loop \<Rightarrow> bool" where
  "cache_right files l \<longleftrightarrow> length (bs_streams (bl_state l)) = length files \<and> (\<forall>b d. bl_shared l b = Some d \<longrightarrow> d = files ! b)"

definition available :: "string list \<Rightarrow> 'o blob_loop \<Rightarrow> nat set \<Rightarrow> bool" where
  "available files l B \<longleftrightarrow> (\<forall>b \<in> B. b < length files \<longrightarrow> bl_shared l b \<noteq> None \<or> bs_streams (bl_state l) ! b = files ! b)"

text \<open>What filling the slots of \<open>B\<close> may change.\<close>

definition only_read :: "nat set \<Rightarrow> 'o blob_loop \<Rightarrow> 'o blob_loop \<Rightarrow> bool" where
  "only_read B l l' \<longleftrightarrow>
     (\<forall>b. b \<notin> B \<longrightarrow> bl_shared l' b = bl_shared l b \<and> bs_streams (bl_state l') ! b = bs_streams (bl_state l) ! b)
     \<and> bl_remaining l' = bl_remaining l \<and> bs_store (bl_state l') = bs_store (bl_state l)
     \<and> bs_rows (bl_state l') = bs_rows (bl_state l)"

lemma only_read_step: "only_read {b} l l1 \<Longrightarrow> only_read B l1 l' \<Longrightarrow> only_read (insert b B) l l'"
  by (auto simp: only_read_def)

lemma fill_slots_Cons:
  assumes "fill_slots E sh (b # bids) slots l = (Inr slots', l')" and "cache_right files l" and "available files l {b}"
    and "length slots = length files"
  obtains l1 where "fill_slots E sh bids (slots[b := Bytes (files ! b)]) l1 = (Inr slots', l')" "b < length files"
    "only_read {b} l l1" "cache_right files l1" "sh b \<Longrightarrow> bl_shared l1 b = Some (files ! b)"
proof (cases "bl_shared l b")
  case (Some d)
  have lt: "b < length files" using assms(1,4) by (auto split: if_splits)
  have "d = files ! b" using Some assms(2) by (simp add: cache_right_def)
  then show thesis using that[of l] assms lt Some by (simp add: only_read_def)
next
  case None
  have lt: "b < length files" using assms(1,4) by (auto split: if_splits)
  have s: "bs_streams (bl_state l) ! b = files ! b" using assms(3) None lt by (simp add: available_def)
  obtain r rest where rd: "read_upload_bounded (files ! b) (be_max_bytes E) = (r, rest)" by fastforce
  let ?l1 = "l\<lparr>bl_state := (bl_state l)\<lparr>bs_streams := (bs_streams (bl_state l))[b := rest]\<rparr>\<rparr>"
  obtain d where r: "r = Inr d" using assms(1,4) lt None rd s by (auto simp: Let_def split: sum.splits)
  have "read_bytes_bounded (files ! b) (be_max_bytes E) = Inr d"
    using read_upload_bounded_result[of "files ! b" "be_max_bytes E"] unfolding rd r by simp
  then have d: "d = files ! b" by simp
  let ?l2 = "if sh b then ?l1\<lparr>bl_shared := (bl_shared ?l1)(b \<mapsto> d)\<rparr> else ?l1"
  have run: "fill_slots E sh bids (slots[b := Bytes (files ! b)]) ?l2 = (Inr slots', l')"
    using assms(1,4) lt None rd r s d by (cases "sh b") (simp_all add: Let_def)
  show thesis
  proof (rule that[OF run lt])
    show "only_read {b} l ?l2" by (simp add: only_read_def)
    show "cache_right files ?l2" using assms(2) d by (simp add: cache_right_def)
    show "sh b \<Longrightarrow> bl_shared ?l2 b = Some (files ! b)" using d by simp
  qed
qed

lemma fill_slots_Inr:
  assumes "fill_slots E sh bids slots l = (Inr slots', l')" and "distinct bids" and "length slots = length files"
    and "cache_right files l" and "available files l (set bids)"
  shows "slots_match files slots' (set bids) \<and> (\<forall>b. b \<notin> set bids \<longrightarrow> slots' ! b = slots ! b) \<and> only_read (set bids) l l'
    \<and> cache_right files l' \<and> (\<forall>b \<in> set bids. b < length files \<and> (sh b \<longrightarrow> bl_shared l' b \<noteq> None))"
  using assms
proof (induction bids arbitrary: slots l)
  case Nil
  then show ?case by (simp add: slots_match_def only_read_def)
next
  case (Cons b bids)
  have nb: "b \<notin> set bids" "distinct bids" using Cons.prems(2) by auto
  have "available files l {b}" using Cons.prems(5) by (simp add: available_def)
  then obtain l1 where run: "fill_slots E sh bids (slots[b := Bytes (files ! b)]) l1 = (Inr slots', l')" and lt: "b < length files"
    and rd: "only_read {b} l l1" and cr: "cache_right files l1" and sh: "sh b \<Longrightarrow> bl_shared l1 b = Some (files ! b)"
    using fill_slots_Cons[OF Cons.prems(1,4) _ Cons.prems(3)] by blast
  have len: "length (slots[b := Bytes (files ! b)]) = length files" using Cons.prems(3) by simp
  have "available files l1 (set bids)"
    unfolding available_def
  proof (intro ballI impI)
    fix c assume c: "c \<in> set bids" "c < length files"
    then have "c \<noteq> b" using nb by auto
    then show "bl_shared l1 c \<noteq> None \<or> bs_streams (bl_state l1) ! c = files ! c"
      using Cons.prems(5) c rd by (simp add: available_def only_read_def)
  qed
  note IH = Cons.IH[OF run nb(2) len cr this]
  have rd': "only_read (set bids) l1 l'" using IH by blast
  have "slots' ! b = Bytes (files ! b)" using IH nb(1) lt Cons.prems(3) by simp
  moreover have "sh b \<longrightarrow> bl_shared l' b \<noteq> None" using sh rd' nb(1) by (auto simp: only_read_def)
  moreover have "only_read (set (b # bids)) l l'" using only_read_step[OF rd rd'] by simp
  ultimately show ?case using IH lt by (simp add: slots_match_def)
qed

lemma release_one_Inr:
  assumes "release_one sh b l = Inr l'"
  shows "bl_state l' = bl_state l \<and> bl_remaining l' = (bl_remaining l)(b := bl_remaining l b - (if sh b then 1 else 0))
    \<and> bl_shared l' = (bl_shared l)(b := if sh b \<and> bl_remaining l b \<le> 1 then None else bl_shared l b)"
  using assms by (auto simp: release_one_def Let_def fun_eq_iff split: if_splits)

lemma release_all_Inr:
  assumes "exc_fold (release_one sh) bids l = Inr l'" and "distinct bids"
  shows "bl_state l' = bl_state l
    \<and> (\<forall>b. bl_remaining l' b = bl_remaining l b - (if sh b \<and> b \<in> set bids then 1 else 0))
    \<and> (\<forall>b. bl_shared l' b = (if sh b \<and> b \<in> set bids \<and> bl_remaining l b \<le> 1 then None else bl_shared l b))"
  using assms
proof (induction bids arbitrary: l)
  case Nil
  then show ?case by simp
next
  case (Cons b bids)
  then obtain l1 where l1: "release_one sh b l = Inr l1" "exc_fold (release_one sh) bids l1 = Inr l'"
    by (auto simp: exc_bind_Inr_iff)
  note IH = Cons.IH[OF l1(2)] and one = release_one_Inr[OF l1(1)]
  show ?case using IH one Cons.prems(2) by auto
qed

definition mentions :: "(uuid \<times> blob_meta list) list \<Rightarrow> nat set" where
  "mentions eps = (\<Union>(_, ms) \<in> set eps. bm_blob_id ` set ms)"

lemma use_counts_Cons: "use_counts ((i, ms) # eps) b = length (filter (\<lambda>m. bm_blob_id m = b) ms) + use_counts eps b"
  by (simp add: use_counts_def)

lemma use_counts_pos: "0 < use_counts eps b \<longleftrightarrow> b \<in> mentions eps"
  by (induction eps) (auto simp: use_counts_def mentions_def filter_empty_conv)

lemma count_metas_pos: "b \<in> bm_blob_id ` set ms \<Longrightarrow> 0 < length (filter (\<lambda>m. bm_blob_id m = b) ms)"
  by (auto simp: filter_empty_conv)

text \<open>
  The invariant of the loop over the episodes: what the remaining ones mention can still be had, a
  shared file is counted at least as often as it is still mentioned, others are mentioned once.
\<close>

definition blob_inv :: "string list \<Rightarrow> (nat \<Rightarrow> bool) \<Rightarrow> (uuid \<times> blob_meta list) list \<Rightarrow> 'o blob_loop \<Rightarrow> bool" where
  "blob_inv files sh eps l \<longleftrightarrow> cache_right files l \<and> available files l (mentions eps)
     \<and> (\<forall>b. sh b \<longrightarrow> int (use_counts eps b) \<le> bl_remaining l b) \<and> (\<forall>b. \<not> sh b \<longrightarrow> use_counts eps b \<le> 1)"

lemma blob_inv_next:
  assumes inv: "blob_inv files sh ((ep, ms) # eps) l"
    and rd: "only_read (bm_blob_id ` set ms) l l1" and cr: "cache_right files l1"
    and got: "\<forall>b \<in> bm_blob_id ` set ms. sh b \<longrightarrow> bl_shared l1 b \<noteq> None"
    and st: "bs_streams (bl_state l2) = bs_streams (bl_state l1)" "bl_shared l2 = bl_shared l1" "bl_remaining l2 = bl_remaining l1"
    and rel: "exc_fold (release_one sh) (remdups (map bm_blob_id ms)) l2 = Inr l3"
  shows "blob_inv files sh eps l3"
proof -
  let ?B = "bm_blob_id ` set ms"
  note rl = release_all_Inr[OF rel distinct_remdups]
  have sh3: "bl_shared l3 b = (if sh b \<and> b \<in> ?B \<and> bl_remaining l b \<le> 1 then None else bl_shared l1 b)" for b
    using rl rd st by (simp add: only_read_def)
  have rem3: "bl_remaining l3 b = bl_remaining l b - (if sh b \<and> b \<in> ?B then 1 else 0)" for b
    using rl rd st by (simp add: only_read_def)
  have str3: "bs_streams (bl_state l3) = bs_streams (bl_state l1)" using rl st by simp
  have cnt: "use_counts eps b + (if b \<in> ?B then 1 else 0) \<le> use_counts ((ep, ms) # eps) b" for b
    using count_metas_pos[of b ms] by (cases "b \<in> ?B") (simp_all add: use_counts_Cons Suc_le_eq)
  have "cache_right files l3" using cr sh3 str3 by (auto simp: cache_right_def split: if_splits)
  moreover have "available files l3 (mentions eps)"
    unfolding available_def
  proof (intro ballI impI)
    fix b assume b: "b \<in> mentions eps" "b < length files"
    then have pos: "0 < use_counts eps b" by (simp add: use_counts_pos)
    show "bl_shared l3 b \<noteq> None \<or> bs_streams (bl_state l3) ! b = files ! b"
    proof (cases "b \<in> ?B")
      case True
      then have two: "2 \<le> use_counts ((ep, ms) # eps) b" using cnt[of b] pos by simp
      then have "sh b" using inv by (force simp: blob_inv_def)
      moreover have "2 \<le> bl_remaining l b" using inv two calculation by (force simp: blob_inv_def)
      moreover have "bl_shared l1 b \<noteq> None" using got True calculation(1) by blast
      ultimately show ?thesis using sh3[of b] by simp
    next
      case False
      have "b \<in> mentions ((ep, ms) # eps)" using b(1) by (auto simp: mentions_def)
      then have "bl_shared l b \<noteq> None \<or> bs_streams (bl_state l) ! b = files ! b"
        using inv b(2) by (simp add: blob_inv_def available_def)
      then show ?thesis using rd False sh3[of b] str3 by (simp add: only_read_def)
    qed
  qed
  moreover have "int (use_counts eps b) \<le> bl_remaining l3 b" if "sh b" for b
  proof -
    have "int (use_counts ((ep, ms) # eps) b) \<le> bl_remaining l b" using inv that by (simp add: blob_inv_def)
    then show ?thesis using rem3[of b] cnt[of b] that by (cases "b \<in> ?B") auto
  qed
  moreover have "use_counts eps b \<le> 1" if "\<not> sh b" for b
  proof -
    have "use_counts ((ep, ms) # eps) b \<le> 1" using inv that by (simp add: blob_inv_def)
    then show ?thesis using cnt[of b] by (auto split: if_splits)
  qed
  ultimately show ?thesis by (simp add: blob_inv_def)
qed

context object_store
begin

lemma upload_blobs_stored:
  assumes "upload_blobs E sc ep slots ms st = (Inr rs, st')" and "be_s3 E = S"
    and "slots_match files slots (bm_blob_id ` set ms)"
  shows "list_all2 (row_matches E sc files ep) ms rs \<and> bs_streams st' = bs_streams st \<and> bs_rows st' = bs_rows st @ rs
    \<and> list_all (stored files (objects (bs_store st'))) rs
    \<and> (\<forall>q. stored files (objects (bs_store st)) q \<longrightarrow> stored files (objects (bs_store st')) q)"
proof -
  obtain st1 where each: "upload_each E sc ep slots ms st = (Inr rs, st1)"
    and st': "bs_streams st' = bs_streams st1" "bs_rows st' = bs_rows st1 @ rs" "bs_store st' = bs_store st1"
    using assms(1) by (auto simp: upload_blobs_def batch_create_blobs_def split: if_splits prod.splits sum.splits)
  show ?thesis using upload_each_stored[OF each assms(2,3)] st' by simp
qed

lemma blob_episode_stored:
  assumes run: "blob_episode E sc sh (ep, ms) l = (Inr rs, l')" and S: "be_s3 E = S" and inv: "blob_inv files sh ((ep, ms) # eps) l"
  shows "blob_inv files sh eps l' \<and> list_all2 (row_matches E sc files ep) ms rs \<and> bs_rows (bl_state l') = bs_rows (bl_state l) @ rs
    \<and> list_all (stored files (objects (bs_store (bl_state l')))) rs
    \<and> (\<forall>q. stored files (objects (bs_store (bl_state l))) q \<longrightarrow> stored files (objects (bs_store (bl_state l'))) q)"
proof -
  let ?B = "bm_blob_id ` set ms" and ?ids = "remdups (map bm_blob_id ms)"
  let ?slots = "replicate (length (bs_streams (bl_state l))) (Bytes [])"
  obtain slots l1 where f: "fill_slots E sh ?ids ?slots l = (Inr slots, l1)"
    using run by (auto simp: blob_episode_def Let_def split: prod.splits sum.splits)
  then obtain st where u: "upload_blobs E sc ep slots ms (bl_state l1) = (Inr rs, st)"
    and rel: "exc_fold (release_one sh) ?ids (l1\<lparr>bl_state := st\<rparr>) = Inr l'"
    using run by (auto simp: blob_episode_def Let_def split: prod.splits sum.splits)
  have len: "length ?slots = length files" and cr: "cache_right files l" using inv by (simp_all add: blob_inv_def cache_right_def)
  have "?B \<subseteq> mentions ((ep, ms) # eps)" by (auto simp: mentions_def)
  then have av: "available files l (set ?ids)" using inv by (auto simp: blob_inv_def available_def)
  note fs = fill_slots_Inr[OF f distinct_remdups len cr av]
  have "slots_match files slots ?B" using fs by simp
  note up = upload_blobs_stored[OF u S this]
  have store: "bs_store (bl_state l1) = bs_store (bl_state l)" "bs_rows (bl_state l1) = bs_rows (bl_state l)"
    using fs by (simp_all add: only_read_def)
  have st': "bl_state l' = st" using release_all_Inr[OF rel distinct_remdups] by simp
  have "blob_inv files sh eps l'"
    by (rule blob_inv_next[OF inv, of l1 "l1\<lparr>bl_state := st\<rparr>"]) (use fs up rel in simp_all)
  then show ?thesis using up store st' by simp
qed

lemma blob_episodes_stored:
  assumes "blob_episodes E sc sh eps l = (Inr rs, l')" and S: "be_s3 E = S" and "blob_inv files sh eps l"
  shows "list_all2 (\<lambda>(ep, m). row_matches E sc files ep m) (concat (map (\<lambda>(ep, ms). map (Pair ep) ms) eps)) rs
    \<and> bs_rows (bl_state l') = bs_rows (bl_state l) @ rs
    \<and> list_all (stored files (objects (bs_store (bl_state l')))) rs
    \<and> (\<forall>q. stored files (objects (bs_store (bl_state l))) q \<longrightarrow> stored files (objects (bs_store (bl_state l'))) q)"
  using assms(1,3)
proof (induction eps arbitrary: l rs)
  case Nil
  then show ?case by simp
next
  case (Cons e eps)
  obtain ep ms where e: "e = (ep, ms)" by fastforce
  obtain rs1 l1 where one: "blob_episode E sc sh (ep, ms) l = (Inr rs1, l1)"
    using Cons.prems(1) e by (auto split: prod.splits sum.splits)
  then obtain rs2 where rest: "blob_episodes E sc sh eps l1 = (Inr rs2, l')" and rs: "rs = rs1 @ rs2"
    using Cons.prems(1) e by (auto split: prod.splits sum.splits)
  note h = blob_episode_stored[OF one S Cons.prems(2)[unfolded e]]
  note IH = Cons.IH[OF rest conjunct1[OF h]]
  have "list_all2 (\<lambda>(ep, m). row_matches E sc files ep m) (map (Pair ep) ms) rs1"
    using h by (simp add: list_all2_map1)
  moreover have "list_all (stored files (objects (bs_store (bl_state l')))) (rs1 @ rs2)"
    using h IH by (auto simp: list_all_iff)
  ultimately show ?case using h IH by (simp add: e rs list_all2_appendI)
qed

end

lemma ep_blob_metas_Inr:
  assumes "ep_blob_metas ids blobs_of = Inr eps"
  shows "concat (map (\<lambda>(ep, ms). map (Pair ep) ms) eps) = concat (map2 (\<lambda>ep ms. map (Pair ep) ms) ids blobs_of)"
proof -
  have gen: "concat (map (\<lambda>(ep, ms). map (Pair ep) ms) eps) = concat (map2 (\<lambda>ep ms. map (Pair ep) ms) (drop k ids) bs)"
    if "exc_map (\<lambda>(i, metas). if i < length ids then Inr (ids ! i, metas) else Inl IndexError)
         (filter (\<lambda>(i, metas). metas \<noteq> []) (enumerate k bs)) = Inr eps" for k bs eps
    using that
  proof (induction bs arbitrary: k eps)
    case Nil
    then show ?case by simp
  next
    case (Cons b bs)
    show ?case
    proof (cases "b = []")
      case True
      then have "concat (map (\<lambda>(ep, ms). map (Pair ep) ms) eps) = concat (map2 (\<lambda>ep ms. map (Pair ep) ms) (drop (Suc k) ids) bs)"
        using Cons by simp
      then show ?thesis using True by (cases "drop k ids") (simp_all add: drop_Suc tl_drop[symmetric])
    next
      case False
      then obtain eps' where k: "k < length ids" and eps: "eps = (ids ! k, b) # eps'"
        and rest: "exc_map (\<lambda>(i, metas). if i < length ids then Inr (ids ! i, metas) else Inl IndexError)
         (filter (\<lambda>(i, metas). metas \<noteq> []) (enumerate (Suc k) bs)) = Inr eps'"
        using Cons.prems by (auto simp: exc_bind_Inr_iff split: if_splits)
      then show ?thesis using Cons.IH[OF rest] by (simp add: Cons_nth_drop_Suc[symmetric])
    qed
  qed
  show ?thesis using gen[of 0 blobs_of eps] assms by (simp add: ep_blob_metas_def)
qed

text \<open>
  C17: every attachment is stored with its own bytes. When the uploads of an ingestion succeed, one row
  was inserted per reference of a message, in order, each with the size and digest of the file it
  refers to and within the size limit, and the object under its key holds exactly the bytes of that
  upload. This holds although the uploaded files are streams that can be read only once and may be
  referenced by several messages, several times, in any order.
\<close>

theorem process_blobs_exact:
  assumes "\<And>c. object_store (bp_client B c) objects"
    and "process_blobs B sc ids blobs_of st = (Inr (n, rows), st')"
  shows "n = length rows \<and> bs_rows st' = bs_rows st @ rows
    \<and> map (\<lambda>r. (br_episode_id r, br_blob_index r)) rows
        = concat (map2 (\<lambda>ep ms. map (\<lambda>m. (ep, bm_blob_id m)) ms) ids blobs_of)
    \<and> (\<forall>r \<in> set rows. \<forall>d. d = bs_streams st ! br_blob_index r \<longrightarrow>
         objects (bs_store st') (br_storage_key r) = Some d \<and> br_file_size r = length d
         \<and> br_content_hash r = bp_sha256 B d \<and> is_allowed_upload_mime (br_mime_type r))"
proof -
  obtain eps where eps: "ep_blob_metas ids blobs_of = Inr eps"
    using assms(2) by (auto simp: process_blobs_def split: sum.splits)
  note pairs = ep_blob_metas_Inr[OF eps]
  have pairs': "concat (map2 (\<lambda>ep ms. map (\<lambda>m. (ep, bm_blob_id m)) ms) ids blobs_of)
      = map (\<lambda>(ep, m). (ep, bm_blob_id m)) (concat (map (\<lambda>(ep, ms). map (Pair ep) ms) eps))"
    unfolding pairs map_concat by (rule arg_cong[of _ _ concat]) auto
  show ?thesis
  proof (cases "eps = []")
    case True
    then have "rows = []" "n = 0" "st' = st" using assms(2) eps by (auto simp: process_blobs_def)
    then show ?thesis unfolding pairs' using True by simp
  next
    case False
    let ?l0 = "\<lparr>bl_state = st, bl_shared = Map.empty, bl_remaining = (\<lambda>bid. int (use_counts eps bid))\<rparr>"
    let ?sh = "\<lambda>bid. use_counts eps bid > 1"
    obtain c l where run: "blob_episodes (blob_env_for B c) sc ?sh eps ?l0 = (Inr rows, l)"
      and out: "n = length rows" "st' = bl_state l"
      using assms(2) eps False by (auto simp: process_blobs_def split: sum.splits prod.splits)
    have inv: "blob_inv (bs_streams st) ?sh eps ?l0"
      by (simp add: blob_inv_def cache_right_def available_def)
    have S: "be_s3 (blob_env_for B c) = bp_client B c" by (simp add: blob_env_for_def)
    note h = object_store.blob_episodes_stored[OF assms(1) run S inv]
    have m: "list_all2 (\<lambda>(ep, m). row_matches (blob_env_for B c) sc (bs_streams st) ep m)
        (concat (map (\<lambda>(ep, ms). map (Pair ep) ms) eps)) rows" using h by blast
    have keys: "map (\<lambda>r. (br_episode_id r, br_blob_index r)) rows
        = map (\<lambda>(ep, m). (ep, bm_blob_id m)) (concat (map (\<lambda>(ep, ms). map (Pair ep) ms) eps))"
      using m by (induction rule: list_all2_induct) (auto dest: row_matches_fields(1,2))
    have row: "\<exists>ep m. row_matches (blob_env_for B c) sc (bs_streams st) ep m r" if "r \<in> set rows" for r
      using m that by (metis (mono_tags, lifting) case_prod_beta in_set_conv_nth list_all2_conv_all_nth)
    have fields: "br_file_size r = length d \<and> br_content_hash r = bp_sha256 B d \<and> is_allowed_upload_mime (br_mime_type r)"
      if "row_matches (blob_env_for B c) sc (bs_streams st) ep m r" "d = bs_streams st ! br_blob_index r" for r ep m d
      using row_matches_fields[OF that(1)] that(2) by (simp add: blob_env_for_def)
    have "objects (bs_store st') (br_storage_key r) = Some (bs_streams st ! br_blob_index r)" if "r \<in> set rows" for r
      using h that out by (auto simp: list_all_iff stored_def)
    then show ?thesis unfolding pairs' using h out keys row fields by simp metis
  qed
qed

section \<open>Example\<close>

lemma read_upload_small:
  "s \<noteq> [] \<Longrightarrow> length s \<le> UPLOAD_CHUNK_BYTES \<Longrightarrow> length s \<le> n \<Longrightarrow> read_upload_bounded s n = (Inr s, [])"
  unfolding read_upload_bounded_def
  by (subst read_chunks.simps, subst read_chunks.simps) (auto simp: Let_def UPLOAD_CHUNK_BYTES_def)

definition sample_storage :: org_storage where
  "sample_storage = \<lparr>os_blob_storage_backend = None, os_s3_endpoint_url = None, os_s3_region = None, os_s3_access_key_id = None,
     os_s3_secret_access_key = None, os_s3_bucket_name = Some ''acme'', os_max_blob_size_mb = None\<rparr>"

definition sample_platform :: "(string \<Rightarrow> bool) \<Rightarrow> (string \<rightharpoonup> string) blob_platform" where
  "sample_platform refuse = \<lparr>bp_get_org_config = (\<lambda>_. Inr sample_storage), bp_client = (\<lambda>_. mem_s3 refuse),
     bp_sha256 = (\<lambda>d. d), bp_uuid4 = (\<lambda>n. n), bp_max_blobs_per_request = 10\<rparr>"

definition sample_meta :: "nat \<Rightarrow> blob_meta" where
  "sample_meta i = \<lparr>bm_blob_id = i, bm_mime_type = ''text/plain'', bm_file_name = ''a.txt''\<rparr>"

definition sample_scope :: blob_scope where
  "sample_scope = \<lparr>sc_org = 1, sc_project = 2, sc_session = 9, sc_user = 3\<rparr>"

definition sample_uploads :: "(string \<rightharpoonup> string) blob_state" where
  "sample_uploads = \<lparr>bs_store = Map.empty, bs_streams = [''ab'', ''c''], bs_rows = [], bs_draws = 0\<rparr>"

lemma sample_upload_one:
  assumes "i < length fs" "fs ! i = Bytes d" "length d \<le> 3"
  shows "\<exists>r. upload_one (blob_env_for (sample_platform (\<lambda>_. False)) (to_blob_storage_config sample_storage default_storage))
      sample_scope ep fs (sample_meta i) st
    = (Inr r, st\<lparr>bs_store := (bs_store st)(build_key 1 2 ep i ''a.txt'' \<mapsto> d), bs_draws := Suc (bs_draws st)\<rparr>)
    \<and> br_id r = bs_draws st \<and> br_episode_id r = ep \<and> br_blob_index r = i"
proof -
  have mime: "upload_mime (sample_meta i) f = ''text/plain''" for f by (simp add: upload_mime_def sample_meta_def) code_simp
  have ok: "is_allowed_upload_mime ''text/plain''" by code_simp
  show ?thesis using assms mime[unfolded sample_meta_def] ok
    by (simp add: upload_one_def Let_def send_upload_def upload_name_def sample_meta_def sample_platform_def sample_scope_def
        blob_env_for_def read_bytes_bounded_def mem_s3_def max_blob_bytes_def to_blob_storage_config_def or_default_def
        sample_storage_def default_storage_def)
qed

theorem process_blobs_exact_witness:
  "\<exists>rows st'. process_blobs (sample_platform (\<lambda>_. False)) sample_scope [11, 12]
       [[sample_meta 0], [sample_meta 1, sample_meta 0]] sample_uploads = (Inr (3, rows), st')
     \<and> (\<forall>r \<in> set rows. bs_store st' (br_storage_key r) = Some ([''ab'', ''c''] ! br_blob_index r))"
proof -
  let ?E = "blob_env_for (sample_platform (\<lambda>_. False)) (to_blob_storage_config sample_storage default_storage)"
  have small: "read_upload_bounded ''ab'' (be_max_bytes ?E) = (Inr ''ab'', [])" "read_upload_bounded ''c'' (be_max_bytes ?E) = (Inr ''c'', [])"
    by (rule read_upload_small; simp add: UPLOAD_CHUNK_BYTES_def blob_env_for_def max_blob_bytes_def to_blob_storage_config_def or_default_def
        sample_storage_def default_storage_def)+
  have lim: "be_max_blobs_per_request ?E = 10" by (simp add: blob_env_for_def sample_platform_def)
  have bid: "bm_blob_id (sample_meta i) = i" for i by (simp add: sample_meta_def)
  obtain r1 where r1: "upload_one ?E sample_scope 11 [Bytes ''ab'', Bytes []] (sample_meta 0) st
      = (Inr (r1 st), st\<lparr>bs_store := (bs_store st)(build_key 1 2 11 0 ''a.txt'' \<mapsto> ''ab''), bs_draws := Suc (bs_draws st)\<rparr>)"
    "br_id (r1 st) = bs_draws st" "br_episode_id (r1 st) = 11" "br_blob_index (r1 st) = 0" for st
    using sample_upload_one[of 0 "[Bytes ''ab'', Bytes []]" "''ab''" 11] by simp metis
  obtain r2 where r2: "upload_one ?E sample_scope 12 [Bytes ''ab'', Bytes ''c''] (sample_meta (Suc 0)) st
      = (Inr (r2 st), st\<lparr>bs_store := (bs_store st)(build_key 1 2 12 (Suc 0) ''a.txt'' \<mapsto> ''c''), bs_draws := Suc (bs_draws st)\<rparr>)"
    "br_id (r2 st) = bs_draws st" "br_episode_id (r2 st) = 12" "br_blob_index (r2 st) = Suc 0" for st
    using sample_upload_one[of "Suc 0" "[Bytes ''ab'', Bytes ''c'']" "''c''" 12] by simp metis
  obtain r3 where r3: "upload_one ?E sample_scope 12 [Bytes ''ab'', Bytes ''c''] (sample_meta 0) st
      = (Inr (r3 st), st\<lparr>bs_store := (bs_store st)(build_key 1 2 12 0 ''a.txt'' \<mapsto> ''ab''), bs_draws := Suc (bs_draws st)\<rparr>)"
    "br_id (r3 st) = bs_draws st" "br_episode_id (r3 st) = 12" "br_blob_index (r3 st) = 0" for st
    using sample_upload_one[of 0 "[Bytes ''ab'', Bytes ''c'']" "''ab''" 12] by simp metis
  have cfg: "resolve_storage_config (bp_get_org_config (sample_platform (\<lambda>_. False))) (sc_org sample_scope)
      = Inr (to_blob_storage_config sample_storage default_storage)"
    by (simp add: resolve_storage_config_def sample_platform_def)
  have eps: "ep_blob_metas [11, 12] [[sample_meta 0], [sample_meta 1, sample_meta 0]] = Inr [(11, [sample_meta 0]), (12, [sample_meta 1, sample_meta 0])]"
    by (simp add: ep_blob_metas_def)
  have "\<exists>rows st'. process_blobs (sample_platform (\<lambda>_. False)) sample_scope [11, 12]
       [[sample_meta 0], [sample_meta 1, sample_meta 0]] sample_uploads = (Inr (3, rows), st')"
    unfolding process_blobs_def eps cfg
    by (simp add: sample_uploads_def blob_episode_def bid small lim Let_def upload_blobs_def r1 r2 r3 batch_create_blobs_def
        use_counts_def release_one_def)
  then obtain rows st' where run: "process_blobs (sample_platform (\<lambda>_. False)) sample_scope [11, 12]
       [[sample_meta 0], [sample_meta 1, sample_meta 0]] sample_uploads = (Inr (3, rows), st')" by blast
  have "object_store (bp_client (sample_platform (\<lambda>_. False)) c) (\<lambda>s. s)" for c
    using bucket.object_store_axioms[of "\<lambda>_. False"] by (simp add: sample_platform_def)
  from process_blobs_exact[OF this run] run show ?thesis by (auto simp: sample_uploads_def)
qed

end
