(* ===== verification/Pii.thy ===== *)
theory Pii
  imports Prelude
begin

text \<open>
  \<^verbatim>\<open>services/pii_service.py\<close>: detection and masking of personal data.

  The regular expressions and the named-entity model are parameters: for a pattern and a text they
  give the spans of the matches. Offsets count code points, so a text is split into its code points,
  each a short string of UTF-8 bytes. Confidences are rationals.
\<close>

section \<open>Code points\<close>

fun codepoints :: "string \<Rightarrow> string list" where
  "codepoints [] = []"
| "codepoints (c # cs) =
     (case codepoints cs of
        (d # ds) # ps \<Rightarrow> if utf8_cont d then (c # d # ds) # ps else [c] # (d # ds) # ps
      | ps \<Rightarrow> [c] # ps)"

lemma codepoints_concat: "concat (codepoints s) = s"
  by (induction s) (auto split: list.splits if_splits)

section \<open>Detection\<close>

definition DEFAULT_PII_TYPES :: "string list" where
  "DEFAULT_PII_TYPES = [''email'', ''phone'', ''ssn'', ''credit_card'', ''ip_address'', ''api_key'', ''crypto_wallet'']"

definition REDACTION_LABELS :: "string \<rightharpoonup> string" where
  "REDACTION_LABELS =
     [''email'' \<mapsto> ''EMAIL'', ''phone'' \<mapsto> ''PHONE'', ''ssn'' \<mapsto> ''SSN'', ''credit_card'' \<mapsto> ''CARD'', ''ip_address'' \<mapsto> ''IP'',
      ''api_key'' \<mapsto> ''KEY'', ''crypto_wallet'' \<mapsto> ''WALLET'', ''name'' \<mapsto> ''NAME'', ''address'' \<mapsto> ''ADDRESS'',
      ''organization'' \<mapsto> ''ORG'', ''date'' \<mapsto> ''DATE'']"

definition NER_LABEL_MAP :: "string \<rightharpoonup> string" where
  "NER_LABEL_MAP =
     [''PERSON'' \<mapsto> ''name'', ''GPE'' \<mapsto> ''address'', ''LOC'' \<mapsto> ''address'', ''ORG'' \<mapsto> ''organization'', ''DATE'' \<mapsto> ''date'']"

text \<open>The detected value is the text of the span; it is kept out of the record.\<close>

record detection =
  d_type :: string
  d_start :: nat
  d_end :: nat
  d_confidence :: rat

record detector =
  dt_enabled_types :: "string list"
  dt_min_confidence :: rat
  dt_use_ner :: bool

text \<open>The engines: matches of the pattern of a type, and entities as a label and a span.\<close>

record pii_engine =
  finditer :: "string \<Rightarrow> string list \<Rightarrow> (nat \<times> nat) list"
  nlp_ents :: "string list \<Rightarrow> (string \<times> nat \<times> nat) list res"

definition scan_regex :: "pii_engine \<Rightarrow> detector \<Rightarrow> string list \<Rightarrow> detection list" where
  "scan_regex G D txt' =
     concat (map (\<lambda>ty. map (\<lambda>(a, b). \<lparr>d_type = ty, d_start = a, d_end = b, d_confidence = 95 / 100\<rparr>) (finditer G ty txt'))
       (filter (\<lambda>ty. ty \<in> set (dt_enabled_types D)) DEFAULT_PII_TYPES))"

definition scan_ner :: "pii_engine \<Rightarrow> detector \<Rightarrow> string list \<Rightarrow> detection list res" where
  "scan_ner G D txt' =
     exc_bind (nlp_ents G txt') (\<lambda>ents.
       Inr (List.map_filter (\<lambda>(label, a, b).
          case NER_LABEL_MAP label of
            None \<Rightarrow> None
          | Some ty \<Rightarrow> if ty \<in> set (dt_enabled_types D)
                       then Some \<lparr>d_type = ty, d_start = a, d_end = b, d_confidence = 85 / 100\<rparr> else None) ents))"

definition span :: "detection \<Rightarrow> int" where
  "span d = int (d_end d) - int (d_start d)"

definition by_start_longest :: "detection \<Rightarrow> detection \<Rightarrow> bool" where
  "by_start_longest x y \<longleftrightarrow> d_start x < d_start y \<or> (d_start x = d_start y \<and> - span x \<le> - span y)"

text \<open>The loop over the sorted detections; \<open>prev\<close> is \<^verbatim>\<open>merged[-1]\<close>.\<close>

fun merge_from :: "detection \<Rightarrow> detection list \<Rightarrow> detection list" where
  "merge_from prev [] = [prev]"
| "merge_from prev (current # ds) =
     (if d_start current < d_end prev
      then (if span current > span prev \<or> (span current = span prev \<and> d_confidence current > d_confidence prev)
            then merge_from current ds else merge_from prev ds)
      else prev # merge_from current ds)"

definition merge_overlapping :: "detection list \<Rightarrow> detection list" where
  "merge_overlapping detections =
     (case sort_wrt by_start_longest detections of [] \<Rightarrow> [] | d # ds \<Rightarrow> merge_from d ds)"

definition confidence_filter :: "detector \<Rightarrow> detection list \<Rightarrow> detection list" where
  "confidence_filter D ds = filter (\<lambda>d. d_confidence d \<ge> dt_min_confidence D) ds"

definition raw_detections :: "pii_engine \<Rightarrow> detector \<Rightarrow> string list \<Rightarrow> detection list res" where
  "raw_detections G D txt' =
     (if dt_use_ner D then exc_bind (scan_ner G D txt') (\<lambda>ner. Inr (scan_regex G D txt' @ ner))
      else Inr (scan_regex G D txt'))"

definition detect :: "pii_engine \<Rightarrow> detector \<Rightarrow> string list \<Rightarrow> detection list res" where
  "detect G D txt' =
     exc_bind (raw_detections G D txt') (\<lambda>results.
       Inr (sort_wrt (\<lambda>x y. d_start x \<le> d_start y) (confidence_filter D (merge_overlapping results))))"

section \<open>Redaction\<close>

definition py_upper_char :: "char \<Rightarrow> char" where
  "py_upper_char c = (if 97 \<le> code c \<and> code c \<le> 122 then char_of (code c - 32) else c)"

definition placeholder :: "detection \<Rightarrow> string list" where
  "placeholder d =
     map (\<lambda>c. [c]) (''[REDACTED:'' @ (case REDACTION_LABELS (d_type d) of Some l \<Rightarrow> l | None \<Rightarrow> map py_upper_char (d_type d)) @ '']'')"

definition replace_span :: "detection \<Rightarrow> string list \<Rightarrow> string list" where
  "replace_span d r = take (d_start d) r @ placeholder d @ drop (d_end d) r"

definition redact_apply :: "string \<Rightarrow> string list \<Rightarrow> detection list \<Rightarrow> string list res" where
  "redact_apply mode txt' detections =
     (if mode = ''block'' then Inl ValueError
      else if detections = [] then Inr txt'
      else Inr (fold replace_span (sort_wrt (\<lambda>x y. d_start y \<le> d_start x) detections) txt'))"

section \<open>The service\<close>

record pii_config =
  pc_mode :: string
  pc_sensitivity :: "string option"
  pc_enabled_types :: "string list option"
  pc_min_confidence :: "rat option"

definition detector_of :: "pii_config \<Rightarrow> detector" where
  "detector_of c =
     \<lparr>dt_enabled_types = (case pc_enabled_types c of Some ts \<Rightarrow> ts | None \<Rightarrow> DEFAULT_PII_TYPES),
      dt_min_confidence = (case pc_min_confidence c of Some x \<Rightarrow> x | None \<Rightarrow> 7 / 10),
      dt_use_ner = (case pc_sensitivity c of Some s \<Rightarrow> s \<in> {''medium'', ''high''} | None \<Rightarrow> False)\<rparr>"

text \<open>\<^verbatim>\<open>PIIService(config)\<close>: the constructor refuses an unknown mode.\<close>

definition pii_service :: "pii_config \<Rightarrow> pii_config res" where
  "pii_service c = (if pc_mode c \<in> {''off'', ''mask'', ''block''} then Inr c else Inl ValueError)"

definition process_message :: "pii_engine \<Rightarrow> pii_config \<Rightarrow> string \<Rightarrow> string res" where
  "process_message G c content =
     (if pc_mode c = ''off'' then Inr content
      else exc_bind (detect G (detector_of c) (codepoints content)) (\<lambda>detections.
        if detections = [] then Inr content
        else if pc_mode c = ''block'' then Inl ValidationError
        else if pc_mode c = ''mask''
             then exc_bind (redact_apply (pc_mode c) (codepoints content) detections) (\<lambda>ps. Inr (concat ps))
        else Inr content))"

section \<open>Merged detections\<close>

definition disjoint_spans :: "detection list \<Rightarrow> bool" where
  "disjoint_spans ds \<longleftrightarrow> sorted_wrt (\<lambda>x y. d_end x \<le> d_start y) ds"

definition overlaps :: "detection \<Rightarrow> detection \<Rightarrow> bool" where
  "overlaps x y \<longleftrightarrow> d_start x < d_end y \<and> d_start y < d_end x"

lemma merge_from_set: "set (merge_from d ds) \<subseteq> insert d (set ds)"
  by (induction d ds rule: merge_from.induct) (auto split: if_splits)

lemma merge_from_start:
  "sorted_wrt (\<lambda>x y. d_start x \<le> d_start y) (d # ds) \<Longrightarrow> x \<in> set (merge_from d ds) \<Longrightarrow> d_start d \<le> d_start x"
  using merge_from_set[of d ds] by auto

lemma merge_from_disjoint:
  assumes "sorted_wrt (\<lambda>x y. d_start x \<le> d_start y) (d # ds)" and "\<forall>x \<in> set (d # ds). d_start x < d_end x"
  shows "disjoint_spans (merge_from d ds)"
  using assms
proof (induction d ds rule: merge_from.induct)
  case (1 prev)
  then show ?case by (simp add: disjoint_spans_def)
next
  case (2 prev c ds)
  show ?case
  proof (cases "d_start c < d_end prev")
    case True
    have a: "sorted_wrt (\<lambda>x y. d_start x \<le> d_start y) (c # ds)" "sorted_wrt (\<lambda>x y. d_start x \<le> d_start y) (prev # ds)"
      using 2(4) by auto
    then show ?thesis using 2(1)[OF True] 2(2)[OF True] 2(5) True by simp
  next
    case False
    have a: "sorted_wrt (\<lambda>x y. d_start x \<le> d_start y) (c # ds)" using 2(4) by auto
    have "d_end prev \<le> d_start x" if "x \<in> set (merge_from c ds)" for x
      using merge_from_start[OF a that] False by simp
    then show ?thesis using 2(3)[OF False a] 2(5) False by (simp add: disjoint_spans_def)
  qed
qed

text \<open>A detection that overlaps no other one survives the merge.\<close>

lemma merge_from_isolated:
  assumes "x \<in> set (d # ds)" and "sorted_wrt (\<lambda>x y. d_start x \<le> d_start y) (d # ds)"
    and "\<forall>y \<in> set (d # ds). d_start y < d_end y"
    and "\<forall>y \<in> set (d # ds). y \<noteq> x \<longrightarrow> \<not> overlaps x y"
  shows "x \<in> set (merge_from d ds)"
  using assms
proof (induction d ds rule: merge_from.induct)
  case (1 prev)
  then show ?case by simp
next
  case (2 prev c ds)
  have a: "sorted_wrt (\<lambda>x y. d_start x \<le> d_start y) (c # ds)" "sorted_wrt (\<lambda>x y. d_start x \<le> d_start y) (prev # ds)"
    using 2(5) by auto
  show ?case
  proof (cases "d_start c < d_end prev")
    case True
    have ov: "overlaps prev c"
      using True 2(5,6) by (auto simp: overlaps_def)
    then have "c = prev" if "x = prev \<or> x = c" using that 2(7) by (auto simp: overlaps_def)
    then show ?thesis using 2(1)[OF True _ _ a(1)] 2(2)[OF True _ _ a(2)] 2(4,6,7) True by auto
  next
    case False
    then show ?thesis using 2(3)[OF False _ a(1)] 2(4,6,7) by auto
  qed
qed

lemma preorder_by_start_longest: "preorder_total by_start_longest"
  unfolding preorder_total_def by_start_longest_def by auto

lemma by_start_sorted: "sorted_wrt (\<lambda>x y. d_start x \<le> d_start y) (sort_wrt by_start_longest ds)"
  using sorted_sort_wrt[OF preorder_by_start_longest, of ds]
  by (rule sorted_wrt_mono_rel[rotated]) (auto simp: by_start_longest_def)

definition spans_ok :: "nat \<Rightarrow> detection list \<Rightarrow> bool" where
  "spans_ok n ds \<longleftrightarrow> (\<forall>d \<in> set ds. d_start d < d_end d \<and> d_end d \<le> n)"

lemma merge_overlapping_facts:
  assumes "spans_ok n ds"
  shows "disjoint_spans (merge_overlapping ds)" "set (merge_overlapping ds) \<subseteq> set ds"
    "x \<in> set ds \<Longrightarrow> \<forall>y \<in> set ds. y \<noteq> x \<longrightarrow> \<not> overlaps x y \<Longrightarrow> x \<in> set (merge_overlapping ds)"
proof -
  let ?s = "sort_wrt by_start_longest ds"
  have set: "set ?s = set ds" by simp
  consider "?s = []" | d es where "?s = d # es" by (cases ?s) auto
  then have "disjoint_spans (merge_overlapping ds) \<and> set (merge_overlapping ds) \<subseteq> set ds
    \<and> (x \<in> set ds \<longrightarrow> (\<forall>y \<in> set ds. y \<noteq> x \<longrightarrow> \<not> overlaps x y) \<longrightarrow> x \<in> set (merge_overlapping ds))"
  proof cases
    case 1
    then have "ds = []" using set by simp
    then show ?thesis by (simp add: merge_overlapping_def disjoint_spans_def)
  next
    case (2 d es)
    then have m: "merge_overlapping ds = merge_from d es" by (simp add: merge_overlapping_def)
    have ds: "set ds = set (d # es)" using set 2 by simp
    have srt: "sorted_wrt (\<lambda>x y. d_start x \<le> d_start y) (d # es)" using by_start_sorted[of ds] 2 by simp
    have ok: "\<forall>x \<in> set (d # es). d_start x < d_end x" using assms ds by (simp add: spans_ok_def)
    show ?thesis unfolding m ds
      using merge_from_disjoint[OF srt ok] merge_from_set[of d es] merge_from_isolated[OF _ srt ok] by auto
  qed
  then show "disjoint_spans (merge_overlapping ds)" "set (merge_overlapping ds) \<subseteq> set ds"
    "x \<in> set ds \<Longrightarrow> \<forall>y \<in> set ds. y \<noteq> x \<longrightarrow> \<not> overlaps x y \<Longrightarrow> x \<in> set (merge_overlapping ds)" by blast+
qed

lemma sort_wrt_id: "sorted_wrt le xs \<Longrightarrow> sort_wrt le xs = xs"
proof (induction xs)
  case (Cons x xs)
  then show ?case by (cases xs) auto
qed simp

lemma disjoint_sorted:
  assumes "disjoint_spans ds" and "spans_ok n ds"
  shows "sorted_wrt (\<lambda>x y. d_start x < d_start y) ds"
  using assms by (induction ds) (auto simp: disjoint_spans_def spans_ok_def intro: less_le_trans)

lemma detect_Inr:
  assumes "detect G D t = Inr ds"
  obtains raw where "raw_detections G D t = Inr raw"
    "spans_ok n raw \<Longrightarrow> ds = confidence_filter D (merge_overlapping raw) \<and> disjoint_spans ds \<and> spans_ok n ds"
proof -
  obtain raw where raw: "raw_detections G D t = Inr raw"
    and ds: "ds = sort_wrt (\<lambda>x y. d_start x \<le> d_start y) (confidence_filter D (merge_overlapping raw))"
    using assms by (auto simp: detect_def exc_bind_Inr_iff)
  show thesis
  proof (rule that[OF raw])
    assume ok: "spans_ok n raw"
    let ?c = "confidence_filter D (merge_overlapping raw)"
    have d: "disjoint_spans ?c" using merge_overlapping_facts(1)[OF ok]
      by (simp add: disjoint_spans_def confidence_filter_def sorted_wrt_filter)
    have o: "spans_ok n ?c" using ok merge_overlapping_facts(2)[OF ok] by (auto simp: spans_ok_def confidence_filter_def)
    have "sorted_wrt (\<lambda>x y. d_start x \<le> d_start y) ?c"
      using disjoint_sorted[OF d o] by (rule sorted_wrt_mono_rel[rotated]) auto
    then have "ds = ?c" unfolding ds by (rule sort_wrt_id)
    then show "ds = ?c \<and> disjoint_spans ds \<and> spans_ok n ds" using d o by simp
  qed
qed

section \<open>Masking\<close>

text \<open>The reference: one pass from the left that copies the gaps and prints a placeholder per span.\<close>

fun mask_spans :: "nat \<Rightarrow> string list \<Rightarrow> detection list \<Rightarrow> string list" where
  "mask_spans pos t [] = t"
| "mask_spans pos t (d # ds) = take (d_start d - pos) t @ placeholder d @ mask_spans (d_end d) (drop (d_end d - pos) t) ds"

lemma foldr_replace:
  assumes "disjoint_spans ds" and "spans_ok (length t) ds" and "\<forall>d \<in> set ds. pos \<le> d_start d" and "pos \<le> length t"
  shows "foldr replace_span ds t = take pos t @ mask_spans pos (drop pos t) ds"
  using assms
proof (induction ds arbitrary: pos)
  case Nil
  then show ?case by simp
next
  case (Cons d ds)
  have d: "pos \<le> d_start d" "d_start d < d_end d" "d_end d \<le> length t" using Cons.prems by (auto simp: spans_ok_def)
  have "foldr replace_span ds t = take (d_end d) t @ mask_spans (d_end d) (drop (d_end d) t) ds"
    using Cons.IH[of "d_end d"] Cons.prems d by (auto simp: disjoint_spans_def spans_ok_def)
  then have "foldr replace_span (d # ds) t = take (d_start d) t @ placeholder d @ mask_spans (d_end d) (drop (d_end d) t) ds"
    using d by (simp add: replace_span_def min_absorb1)
  also have "take (d_start d) t = take pos t @ take (d_start d - pos) (drop pos t)"
    using d by (metis append_take_drop_id le_add_diff_inverse take_add)
  finally show ?case using d by simp
qed

lemma reverse_sorted:
  assumes "disjoint_spans ds" and "spans_ok n ds"
  shows "sort_wrt (\<lambda>x y. d_start y \<le> d_start x) ds = rev ds"
proof -
  have "sorted_wrt (\<lambda>x y. d_start x < d_start y) ds" by (rule disjoint_sorted[OF assms])
  then show ?thesis
  proof (induction ds)
    case (Cons d ds)
    have ins: "insort_wrt (\<lambda>x y. d_start y \<le> d_start x) d es = es @ [d]" if "\<forall>e \<in> set es. d_start d < d_start e" for es
      using that by (induction es) auto
    have "sort_wrt (\<lambda>x y. d_start y \<le> d_start x) (d # ds) = insort_wrt (\<lambda>x y. d_start y \<le> d_start x) d (rev ds)"
      using Cons by simp
    also have "\<dots> = rev ds @ [d]" by (rule ins) (use Cons.prems in auto)
    finally show ?case by simp
  qed simp
qed

text \<open>
  C18: masking replaces exactly the kept spans. When the engines report spans within the text, a message
  in mask mode becomes what one pass from the left prints: the code points outside the kept
  detections unchanged and in order, and one placeholder for each kept detection. The kept
  detections are disjoint, meet the confidence threshold, were reported by an engine, and include
  every reported detection of sufficient confidence that overlaps no other one.
\<close>

theorem masking_exact:
  assumes "pc_mode c = ''mask''" and "process_message G c content = Inr r"
    and "\<And>raw. raw_detections G (detector_of c) (codepoints content) = Inr raw \<Longrightarrow> spans_ok (length (codepoints content)) raw"
  shows "\<exists>raw ds. raw_detections G (detector_of c) (codepoints content) = Inr raw
    \<and> r = concat (mask_spans 0 (codepoints content) ds) \<and> disjoint_spans ds
    \<and> set ds \<subseteq> {d \<in> set raw. dt_min_confidence (detector_of c) \<le> d_confidence d}
    \<and> {d \<in> set raw. dt_min_confidence (detector_of c) \<le> d_confidence d \<and> (\<forall>y \<in> set raw. y \<noteq> d \<longrightarrow> \<not> overlaps d y)} \<subseteq> set ds"
proof -
  let ?t = "codepoints content" and ?D = "detector_of c"
  obtain ds where det: "detect G ?D ?t = Inr ds"
    and r: "r = (if ds = [] then content else concat (fold replace_span (sort_wrt (\<lambda>x y. d_start y \<le> d_start x) ds) ?t))"
    using assms(1,2) by (auto simp: process_message_def redact_apply_def exc_bind_Inr_iff split: if_splits)
  obtain raw where raw: "raw_detections G ?D ?t = Inr raw"
    and h: "spans_ok (length ?t) raw \<Longrightarrow> ds = confidence_filter ?D (merge_overlapping raw) \<and> disjoint_spans ds \<and> spans_ok (length ?t) ds"
    using detect_Inr[OF det] by metis
  have ok: "spans_ok (length ?t) raw" by (rule assms(3)[OF raw])
  have ds: "ds = confidence_filter ?D (merge_overlapping raw)" "disjoint_spans ds" "spans_ok (length ?t) ds" using h[OF ok] by blast+
  have "r = concat (mask_spans 0 ?t ds)"
  proof (cases "ds = []")
    case True
    then show ?thesis using r by (simp add: codepoints_concat)
  next
    case False
    have "fold replace_span (rev ds) ?t = mask_spans 0 ?t ds"
      using foldr_replace[OF ds(2,3), of 0] by (simp add: foldr_conv_fold)
    then show ?thesis using r False reverse_sorted[OF ds(2,3)] by simp
  qed
  moreover have "set ds \<subseteq> {d \<in> set raw. dt_min_confidence ?D \<le> d_confidence d}"
    using ds(1) merge_overlapping_facts(2)[OF ok] by (auto simp: confidence_filter_def)
  moreover have "{d \<in> set raw. dt_min_confidence ?D \<le> d_confidence d \<and> (\<forall>y \<in> set raw. y \<noteq> d \<longrightarrow> \<not> overlaps d y)} \<subseteq> set ds"
    using ds(1) merge_overlapping_facts(3)[OF ok] by (auto simp: confidence_filter_def)
  ultimately show ?thesis using raw ds(2) by blast
qed

definition sample_engine :: pii_engine where
  "sample_engine = \<lparr>finditer = (\<lambda>ty t. if ty = ''email'' then [(3, 8)] else []), nlp_ents = (\<lambda>_. Inr [])\<rparr>"

definition mask_config :: pii_config where
  "mask_config = \<lparr>pc_mode = ''mask'', pc_sensitivity = None, pc_enabled_types = None, pc_min_confidence = None\<rparr>"

theorem masking_exact_witness:
  "\<exists>r raw ds. process_message sample_engine mask_config ''at a@b.c now'' = Inr r
    \<and> raw_detections sample_engine (detector_of mask_config) (codepoints ''at a@b.c now'') = Inr raw
    \<and> r = concat (mask_spans 0 (codepoints ''at a@b.c now'') ds) \<and> disjoint_spans ds"
proof -
  have raw: "raw_detections sample_engine (detector_of mask_config) t = Inr [\<lparr>d_type = ''email'', d_start = 3, d_end = 8, d_confidence = 95 / 100\<rparr>]" for t
    by (simp add: raw_detections_def scan_regex_def detector_of_def mask_config_def sample_engine_def DEFAULT_PII_TYPES_def)
  have ok: "spans_ok (length (codepoints ''at a@b.c now'')) ds"
    if "raw_detections sample_engine (detector_of mask_config) (codepoints ''at a@b.c now'') = Inr ds" for ds
    using that raw by (auto simp: spans_ok_def utf8_cont_def)
  obtain ds where "detect sample_engine (detector_of mask_config) (codepoints ''at a@b.c now'') = Inr ds"
    by (simp add: detect_def raw del: codepoints.simps)
  then obtain r where r: "process_message sample_engine mask_config ''at a@b.c now'' = Inr r"
    by (cases "ds = []") (auto simp: process_message_def redact_apply_def mask_config_def simp del: codepoints.simps)
  have "pc_mode mask_config = ''mask''" by (simp add: mask_config_def)
  from masking_exact[OF this r ok] r show ?thesis by blast
qed

text \<open>
  Merging can lose detections. When a longer span \<open>c\<close> begins inside \<open>a\<close>, it replaces \<open>a\<close>, and a third
  detection \<open>b\<close> inside the part of \<open>a\<close> before \<open>c\<close>, which had been dropped in favour of \<open>a\<close>, is lost with it:
  its text is left as it is. And as the confidence filter runs after the merge, a longer detection below
  the threshold removes the one above it and is then removed itself, so nothing is masked.
\<close>

theorem pii_detections_lost:
  assumes "d_start a < d_start b" "d_start b < d_end b" "d_end b \<le> d_start c" "d_start c < d_end a" "span a < span c"
  shows "merge_overlapping [a, b, c] = [c] \<and> \<not> overlaps b c
    \<and> (d_confidence c < dt_min_confidence D \<longrightarrow> dt_min_confidence D \<le> d_confidence a \<longrightarrow>
         confidence_filter D (merge_overlapping [a, c]) = [])"
  using assms by (auto simp: merge_overlapping_def by_start_longest_def span_def overlaps_def confidence_filter_def)

theorem pii_detections_lost_witness:
  "merge_overlapping [\<lparr>d_type = ''address'', d_start = 0, d_end = 10, d_confidence = 85 / 100\<rparr>,
       \<lparr>d_type = ''phone'', d_start = 2, d_end = 8, d_confidence = 95 / 100\<rparr>,
       \<lparr>d_type = ''organization'', d_start = 9, d_end = 30, d_confidence = 85 / 100\<rparr>]
     = [\<lparr>d_type = ''organization'', d_start = 9, d_end = 30, d_confidence = 85 / 100\<rparr>]
   \<and> confidence_filter \<lparr>dt_enabled_types = DEFAULT_PII_TYPES, dt_min_confidence = 9 / 10, dt_use_ner = True\<rparr>
       (merge_overlapping [\<lparr>d_type = ''email'', d_start = 0, d_end = 10, d_confidence = 95 / 100\<rparr>,
          \<lparr>d_type = ''organization'', d_start = 9, d_end = 30, d_confidence = 85 / 100\<rparr>]) = []"
proof -
  let ?b = "\<lparr>d_type = ''phone'', d_start = 2, d_end = 8, d_confidence = 95 / 100\<rparr>"
    and ?c = "\<lparr>d_type = ''organization'', d_start = 9, d_end = 30, d_confidence = 85 / 100\<rparr>"
  show ?thesis
    using pii_detections_lost[of "\<lparr>d_type = ''address'', d_start = 0, d_end = 10, d_confidence = 85 / 100\<rparr>" ?b ?c]
      pii_detections_lost[of "\<lparr>d_type = ''email'', d_start = 0, d_end = 10, d_confidence = 95 / 100\<rparr>" ?b ?c
        "\<lparr>dt_enabled_types = DEFAULT_PII_TYPES, dt_min_confidence = 9 / 10, dt_use_ner = True\<rparr>"]
    by (simp add: span_def)
qed

end
