(* ===== verification/Webhooks.thy ===== *)
theory Webhooks
  imports Job_Queue Sorting
begin

text \<open>
  Webhooks: the endpoint table and its repository (\<^verbatim>\<open>repositories/webhook_repository.py\<close>), the service
  that manages endpoints and fans events out to them (\<^verbatim>\<open>services/webhook_service.py\<close>), and the
  delivery task with its retries (\<^verbatim>\<open>services/worker/tasks/deliver_webhook.py\<close>). JSON, the HMAC, the
  Transit engine, the random tokens, the queue and the consumer's answers are parameters.
\<close>

section \<open>Endpoints\<close>

record webhook_endpoint =
  w_id :: uuid
  w_organization_id :: uuid
  w_name :: string
  w_url :: string
  w_events :: string
  w_is_active :: bool
  w_signing_secret :: "string option"
  w_last_delivery_at :: "datetime option"
  w_created_at :: datetime
  w_updated_at :: datetime

record transit_manager =
  encrypt_webhook_secret :: "uuid \<Rightarrow> string \<Rightarrow> string res"
  decrypt_webhook_secret :: "uuid \<Rightarrow> string \<Rightarrow> string res"

record 'p hook_lib =
  loads_events :: "string \<Rightarrow> string list option" \<comment> \<open>None: not JSON\<close>
  dumps_events :: "string list \<Rightarrow> string"
  dumps_body :: "string \<Rightarrow> 'p \<Rightarrow> string"
  empty_payload :: 'p
  hmac_sha256 :: "string \<Rightarrow> string \<Rightarrow> string"

section \<open>Repository\<close>

definition endpoint_by_id :: "uuid \<Rightarrow> webhook_endpoint list \<Rightarrow> webhook_endpoint option" where
  "endpoint_by_id i rows = List.find (\<lambda>e. w_id e = i) rows"

definition WEBHOOK_SORTABLE_COLUMNS :: "string \<rightharpoonup> string" where
  "WEBHOOK_SORTABLE_COLUMNS = [''name'' \<mapsto> ''name'', ''created_at'' \<mapsto> ''created_at'']"

definition endpoint_col :: "webhook_endpoint \<Rightarrow> string \<Rightarrow> sval" where
  "endpoint_col e c =
     (if c = ''name'' then SStr (w_name e) else if c = ''created_at'' then SInt (w_created_at e) else SInt (int (w_id e)))"

definition endpoints_by_organization :: "uuid \<Rightarrow> sort_spec option \<Rightarrow> webhook_endpoint list \<Rightarrow> webhook_endpoint list res" where
  "endpoints_by_organization org srt rows =
     (case effective (case srt of Some sp \<Rightarrow> sp | None \<Rightarrow> default_sort_spec) ''created_at'' ''desc'' of (req_sort, req_dir) \<Rightarrow>
        exc_bind (resolve_order_by WEBHOOK_SORTABLE_COLUMNS ''id'' (Some req_sort) req_dir ''created_at'' ''desc'') (\<lambda>ks.
          Inr (order_rows endpoint_col ks (filter (\<lambda>e. w_organization_id e = org) rows))))"

definition endpoint_create ::
  "'p hook_lib \<Rightarrow> datetime \<Rightarrow> uuid \<Rightarrow> string \<Rightarrow> string \<Rightarrow> string list option \<Rightarrow> string option \<Rightarrow> uuid
   \<Rightarrow> webhook_endpoint list \<Rightarrow> webhook_endpoint \<times> webhook_endpoint list" where
  "endpoint_create L db_time org name url events secret i rows =
     (let e = \<lparr>w_id = i, w_organization_id = org, w_name = name, w_url = url,
               w_events = dumps_events L (case events of Some es \<Rightarrow> es | None \<Rightarrow> []), w_is_active = True,
               w_signing_secret = secret, w_last_delivery_at = None, w_created_at = db_time, w_updated_at = db_time\<rparr>
      in (e, rows @ [e]))"

text \<open>The fields an update may carry; an absent one is left alone.\<close>

record endpoint_updates =
  up_events :: "string list option"
  up_name :: "string option"
  up_url :: "string option"
  up_is_active :: "bool option"
  up_last_delivery_at :: "datetime option option"
  up_signing_secret :: "string option"

definition no_updates :: endpoint_updates where
  "no_updates = \<lparr>up_events = None, up_name = None, up_url = None, up_is_active = None,
     up_last_delivery_at = None, up_signing_secret = None\<rparr>"

definition apply_updates :: "'p hook_lib \<Rightarrow> datetime \<Rightarrow> endpoint_updates \<Rightarrow> webhook_endpoint \<Rightarrow> webhook_endpoint" where
  "apply_updates L db_time u e =
     e\<lparr>w_events := (case up_events u of Some es \<Rightarrow> dumps_events L es | None \<Rightarrow> w_events e),
       w_name := (case up_name u of Some x \<Rightarrow> x | None \<Rightarrow> w_name e),
       w_url := (case up_url u of Some x \<Rightarrow> x | None \<Rightarrow> w_url e),
       w_is_active := (case up_is_active u of Some x \<Rightarrow> x | None \<Rightarrow> w_is_active e),
       w_last_delivery_at := (case up_last_delivery_at u of Some x \<Rightarrow> x | None \<Rightarrow> w_last_delivery_at e),
       w_signing_secret := (case up_signing_secret u of Some x \<Rightarrow> Some x | None \<Rightarrow> w_signing_secret e),
       w_updated_at := db_time\<rparr>"

definition endpoint_update ::
  "'p hook_lib \<Rightarrow> datetime \<Rightarrow> uuid \<Rightarrow> endpoint_updates \<Rightarrow> webhook_endpoint list \<Rightarrow> webhook_endpoint option \<times> webhook_endpoint list" where
  "endpoint_update L db_time i u rows =
     (if u = no_updates then (endpoint_by_id i rows, rows)
      else (let rows' = map (\<lambda>e. if w_id e = i then apply_updates L db_time u e else e) rows
            in (endpoint_by_id i rows', rows')))"

definition endpoint_delete :: "uuid \<Rightarrow> webhook_endpoint list \<Rightarrow> bool \<times> webhook_endpoint list" where
  "endpoint_delete i rows =
     (case endpoint_by_id i rows of
        None \<Rightarrow> (False, rows)
      | Some _ \<Rightarrow> (True, filter (\<lambda>e. w_id e \<noteq> i) rows))"

definition set_signing_secret_if_null :: "datetime \<Rightarrow> uuid \<Rightarrow> string \<Rightarrow> webhook_endpoint list \<Rightarrow> nat \<times> webhook_endpoint list" where
  "set_signing_secret_if_null db_time i secret rows =
     (length (filter (\<lambda>e. w_id e = i \<and> w_signing_secret e = None) rows),
      map (\<lambda>e. if w_id e = i \<and> w_signing_secret e = None
               then e\<lparr>w_signing_secret := Some secret, w_updated_at := db_time\<rparr> else e) rows)"

definition endpoint_subscribes_to :: "'p hook_lib \<Rightarrow> webhook_endpoint \<Rightarrow> string \<Rightarrow> bool" where
  "endpoint_subscribes_to L e event_type =
     (case loads_events L (w_events e) of
        None \<Rightarrow> False
      | Some subscribed \<Rightarrow> if subscribed = [] then True else event_type \<in> set subscribed)"

definition get_active_endpoints_for_event ::
  "'p hook_lib \<Rightarrow> uuid \<Rightarrow> string \<Rightarrow> webhook_endpoint list \<Rightarrow> webhook_endpoint list" where
  "get_active_endpoints_for_event L org event_type rows =
     filter (\<lambda>e. endpoint_subscribes_to L e event_type) (filter (\<lambda>e. w_organization_id e = org \<and> w_is_active e) rows)"

section \<open>Secrets\<close>

definition is_transit_ciphertext :: "string \<Rightarrow> bool" where
  "is_transit_ciphertext v \<longleftrightarrow> take 7 v = ''vault:v''"

definition sign_payload :: "'p hook_lib \<Rightarrow> int \<Rightarrow> string \<Rightarrow> string \<Rightarrow> string" where
  "sign_payload L now_s secret body =
     (let timestamp = py_str_int now_s
      in ''t='' @ timestamp @ '',v1='' @ hmac_sha256 L secret (timestamp @ ''.'' @ body))"

definition encrypt_secret :: "transit_manager option \<Rightarrow> uuid \<Rightarrow> string \<Rightarrow> string res" where
  "encrypt_secret T i secret =
     (case T of
        None \<Rightarrow> Inl ExternalServiceError
      | Some tm \<Rightarrow> (case encrypt_webhook_secret tm i secret of Inl _ \<Rightarrow> Inl ExternalServiceError | Inr c \<Rightarrow> Inr c))"

definition decrypt_secret_value :: "transit_manager option \<Rightarrow> uuid \<Rightarrow> string option \<Rightarrow> string option" where
  "decrypt_secret_value T i raw =
     (case raw of
        None \<Rightarrow> None
      | Some v \<Rightarrow>
          if v = [] then None
          else if \<not> is_transit_ciphertext v then Some v
          else (case T of
                  None \<Rightarrow> None
                | Some tm \<Rightarrow> (case decrypt_webhook_secret tm i v of Inl _ \<Rightarrow> None | Inr s \<Rightarrow> Some s)))"

section \<open>Endpoint management\<close>

definition owned :: "uuid \<Rightarrow> uuid \<Rightarrow> webhook_endpoint list \<Rightarrow> webhook_endpoint option" where
  "owned i org rows =
     (case endpoint_by_id i rows of
        None \<Rightarrow> None
      | Some e \<Rightarrow> if w_organization_id e \<noteq> org then None else Some e)"

definition list_endpoints :: "uuid \<Rightarrow> sort_spec option \<Rightarrow> webhook_endpoint list \<Rightarrow> webhook_endpoint list res" where
  "list_endpoints org srt rows = endpoints_by_organization org srt rows"

definition get_endpoint :: "uuid \<Rightarrow> uuid \<Rightarrow> webhook_endpoint list \<Rightarrow> webhook_endpoint option" where
  "get_endpoint i org rows = owned i org rows"

definition create_endpoint ::
  "'p hook_lib \<Rightarrow> transit_manager option \<Rightarrow> datetime \<Rightarrow> uuid \<Rightarrow> string \<Rightarrow> uuid \<Rightarrow> string \<Rightarrow> string \<Rightarrow> string list option
   \<Rightarrow> webhook_endpoint list \<Rightarrow> ((webhook_endpoint \<times> string) \<times> webhook_endpoint list) res" where
  "create_endpoint L T db_time new_id token org name url events rows =
     exc_bind (encrypt_secret T new_id token) (\<lambda>ciphertext.
       case endpoint_create L db_time org name url events (Some ciphertext) new_id rows of
         (e, rows') \<Rightarrow> Inr ((e, token), rows'))"

definition rotate_endpoint_secret ::
  "'p hook_lib \<Rightarrow> transit_manager option \<Rightarrow> datetime \<Rightarrow> string \<Rightarrow> uuid \<Rightarrow> uuid
   \<Rightarrow> webhook_endpoint list \<Rightarrow> (string option \<times> webhook_endpoint list) res" where
  "rotate_endpoint_secret L T db_time token i org rows =
     (case owned i org rows of
        None \<Rightarrow> Inr (None, rows)
      | Some _ \<Rightarrow>
          exc_bind (encrypt_secret T i token) (\<lambda>ciphertext.
            Inr (Some token, snd (endpoint_update L db_time i (no_updates\<lparr>up_signing_secret := Some ciphertext\<rparr>) rows))))"

definition update_endpoint ::
  "'p hook_lib \<Rightarrow> transit_manager option \<Rightarrow> datetime \<Rightarrow> uuid \<Rightarrow> uuid \<Rightarrow> endpoint_updates
   \<Rightarrow> webhook_endpoint list \<Rightarrow> (webhook_endpoint option \<times> webhook_endpoint list) res" where
  "update_endpoint L T db_time i org u rows =
     (case owned i org rows of
        None \<Rightarrow> Inr (None, rows)
      | Some _ \<Rightarrow>
          (case up_signing_secret u of
             None \<Rightarrow> Inr (endpoint_update L db_time i u rows)
           | Some raw \<Rightarrow>
               exc_bind (encrypt_secret T i raw) (\<lambda>ciphertext.
                 Inr (endpoint_update L db_time i (u\<lparr>up_signing_secret := Some ciphertext\<rparr>) rows))))"

definition toggle_endpoint ::
  "'p hook_lib \<Rightarrow> datetime \<Rightarrow> uuid \<Rightarrow> uuid \<Rightarrow> bool \<Rightarrow> webhook_endpoint list \<Rightarrow> webhook_endpoint option \<times> webhook_endpoint list" where
  "toggle_endpoint L db_time i org active rows =
     (case owned i org rows of
        None \<Rightarrow> (None, rows)
      | Some _ \<Rightarrow> endpoint_update L db_time i (no_updates\<lparr>up_is_active := Some active\<rparr>) rows)"

definition delete_endpoint :: "uuid \<Rightarrow> uuid \<Rightarrow> webhook_endpoint list \<Rightarrow> bool \<times> webhook_endpoint list" where
  "delete_endpoint i org rows =
     (case owned i org rows of None \<Rightarrow> (False, rows) | Some _ \<Rightarrow> endpoint_delete i rows)"

section \<open>Emission\<close>

record hook_job =
  hj_task :: string
  hj_queue :: string
  hj_endpoint_id :: uuid
  hj_url :: string
  hj_body :: string
  hj_event_type :: string
  hj_signature :: string

record 'q hook_state =
  h_endpoints :: "webhook_endpoint list"
  h_queue :: 'q

definition delivery_job :: "'p hook_lib \<Rightarrow> int \<Rightarrow> string \<Rightarrow> string \<Rightarrow> string \<Rightarrow> webhook_endpoint \<Rightarrow> string \<Rightarrow> hook_job" where
  "delivery_job L now_s qname body event_type ep plaintext =
     \<lparr>hj_task = ''deliver_webhook'', hj_queue = qname, hj_endpoint_id = w_id ep, hj_url = w_url ep,
      hj_body = body, hj_event_type = event_type, hj_signature = sign_payload L now_s plaintext body\<rparr>"

text \<open>
  The key to sign with: the stored secret, decrypted, or for a row without one a fresh secret
  that is written if the column is still NULL, else the secret found there.
\<close>

definition signing_key ::
  "transit_manager option \<Rightarrow> datetime \<Rightarrow> (uuid \<Rightarrow> string) \<Rightarrow> webhook_endpoint \<Rightarrow> webhook_endpoint list
   \<Rightarrow> string option res \<times> webhook_endpoint list" where
  "signing_key T db_time token ep rows =
     (case w_signing_secret ep of
        Some (c # cs) \<Rightarrow> (Inr (decrypt_secret_value T (w_id ep) (Some (c # cs))), rows)
      | _ \<Rightarrow>
          (if T = None then (Inr None, rows)
           else (case encrypt_secret T (w_id ep) (token (w_id ep)) of
                   Inl e \<Rightarrow> (Inl e, rows)
                 | Inr stored \<Rightarrow>
                     (case set_signing_secret_if_null db_time (w_id ep) stored rows of (n, rows') \<Rightarrow>
                        if n = 0 then
                          (case endpoint_by_id (w_id ep) rows' of
                             None \<Rightarrow> (Inr None, rows')
                           | Some refreshed \<Rightarrow>
                               if w_signing_secret refreshed = None \<or> w_signing_secret refreshed = Some [] then (Inr None, rows')
                               else (Inr (decrypt_secret_value T (w_id ep) (w_signing_secret refreshed)), rows'))
                        else (Inr (Some (token (w_id ep))), rows')))))"

definition enqueue_one ::
  "'p hook_lib \<Rightarrow> transit_manager option \<Rightarrow> (hook_job \<Rightarrow> ('q, unit) sx) \<Rightarrow> datetime \<Rightarrow> int \<Rightarrow> (uuid \<Rightarrow> string)
   \<Rightarrow> string \<Rightarrow> string \<Rightarrow> string \<Rightarrow> webhook_endpoint \<Rightarrow> ('q hook_state, unit) sx" where
  "enqueue_one L T enqueue db_time now_s token qname body event_type ep s =
     (case signing_key T db_time token ep (h_endpoints s) of (r, rows) \<Rightarrow>
        let t = s\<lparr>h_endpoints := rows\<rparr> in
        case r of
          Inl e \<Rightarrow> (Inl e, t)
        | Inr None \<Rightarrow> (Inr (), t)
        | Inr (Some plaintext) \<Rightarrow>
            (case enqueue (delivery_job L now_s qname body event_type ep plaintext) (h_queue t) of
               (q, queue) \<Rightarrow> (q, t\<lparr>h_queue := queue\<rparr>)))"

text \<open>\<^verbatim>\<open>asyncio.gather\<close>: every coroutine runs to its end; the first exception is the result.\<close>

fun gather :: "('x \<Rightarrow> ('s, unit) sx) \<Rightarrow> 'x list \<Rightarrow> ('s, unit) sx" where
  "gather f [] s = (Inr (), s)"
| "gather f (x # xs) s =
     (case f x s of (r, t) \<Rightarrow> case gather f xs t of (q, u) \<Rightarrow> (exc_bind r (\<lambda>_. q), u))"

definition emit ::
  "'p hook_lib \<Rightarrow> transit_manager option \<Rightarrow> (hook_job \<Rightarrow> ('q, unit) sx) option \<Rightarrow> string \<Rightarrow> datetime \<Rightarrow> int \<Rightarrow> (uuid \<Rightarrow> string)
   \<Rightarrow> uuid \<Rightarrow> string \<Rightarrow> 'p option \<Rightarrow> 'q hook_state \<Rightarrow> bool \<times> 'q hook_state" where
  "emit L T arq env db_time now_s token org event_type payload s =
     (let endpoints = get_active_endpoints_for_event L org event_type (h_endpoints s) in
      if endpoints = [] then (True, s)
      else
        (let body = dumps_body L event_type (case payload of Some p \<Rightarrow> p | None \<Rightarrow> empty_payload L) in
         case arq of
           None \<Rightarrow> (False, s)
         | Some enqueue \<Rightarrow>
             (case get_queue_name env ''low'' of
                Inl _ \<Rightarrow> (False, s)
              | Inr qname \<Rightarrow>
                  (case gather (enqueue_one L T enqueue db_time now_s token qname body event_type) endpoints s of
                     (Inl _, t) \<Rightarrow> (False, t)
                   | (Inr _, t) \<Rightarrow> (True, t)))))"

section \<open>Delivery\<close>

definition MAX_ATTEMPTS :: nat where "MAX_ATTEMPTS = 5"

text \<open>What the consumer does with one POST.\<close>

datatype answer = Status int | Timeout | NetworkError

record delivery_log =
  dl_attempt :: nat
  dl_status :: "int option"
  dl_success :: bool
  dl_error :: bool

datatype verdict = Finished | RetryIn nat

definition retry_or_stop :: "nat \<Rightarrow> verdict" where
  "retry_or_stop attempt = (if attempt < MAX_ATTEMPTS then RetryIn (2 ^ (attempt - 1)) else Finished)"

definition deliver_webhook :: "nat \<Rightarrow> answer \<Rightarrow> verdict \<times> delivery_log" where
  "deliver_webhook attempt a =
     (case a of
        Status c \<Rightarrow>
          (let success = (200 \<le> c \<and> c < 300);
               entry = \<lparr>dl_attempt = attempt, dl_status = Some c, dl_success = success, dl_error = \<not> success\<rparr>
           in if success then (Finished, entry)
              else if 400 \<le> c \<and> c < 500 then (Finished, entry)
              else if c \<ge> 500 \<and> attempt < MAX_ATTEMPTS then (RetryIn (2 ^ (attempt - 1)), entry)
              else (Finished, entry))
      | _ \<Rightarrow> (retry_or_stop attempt, \<lparr>dl_attempt = attempt, dl_status = None, dl_success = False, dl_error = True\<rparr>))"

text \<open>
  The worker runs the job again after a \<^verbatim>\<open>Retry\<close>, with the next value of its try counter; the
  consumer's answers are given per try. The result is the log and the waits between the tries.
\<close>

function run_delivery :: "(nat \<Rightarrow> answer) \<Rightarrow> nat \<Rightarrow> delivery_log list \<times> nat list" where
  "run_delivery answers attempt =
     (case deliver_webhook attempt (answers attempt) of
        (Finished, entry) \<Rightarrow> ([entry], [])
      | (RetryIn d, entry) \<Rightarrow>
          (case run_delivery answers (Suc attempt) of (es, ds) \<Rightarrow> (entry # es, d # ds)))"
  by pat_completeness auto
termination
  by (relation "measure (\<lambda>(_, attempt). MAX_ATTEMPTS - attempt)")
    (auto simp: deliver_webhook_def retry_or_stop_def Let_def split: answer.splits if_splits)

declare run_delivery.simps [simp del]

section \<open>The fan-out\<close>

text \<open>A row that got its first secret.\<close>

definition fill :: "transit_manager option \<Rightarrow> datetime \<Rightarrow> (uuid \<Rightarrow> string) \<Rightarrow> webhook_endpoint \<Rightarrow> webhook_endpoint" where
  "fill T db_time token e =
     (case encrypt_secret T (w_id e) (token (w_id e)) of
        Inl _ \<Rightarrow> e
      | Inr c \<Rightarrow> e\<lparr>w_signing_secret := Some c, w_updated_at := db_time\<rparr>)"

lemma fill_keeps [simp]:
  "w_id (fill T d tok e) = w_id e" "w_organization_id (fill T d tok e) = w_organization_id e"
  "w_is_active (fill T d tok e) = w_is_active e" "w_events (fill T d tok e) = w_events e" "w_url (fill T d tok e) = w_url e"
  by (simp_all add: fill_def split: sum.split)

definition good_transit :: "transit_manager \<Rightarrow> bool" where
  "good_transit tm \<longleftrightarrow>
     (\<forall>i s. \<exists>c. encrypt_webhook_secret tm i s = Inr c \<and> is_transit_ciphertext c \<and> decrypt_webhook_secret tm i c = Inr s)"

definition backfill :: "transit_manager option \<Rightarrow> datetime \<Rightarrow> (uuid \<Rightarrow> string) \<Rightarrow> uuid set \<Rightarrow> webhook_endpoint \<Rightarrow> webhook_endpoint" where
  "backfill T d tok I e = (if w_id e \<in> I \<and> w_signing_secret e = None then fill T d tok e else e)"

lemma backfill_keeps [simp]:
  "w_id (backfill T d tok I e) = w_id e" "w_organization_id (backfill T d tok I e) = w_organization_id e"
  "w_is_active (backfill T d tok I e) = w_is_active e" "w_events (backfill T d tok I e) = w_events e"
  by (simp_all add: backfill_def)

lemma find_unique:
  assumes "distinct (map w_id rows)" and "e \<in> set rows"
  shows "endpoint_by_id (w_id e) rows = Some e"
  using assms unfolding endpoint_by_id_def by (induction rows) (auto simp: image_iff)

lemma map_unless_id: "(\<And>e. e \<in> set rows \<Longrightarrow> \<not> P e) \<Longrightarrow> map (\<lambda>e. if P e then g e else e) rows = rows"
  by (induction rows) auto

lemma map_backfill_id:
  "(\<And>e. e \<in> set rows \<Longrightarrow> w_id e \<in> I \<Longrightarrow> w_signing_secret e \<noteq> None) \<Longrightarrow> map (backfill T d tok I) rows = rows"
  unfolding backfill_def by (intro map_unless_id) auto

text \<open>The key an endpoint's delivery is signed with, and what looking it up leaves in the table.\<close>

lemma signing_key_row:
  assumes "good_transit tm" and ids: "distinct (map w_id rows)" "ep \<in> set rows"
  shows "signing_key (Some tm) d tok ep rows =
     (Inr (decrypt_secret_value (Some tm) (w_id ep) (w_signing_secret (backfill (Some tm) d tok {w_id ep} ep))),
      map (backfill (Some tm) d tok {w_id ep}) rows)"
proof -
  obtain c where c: "encrypt_webhook_secret tm (w_id ep) (tok (w_id ep)) = Inr c" "is_transit_ciphertext c"
      "decrypt_webhook_secret tm (w_id ep) c = Inr (tok (w_id ep))"
    using assms(1) unfolding good_transit_def by blast
  then have cne: "c \<noteq> []" by (auto simp: is_transit_ciphertext_def)
  have one: "e = ep" if "e \<in> set rows" "w_id e = w_id ep" for e
    using ids that by (metis find_unique option.inject)
  have same_secret: "w_signing_secret e = w_signing_secret ep" if "e \<in> set rows" "w_id e = w_id ep" for e using one[OF that] by simp
  consider (none) "w_signing_secret ep = None" | (empty) "w_signing_secret ep = Some []"
    | (stored) x xs where "w_signing_secret ep = Some (x # xs)" 
    by (cases "w_signing_secret ep"; cases "the (w_signing_secret ep)") auto
  then show ?thesis
  proof cases
    case none
    have "ep \<in> set (filter (\<lambda>e. w_id e = w_id ep \<and> w_signing_secret e = None) rows)" using ids(2) none by simp
    then have pos: "length (filter (\<lambda>e. w_id e = w_id ep \<and> w_signing_secret e = None) rows) \<noteq> 0" by (metis length_0_conv empty_iff list.set(1))
    have "map (\<lambda>e. if w_id e = w_id ep \<and> w_signing_secret e = None then e\<lparr>w_signing_secret := Some c, w_updated_at := d\<rparr> else e) rows
        = map (backfill (Some tm) d tok {w_id ep}) rows"
      using c(1) one by (auto simp: backfill_def fill_def encrypt_secret_def)
    then show ?thesis using none pos c cne
      by (simp add: signing_key_def set_signing_secret_if_null_def encrypt_secret_def backfill_def fill_def decrypt_secret_value_def)
  next
    case empty
    have no: "filter (\<lambda>e. w_id e = w_id ep \<and> w_signing_secret e = None) rows = []"
      using one empty by (auto simp: filter_empty_conv)
    have same: "map (\<lambda>e. if w_id e = w_id ep \<and> w_signing_secret e = None then e\<lparr>w_signing_secret := Some c, w_updated_at := d\<rparr> else e) rows = rows"
      "map (backfill (Some tm) d tok {w_id ep}) rows = rows"
      using empty same_secret by (intro map_unless_id map_backfill_id; auto)+
    show ?thesis using empty no same c(1) find_unique[OF ids]
      by (simp add: signing_key_def set_signing_secret_if_null_def encrypt_secret_def backfill_def decrypt_secret_value_def)
  next
    case stored
    have "map (backfill (Some tm) d tok {w_id ep}) rows = rows" using stored same_secret by (intro map_backfill_id) auto
    then show ?thesis using stored by (simp add: signing_key_def backfill_def)
  qed
qed

text \<open>The jobs a table stands for: one per endpoint with a usable secret, signed with it.\<close>

definition jobs_for ::
  "'p hook_lib \<Rightarrow> transit_manager option \<Rightarrow> int \<Rightarrow> string \<Rightarrow> string \<Rightarrow> string \<Rightarrow> webhook_endpoint list \<Rightarrow> hook_job list" where
  "jobs_for L T now_s qname body event_type eps =
     List.map_filter (\<lambda>e. map_option (delivery_job L now_s qname body event_type e)
       (decrypt_secret_value T (w_id e) (w_signing_secret e))) eps"

lemma delivery_job_cong:
  "w_id e = w_id e' \<Longrightarrow> w_url e = w_url e' \<Longrightarrow> delivery_job L n q b t e = delivery_job L n q b t e'"
  by (rule ext) (simp add: delivery_job_def)

lemma jobs_for_Cons: "jobs_for L T n q b t (e # eps) = jobs_for L T n q b t [e] @ jobs_for L T n q b t eps"
  by (simp add: jobs_for_def map_filter_simps split: option.split)

lemma backfill_twice:
  "i \<notin> I \<Longrightarrow> backfill T d tok I (backfill T d tok {i} e) = backfill T d tok (insert i I) e"
  by (auto simp: backfill_def fill_def split: sum.split)

lemma gather_fan_out:
  assumes queue: "arq_queue enqueue jobs" "\<And>j q. \<exists>u. fst (enqueue j q) = Inr u" and "good_transit tm"
    and "distinct (map w_id (h_endpoints s))" and "set eps \<subseteq> set (h_endpoints s)" and "distinct (map w_id eps)"
  shows "\<exists>t. gather (enqueue_one L (Some tm) enqueue d n tok qname body ev) eps s = (Inr (), t)
     \<and> jobs (h_queue t) = jobs (h_queue s)
          @ jobs_for L (Some tm) n qname body ev (map (backfill (Some tm) d tok (w_id ` set eps)) eps)
     \<and> h_endpoints t = map (backfill (Some tm) d tok (w_id ` set eps)) (h_endpoints s)"
  using assms(4-)
proof (induction eps arbitrary: s)
  case Nil
  have "backfill (Some tm) d tok {} = (\<lambda>e. e)" by (rule ext) (simp add: backfill_def)
  then show ?case by (simp add: jobs_for_def map_filter_simps)
next
  case (Cons ep eps)
  let ?T = "Some tm" and ?rows = "h_endpoints s"
  let ?b = "backfill ?T d tok {w_id ep}"
  let ?k = "decrypt_secret_value ?T (w_id ep) (w_signing_secret (?b ep))"
  have key: "signing_key ?T d tok ep ?rows = (Inr ?k, map ?b ?rows)"
    using signing_key_row[OF assms(3) Cons.prems(1)] Cons.prems(2) by simp
  have keep: "?b e = e" if "e \<in> set eps" for e 
  proof -
    have "w_id e \<noteq> w_id ep" using Cons.prems(3) that by (metis distinct.simps(2) image_eqI list.map(2) set_map)
    then show ?thesis by (simp add: backfill_def)
  qed
  have "\<exists>u. enqueue_one L ?T enqueue d n tok qname body ev ep s = (Inr (), u) \<and> h_endpoints u = map ?b ?rows
      \<and> jobs (h_queue u) = jobs (h_queue s) @ jobs_for L ?T n qname body ev [?b ep]"
  proof (cases ?k)
    case None
    then show ?thesis using key by (simp add: enqueue_one_def Let_def jobs_for_def map_filter_simps)
  next
    case (Some k)
    let ?j = "delivery_job L n qname body ev ep k"
    obtain u q where q: "enqueue ?j (h_queue s) = (Inr u, q)" using queue(2) by (metis prod.collapse)
    have "delivery_job L n qname body ev (?b ep) k = ?j" by (simp add: delivery_job_def backfill_def)
    then show ?thesis using Some key q arq_queue.enqueue_ok[OF queue(1) q]
      by (auto simp: enqueue_one_def Let_def jobs_for_def map_filter_simps)
  qed
  then obtain u where u: "enqueue_one L ?T enqueue d n tok qname body ev ep s = (Inr (), u)" "h_endpoints u = map ?b ?rows"
      "jobs (h_queue u) = jobs (h_queue s) @ jobs_for L ?T n qname body ev [?b ep]" by blast
  have ids: "distinct (map w_id (h_endpoints u))" using Cons.prems(1) u(2) by (simp add: comp_def)
  have sub: "set eps \<subseteq> set (h_endpoints u)" using Cons.prems(2) keep u(2) by (auto simp: image_iff) (metis subsetD)
  have dist: "distinct (map w_id eps)" and new: "w_id ep \<notin> w_id ` set eps" using Cons.prems(3) by auto
  from Cons.IH[OF ids sub dist] obtain t where
    t: "gather (enqueue_one L ?T enqueue d n tok qname body ev) eps u = (Inr (), t)"
      "jobs (h_queue t) = jobs (h_queue u) @ jobs_for L ?T n qname body ev (map (backfill ?T d tok (w_id ` set eps)) eps)"
      "h_endpoints t = map (backfill ?T d tok (w_id ` set eps)) (h_endpoints u)" by blast
  let ?B = "backfill ?T d tok (w_id ` set (ep # eps))"
  have rows: "h_endpoints t = map ?B ?rows"
    using t(3) u(2) by (simp add: comp_def backfill_twice[OF new])
  have eps: "map (backfill ?T d tok (w_id ` set eps)) eps = map ?B eps" and ep: "?b ep = ?B ep"
    by (auto simp: backfill_def)
  have "jobs (h_queue t) = jobs (h_queue s) @ jobs_for L ?T n qname body ev (map ?B (ep # eps))"
    unfolding t(2) u(3) eps ep list.map(2) by (subst (2) jobs_for_Cons) simp
  then show ?case using u(1) t(1) rows by simp
qed

section \<open>Deliveries\<close>

definition retryable :: "answer \<Rightarrow> bool" where
  "retryable a = (case a of Status c \<Rightarrow> c \<ge> 500 | _ \<Rightarrow> True)"

definition accepted :: "answer \<Rightarrow> bool" where
  "accepted a = (case a of Status c \<Rightarrow> 200 \<le> c \<and> c < 300 | _ \<Rightarrow> False)"

lemma deliver_webhook_verdict:
  "fst (deliver_webhook n a) = (if retryable a \<and> n < MAX_ATTEMPTS then RetryIn (2 ^ (n - 1)) else Finished)"
  "dl_attempt (snd (deliver_webhook n a)) = n" "dl_success (snd (deliver_webhook n a)) = accepted a"
  by (auto simp: deliver_webhook_def retryable_def accepted_def retry_or_stop_def Let_def split: answer.split)

lemma run_delivery_step:
  "run_delivery answers n =
     (if retryable (answers n) \<and> n < MAX_ATTEMPTS
      then (case run_delivery answers (Suc n) of (es, ds) \<Rightarrow> (snd (deliver_webhook n (answers n)) # es, 2 ^ (n - 1) # ds))
      else ([snd (deliver_webhook n (answers n))], []))"
proof -
  obtain v entry where v: "deliver_webhook n (answers n) = (v, entry)" by fastforce
  then show ?thesis using deliver_webhook_verdict(1)[of n "answers n"]
    by (subst run_delivery.simps) (simp split: if_splits prod.split)
qed

text \<open>How many tries a delivery takes from a given one on: up to the first answer that is final.\<close>

lemma run_delivery_shape:
  assumes "n \<le> MAX_ATTEMPTS"
  obtains m where "n \<le> m" "m \<le> MAX_ATTEMPTS"
    "run_delivery answers n = (map (\<lambda>i. snd (deliver_webhook i (answers i))) [n ..< Suc m], map (\<lambda>i. 2 ^ (i - 1)) [n ..< m])"
    "\<forall>i. n \<le> i \<and> i < m \<longrightarrow> retryable (answers i)" "m = MAX_ATTEMPTS \<or> \<not> retryable (answers m)"
proof -
  have "\<exists>m. n \<le> m \<and> m \<le> MAX_ATTEMPTS
      \<and> run_delivery answers n = (map (\<lambda>i. snd (deliver_webhook i (answers i))) [n ..< Suc m], map (\<lambda>i. 2 ^ (i - 1)) [n ..< m])
      \<and> (\<forall>i. n \<le> i \<and> i < m \<longrightarrow> retryable (answers i)) \<and> (m = MAX_ATTEMPTS \<or> \<not> retryable (answers m))"
    using assms
  proof (induction "MAX_ATTEMPTS - n" arbitrary: n)
    case 0
    then have "n = MAX_ATTEMPTS" by simp
    then have "run_delivery answers n = ([snd (deliver_webhook n (answers n))], [])" by (subst run_delivery_step) simp
    then show ?case using \<open>n = MAX_ATTEMPTS\<close> by (intro exI[of _ n]) auto
  next
    case (Suc k)
    then have lt: "n < MAX_ATTEMPTS" by simp
    show ?case
    proof (cases "retryable (answers n)")
      case False
      then have "run_delivery answers n = ([snd (deliver_webhook n (answers n))], [])" by (subst run_delivery_step) simp
      then show ?thesis using False lt by (intro exI[of _ n]) auto
    next
      case True
      obtain m where m: "Suc n \<le> m" "m \<le> MAX_ATTEMPTS"
        "run_delivery answers (Suc n) = (map (\<lambda>i. snd (deliver_webhook i (answers i))) [Suc n ..< Suc m], map (\<lambda>i. 2 ^ (i - 1)) [Suc n ..< m])"
        "\<forall>i. Suc n \<le> i \<and> i < m \<longrightarrow> retryable (answers i)" "m = MAX_ATTEMPTS \<or> \<not> retryable (answers m)"
      proof -
        have "k = MAX_ATTEMPTS - Suc n" "Suc n \<le> MAX_ATTEMPTS" using Suc.hyps(2) lt by simp_all
        then show ?thesis using Suc.hyps(1)[of "Suc n"] that by blast
      qed
      have "run_delivery answers n = (map (\<lambda>i. snd (deliver_webhook i (answers i))) (n # [Suc n ..< Suc m]), map (\<lambda>i. 2 ^ (i - 1)) (n # [Suc n ..< m]))"
        using True lt m(3) by (subst run_delivery_step) simp
      moreover have "n # [Suc n ..< Suc m] = [n ..< Suc m]" "n # [Suc n ..< m] = [n ..< m]" using m(1) by (simp_all add: upt_conv_Cons)
      ultimately show ?thesis using m True by (intro exI[of _ m]) (metis Suc_leD le_neq_implies_less Suc_leI)
    qed
  qed
  then show ?thesis using that by blast
qed

text \<open>The backfill of a selection changes selected rows without a secret only.\<close>

lemma backfilled_rows:
  assumes "distinct (map w_id rows)"
  shows "list_all2 (\<lambda>e e'. e' = e \<or> (sel e \<and> w_signing_secret e = None \<and> e' = fill T d tok e))
    rows (map (backfill T d tok (w_id ` set (filter sel rows))) rows)"
proof -
  let ?B = "backfill T d tok (w_id ` set (filter sel rows))"
  have here: "sel e" if e: "e \<in> set rows" and i: "w_id e \<in> w_id ` set (filter sel rows)" for e
  proof -
    obtain e' where e': "e' \<in> set rows" "sel e'" "w_id e = w_id e'" using i by auto
    then have "e = e'" using find_unique[OF assms e'(1)] find_unique[OF assms e] by simp
    then show ?thesis using e'(2) by simp
  qed
  show ?thesis unfolding list_all2_map2
  proof (rule list.rel_refl_strong)
    fix e
    assume e: "e \<in> set rows"
    show "?B e = e \<or> (sel e \<and> w_signing_secret e = None \<and> ?B e = fill T d tok e)"
    proof (cases "w_id e \<in> w_id ` set (filter sel rows) \<and> w_signing_secret e = None")
      case True
      then have "?B e = fill T d tok e" unfolding backfill_def by (rule if_P)
      then show ?thesis using here[OF e] True by blast
    next
      case False
      then have "?B e = e" unfolding backfill_def by (rule if_not_P)
      then show ?thesis by (rule disjI1)
    qed
  qed
qed

section \<open>Properties\<close>


text \<open>
  C37: a delivery is tried at most five times. The tries are numbered from one and each is logged;
  they go on after a server error, a timeout or a network error only, with waits of one, two, four
  and eight seconds, and the delivery succeeds exactly when the last try is answered with a
  2xx status.
\<close>

theorem webhook_delivery_bounded:
  "\<exists>m. 1 \<le> m \<and> m \<le> 5
     \<and> map dl_attempt (fst (run_delivery answers 1)) = [1 ..< Suc m]
     \<and> snd (run_delivery answers 1) = take (m - 1) [1, 2, 4, 8]
     \<and> map dl_success (fst (run_delivery answers 1)) = replicate (m - 1) False @ [accepted (answers m)]
     \<and> (\<forall>i. 1 \<le> i \<and> i < m \<longrightarrow> retryable (answers i)) \<and> (m = 5 \<or> \<not> retryable (answers m))"
proof -
  obtain m where m: "1 \<le> m" "m \<le> MAX_ATTEMPTS"
    "run_delivery answers 1 = (map (\<lambda>i. snd (deliver_webhook i (answers i))) [1 ..< Suc m], map (\<lambda>i. 2 ^ (i - 1)) [1 ..< m])"
    "\<forall>i. 1 \<le> i \<and> i < m \<longrightarrow> retryable (answers i)" "m = MAX_ATTEMPTS \<or> \<not> retryable (answers m)"
    by (rule run_delivery_shape[of 1 answers]) (auto simp: MAX_ATTEMPTS_def)
  have "\<not> accepted a" if "retryable a" for a using that by (auto simp: retryable_def accepted_def split: answer.splits)
  then have "map (\<lambda>i. accepted (answers i)) [1 ..< m] = replicate (m - 1) False"
    using m(4) by (intro nth_equalityI) auto
  moreover have "[1 ..< Suc m] = [1 ..< m] @ [m]" using m(1) by simp
  ultimately have s: "map dl_success (fst (run_delivery answers 1)) = replicate (m - 1) False @ [accepted (answers m)]"
    using m(3) by (simp add: comp_def deliver_webhook_verdict)
  have "m \<in> {1, 2, 3, 4, 5}" using m(1,2) by (auto simp: MAX_ATTEMPTS_def)
  then have "map (\<lambda>i. 2 ^ (i - 1)) [1 ..< m] = take (m - 1) [1, 2, 4, 8 :: nat]" by (auto simp: upt_rec)
  then show ?thesis using m s
    by (intro exI[of _ m]) (simp add: comp_def deliver_webhook_verdict MAX_ATTEMPTS_def)
qed

theorem webhook_delivery_bounded_witness:
  "map dl_attempt (fst (run_delivery (\<lambda>i. if i = 1 then Status 503 else Status 204) 1)) = [1, 2]
   \<and> snd (run_delivery (\<lambda>i. if i = 1 then Status 503 else Status 204) 1) = [1]"
proof -
  let ?answers = "\<lambda>i. if i = (1 :: nat) then Status 503 else Status 204"
  obtain m where m: "1 \<le> m" "m \<le> 5" "map dl_attempt (fst (run_delivery ?answers 1)) = [1 ..< Suc m]"
      "snd (run_delivery ?answers 1) = take (m - 1) [1, 2, 4, 8]"
      "\<forall>i. 1 \<le> i \<and> i < m \<longrightarrow> retryable (?answers i)" "m = 5 \<or> \<not> retryable (?answers m)"
    using webhook_delivery_bounded[of ?answers] by blast
  have "m \<noteq> 1" using m(6) by (auto simp: retryable_def)
  moreover have "\<not> 2 < m" using m(5)[rule_format, of 2] by (auto simp: retryable_def)
  ultimately have "m = 2" using m(1) by simp
  then show ?thesis using m(3,4) by (simp add: upt_rec)
qed

definition sample_transit :: transit_manager where
  "sample_transit = \<lparr>encrypt_webhook_secret = (\<lambda>i s. Inr (''vault:v1:'' @ s)), decrypt_webhook_secret = (\<lambda>i c. Inr (drop 9 c))\<rparr>"

definition sample_lib :: "string hook_lib" where
  "sample_lib = \<lparr>loads_events = (\<lambda>t. Some (if t = [] then [] else [t])), dumps_events = concat, dumps_body = (\<lambda>e p. e @ p),
     empty_payload = [], hmac_sha256 = (\<lambda>k m. k @ m)\<rparr>"

definition sample_endpoint :: "uuid \<Rightarrow> uuid \<Rightarrow> string option \<Rightarrow> webhook_endpoint" where
  "sample_endpoint i org secret = \<lparr>w_id = i, w_organization_id = org, w_name = ''n'', w_url = ''u'', w_events = [], w_is_active = True,
     w_signing_secret = secret, w_last_delivery_at = None, w_created_at = 0, w_updated_at = 0\<rparr>"

definition sample_hooks :: "hook_job list hook_state" where
  "sample_hooks = \<lparr>h_endpoints = [sample_endpoint 1 7 None, sample_endpoint 2 8 None, sample_endpoint 3 7 (Some ''k'')], h_queue = []\<rparr>"

lemma sample_transit_good: "good_transit sample_transit"
  by (simp add: good_transit_def sample_transit_def is_transit_ciphertext_def)


end
