(* ===== verification/Fan_Out.thy ===== *)
theory Fan_Out
  imports Idempotency Job_Queue Webhooks Conflict_Matching
begin

text \<open>
  The fan-out after an ingestion: \<^verbatim>\<open>services/memory/per_episode.py\<close> and \<^verbatim>\<open>_enqueue_arq_tasks\<close> of
  \<^verbatim>\<open>services/memory/enqueue_tasks.py\<close>. The state is the one of Redis beside the one of the job queue.
\<close>

definition on_redis :: "('s, 'a) sx \<Rightarrow> ('s \<times> 'q, 'a) sx" where
  "on_redis m s = (case m (fst s) of (r, t) \<Rightarrow> (r, (t, snd s)))"

definition on_queue :: "('q, 'a) sx \<Rightarrow> ('s \<times> 'q, 'a) sx" where
  "on_queue m s = (case m (snd s) of (r, t) \<Rightarrow> (r, (fst s, t)))"

section \<open>Tasks\<close>

record episode_job =
  ej_task :: string
  ej_queue :: string
  ej_episode_id :: string
  ej_org_id :: string
  ej_project_id :: string
  ej_session_id :: "string option"
  ej_role :: "string option"

definition ENQUEUE_DEDUP_TTL_SEC :: nat where
  "ENQUEUE_DEDUP_TTL_SEC = 7 * 24 * 3600"

definition dedup_key :: "string \<Rightarrow> string \<Rightarrow> string" where
  "dedup_key task_name episode_id = ''memory:enqueued:'' @ task_name @ '':'' @ episode_id"

definition enrichment_tasks ::
  "string \<Rightarrow> string \<Rightarrow> string \<Rightarrow> string \<Rightarrow> string \<Rightarrow> string \<Rightarrow> string \<Rightarrow> episode_job list" where
  "enrichment_tasks org proj session_id qname_high qname_low episode_id role =
     [\<lparr>ej_task = ''enrich_episode'', ej_queue = qname_high, ej_episode_id = episode_id, ej_org_id = org, ej_project_id = proj,
       ej_session_id = Some session_id, ej_role = Some role\<rparr>,
      \<lparr>ej_task = ''embed_episode'', ej_queue = qname_high, ej_episode_id = episode_id, ej_org_id = org, ej_project_id = proj,
       ej_session_id = None, ej_role = None\<rparr>,
      \<lparr>ej_task = ''link_entities_to_episode'', ej_queue = qname_low, ej_episode_id = episode_id, ej_org_id = org,
       ej_project_id = proj, ej_session_id = None, ej_role = Some role\<rparr>]"

text \<open>The script: delete the key if it still holds the token.\<close>

definition compare_and_delete :: "'s redis \<Rightarrow> string \<Rightarrow> string \<Rightarrow> ('s, unit) sx" where
  "compare_and_delete R key token =
     sx_bind (redis_get R key) (\<lambda>v. if v = Some (Txt token) then redis_delete R [key] else sx_return ())"

definition enqueue_task :: "'s redis \<Rightarrow> (episode_job \<Rightarrow> ('q, unit) sx) \<Rightarrow> string \<Rightarrow> episode_job \<Rightarrow> ('s \<times> 'q, unit) sx" where
  "enqueue_task R enqueue job_id j =
     (let key = dedup_key (ej_task j) (ej_episode_id j) in
      sx_bind (on_redis (redis_set_nx R key (Txt job_id) ENQUEUE_DEDUP_TTL_SEC)) (\<lambda>claimed.
        if \<not> claimed then sx_return ()
        else sx_catch (on_queue (enqueue j)) (\<lambda>e.
          sx_bind (sx_catch (on_redis (compare_and_delete R key job_id)) (\<lambda>_. sx_return ())) (\<lambda>_. sx_raise e))))"

definition enqueue_one_episode ::
  "'s redis \<Rightarrow> (episode_job \<Rightarrow> ('q, unit) sx) \<Rightarrow> string \<Rightarrow> episode_job list \<Rightarrow> ('s \<times> 'q, unit) sx" where
  "enqueue_one_episode R enqueue job_id tasks = sx_for (enqueue_task R enqueue job_id) tasks"

text \<open>\<^verbatim>\<open>get_arq()\<close> raises when no pool was set up.\<close>

definition enqueue_arq_tasks ::
  "'s redis \<Rightarrow> (episode_job \<Rightarrow> ('q, unit) sx) option \<Rightarrow> string \<Rightarrow> string \<Rightarrow> string \<Rightarrow> string \<Rightarrow> string
   \<Rightarrow> (string \<times> string) list \<Rightarrow> ('s \<times> 'q, unit) sx" where
  "enqueue_arq_tasks R arq env job_id org proj session_id episodes s =
     (case arq of
        None \<Rightarrow> (Inl RuntimeError, s)
      | Some enqueue \<Rightarrow>
          (case exc_bind (get_queue_name env ''high'') (\<lambda>high. exc_bind (get_queue_name env ''low'') (\<lambda>low. Inr (high, low))) of
             Inl e \<Rightarrow> (Inl e, s)
           | Inr (high, low) \<Rightarrow>
               gather (\<lambda>(episode_id, role).
                   enqueue_one_episode R enqueue job_id (enrichment_tasks org proj session_id high low episode_id role)) episodes s))"

section \<open>Each task of an episode is enqueued once\<close>

text \<open>Several fan-outs, each by a job for some episodes with their roles, and followed by some time.\<close>

fun run_fan_outs ::
  "'s redis \<Rightarrow> (episode_job \<Rightarrow> ('q, unit) sx) option \<Rightarrow> string \<Rightarrow> string \<Rightarrow> string \<Rightarrow> string
   \<Rightarrow> (string \<times> (string \<times> string) list \<times> nat) list \<Rightarrow> 's \<times> 'q \<Rightarrow> unit res list \<times> ('s \<times> 'q)" where
  "run_fan_outs R arq env org proj session_id [] s = ([], s)"
| "run_fan_outs R arq env org proj session_id ((job_id, episodes, delay) # calls) s =
     (case enqueue_arq_tasks R arq env job_id org proj session_id episodes s of (r, t) \<Rightarrow>
        case run_fan_outs R arq env org proj session_id calls (redis_elapse R delay (fst t), snd t) of (rs, u) \<Rightarrow> (r # rs, u))"

definition copies :: "string \<Rightarrow> string \<Rightarrow> episode_job list \<Rightarrow> nat" where
  "copies task ep js = length (filter (\<lambda>j. ej_task j = task \<and> ej_episode_id j = ep) js)"

text \<open>The key is free and no copy was sent, or it is held for longer than what is left and one was.\<close>

definition once :: "string \<Rightarrow> string \<Rightarrow> nat \<Rightarrow> nat \<Rightarrow> store \<Rightarrow> episode_job list \<Rightarrow> bool" where
  "once task ep K left st js \<longleftrightarrow>
     (st (dedup_key task ep) = None \<and> copies task ep js = K)
     \<or> (\<exists>v l. st (dedup_key task ep) = Some (v, Some l) \<and> left < l \<and> copies task ep js = Suc K)"

definition task_names :: "string list" where
  "task_names = [''enrich_episode'', ''embed_episode'', ''link_entities_to_episode'']"

lemma dedup_key_inj:
  assumes "t \<in> set task_names" "t' \<in> set task_names" and "dedup_key t ep = dedup_key t' ep'"
  shows "t = t' \<and> ep = ep'"
proof -
  have "CHR '':'' \<notin> set t" "CHR '':'' \<notin> set t'" using assms(1,2) by (auto simp: task_names_def)
  moreover have "t @ CHR '':'' # ep = t' @ CHR '':'' # ep'" using assms(3) by (simp add: dedup_key_def)
  ultimately show ?thesis by (rule sep_append_eq)
qed

lemma once_elapse: "once task ep K (d + left) st js \<Longrightarrow> once task ep K left (st_elapse d st) js"
  by (auto simp: once_def st_elapse_def)

lemma once_copies: "once task ep K left st js \<Longrightarrow> copies task ep js \<le> Suc K"
  by (auto simp: once_def)

locale fan_out = redis_server R view + arq_queue enqueue jobs
  for R :: "'s redis" and view :: "'s \<Rightarrow> store" and enqueue :: "episode_job \<Rightarrow> ('q, unit) sx" and jobs :: "'q \<Rightarrow> episode_job list"
begin

text \<open>One task: the key is held and nothing happens, or it is enqueued and the key taken, or both are undone.\<close>

lemma enqueue_task_cases:
  assumes run: "enqueue_task R enqueue job_id j (s, q) = (r, (s', q'))"
  obtains (held) "view s (dedup_key (ej_task j) (ej_episode_id j)) \<noteq> None" "view s' = view s" "jobs q' = jobs q" "r = Inr ()"
  | (sent) "view s (dedup_key (ej_task j) (ej_episode_id j)) = None" "jobs q' = jobs q @ [j]" "r = Inr ()"
      "view s' = (view s)(dedup_key (ej_task j) (ej_episode_id j) \<mapsto> (Txt job_id, Some (1000 * ENQUEUE_DEDUP_TTL_SEC)))"
  | (failed) e where "view s (dedup_key (ej_task j) (ej_episode_id j)) = None" "view s' = view s" "jobs q' = jobs q" "r = Inl e"
proof -
  let ?k = "dedup_key (ej_task j) (ej_episode_id j)" and ?v = "(Txt job_id, Some (1000 * ENQUEUE_DEDUP_TTL_SEC))"
  have ttl: "ENQUEUE_DEDUP_TTL_SEC \<noteq> 0" by (simp add: ENQUEUE_DEDUP_TTL_SEC_def)
  obtain c t where set: "redis_set_nx R ?k (Txt job_id) ENQUEUE_DEDUP_TTL_SEC s = (c, t)" by fastforce
  note m = simD[OF set_nx_law set, simplified st_set_nx_def mem_redis_simps if_not_P[OF ttl]]
  show thesis
  proof (cases "view s ?k = None")
    case False
    then have "c = Inr False" "view t = view s" using m by auto
    then show thesis using held False run set
      by (auto simp: enqueue_task_def Let_def sx_bind_def on_redis_def sx_return_def)
  next
    case True
    then have c: "c = Inr True" and t: "view t = (view s)(?k \<mapsto> ?v)" using m by auto
    obtain x q1 where e: "enqueue j q = (x, q1)" by fastforce
    show thesis
    proof (cases x)
      case (Inr u)
      then show thesis using sent True run set c t e enqueue_ok[of j q u q1]
        by (auto simp: enqueue_task_def Let_def sx_bind_def on_redis_def on_queue_def sx_catch_def)
    next
      case (Inl ex)
      obtain g t1 where get: "redis_get R ?k t = (g, t1)" by fastforce
      have g: "g = Inr (Some (Txt job_id))" "view t1 = view t"
        using simD[OF get_law get] t by (simp_all add: st_get_def)
      obtain d t2 where del: "redis_delete R [?k] t1 = (d, t2)" by fastforce
      have d: "d = Inr ()" "view t2 = (\<lambda>k. if k = ?k then None else view t1 k)"
        using simD[OF delete_law del] by (simp_all add: st_delete_def)
      have "view t2 = view s" unfolding d(2) g(2) t using True by auto
      moreover have "r = Inl ex \<and> s' = t2 \<and> q' = q1"
        using run set c e Inl get g(1) del d(1)
        by (simp add: enqueue_task_def Let_def sx_bind_def on_redis_def on_queue_def sx_catch_def compare_and_delete_def sx_return_def sx_raise_def)
      ultimately show thesis using failed[of ex] True enqueue_fail[of j q ex q1] e Inl by simp
    qed
  qed
qed

lemma enqueue_task_once:
  assumes run: "enqueue_task R enqueue job_id j (s, q) = (r, (s', q'))"
    and inv: "once task ep K left (view s) (jobs q)" and left: "left < 1000 * ENQUEUE_DEDUP_TTL_SEC"
    and names: "task \<in> set task_names" "ej_task j \<in> set task_names"
  shows "once task ep K left (view s') (jobs q') \<and> copies task ep (jobs q) \<le> copies task ep (jobs q')
    \<and> (r = Inr () \<longrightarrow> ej_task j = task \<longrightarrow> ej_episode_id j = ep \<longrightarrow> copies task ep (jobs q') = Suc K)"
  using run
proof (cases rule: enqueue_task_cases)
  case held
  then show ?thesis using inv by (auto simp: once_def)
next
  case sent
  show ?thesis
  proof (cases "ej_task j = task \<and> ej_episode_id j = ep")
    case True
    then show ?thesis using sent inv left by (auto simp: once_def copies_def)
  next
    case False
    then have "dedup_key task ep \<noteq> dedup_key (ej_task j) (ej_episode_id j)" using dedup_key_inj[OF names] by blast
    then show ?thesis using False sent inv by (auto simp: once_def copies_def)
  qed
next
  case (failed e)
  then show ?thesis using inv by (auto simp: once_def)
qed

lemma enqueue_tasks_once:
  assumes "sx_for (enqueue_task R enqueue job_id) js (s, q) = (r, (s', q'))"
    and "once task ep K left (view s) (jobs q)" and "left < 1000 * ENQUEUE_DEDUP_TTL_SEC"
    and "task \<in> set task_names" "ej_task ` set js \<subseteq> set task_names"
  shows "once task ep K left (view s') (jobs q') \<and> copies task ep (jobs q) \<le> copies task ep (jobs q')
    \<and> (r = Inr () \<longrightarrow> (\<exists>j \<in> set js. ej_task j = task \<and> ej_episode_id j = ep) \<longrightarrow> copies task ep (jobs q') = Suc K)"
  using assms(1,2,5)
proof (induction js arbitrary: s q)
  case Nil
  then show ?case by auto
next
  case (Cons j js)
  obtain r1 s1 q1 where one: "enqueue_task R enqueue job_id j (s, q) = (r1, (s1, q1))" by (metis prod_cases3)
  note h = enqueue_task_once[OF one Cons.prems(2) assms(3,4)]
  show ?case
  proof (cases r1)
    case (Inl e)
    then show ?thesis using h Cons.prems one by auto
  next
    case (Inr u)
    have rest: "sx_for (enqueue_task R enqueue job_id) js (s1, q1) = (r, (s', q'))" using Cons.prems(1) one Inr by simp
    have h1: "once task ep K left (view s1) (jobs q1)" using h Cons.prems(3) by simp
    note IH = Cons.IH[OF rest h1]
    have "copies task ep (jobs q') \<le> Suc K" using IH Cons.prems(3) once_copies by auto
    then show ?thesis using h IH Inr Cons.prems(3) by (auto intro: le_antisym)
  qed
qed

lemma gather_once:
  assumes "gather (\<lambda>(e, role). enqueue_one_episode R enqueue job_id (enrichment_tasks org proj sess hi lo e role)) eps (s, q) = (r, (s', q'))"
    and "once task ep K left (view s) (jobs q)" and "left < 1000 * ENQUEUE_DEDUP_TTL_SEC" and "task \<in> set task_names"
  shows "once task ep K left (view s') (jobs q') \<and> copies task ep (jobs q) \<le> copies task ep (jobs q')
    \<and> (r = Inr () \<longrightarrow> ep \<in> fst ` set eps \<longrightarrow> copies task ep (jobs q') = Suc K)"
  using assms(1,2)
proof (induction eps arbitrary: s q r)
  case Nil
  then show ?case by simp
next
  case (Cons e eps)
  obtain i role where e: "e = (i, role)" by fastforce
  let ?js = "enrichment_tasks org proj sess hi lo i role"
  obtain r1 s1 q1 where one: "sx_for (enqueue_task R enqueue job_id) ?js (s, q) = (r1, (s1, q1))" by (metis prod_cases3)
  obtain r2 where rest: "gather (\<lambda>(e, role). enqueue_one_episode R enqueue job_id (enrichment_tasks org proj sess hi lo e role)) eps (s1, q1) = (r2, (s', q'))"
    and r: "r = exc_bind r1 (\<lambda>_. r2)"
    using Cons.prems(1) e one by (auto simp: enqueue_one_episode_def split: prod.splits)
  have names: "ej_task ` set ?js \<subseteq> set task_names" by (simp add: enrichment_tasks_def task_names_def)
  have has: "\<exists>j \<in> set ?js. ej_task j = task \<and> ej_episode_id j = i"
    using assms(4) by (auto simp: enrichment_tasks_def task_names_def)
  note h = enqueue_tasks_once[OF one Cons.prems(2) assms(3,4) names]
  note IH = Cons.IH[OF rest conjunct1[OF h]]
  have le: "copies task ep (jobs q') \<le> Suc K" using IH once_copies by blast
  show ?case
  proof (intro conjI impI)
    show "once task ep K left (view s') (jobs q')" using IH by blast
    show "copies task ep (jobs q) \<le> copies task ep (jobs q')" using h IH by linarith
    assume ok: "r = Inr ()" and ep: "ep \<in> fst ` set (e # eps)"
    have ok12: "r1 = Inr ()" "r2 = Inr ()" using ok r by (auto simp: exc_bind_Inr_iff)
    show "copies task ep (jobs q') = Suc K"
    proof (cases "ep = i")
      case True
      then have "copies task ep (jobs q1) = Suc K" using h has ok12(1) by blast
      then show ?thesis using IH le by linarith
    next
      case False
      then show ?thesis using IH ok12 ep e by auto
    qed
  qed
qed

lemma queue_names: "exc_bind (get_queue_name env ''high'') (\<lambda>high. exc_bind (get_queue_name env ''low'') (\<lambda>low. Inr (high, low)))
    = Inr (''OpenZync:'' @ env @ '':queue:high'', ''OpenZync:'' @ env @ '':queue:low'')"
  by (simp add: get_queue_name_def)

lemma run_fan_outs_once:
  assumes "run_fan_outs R (Some enqueue) env org proj sess calls (s, q) = (rs, (s', q'))"
    and "once task ep K (sum_list (map (snd \<circ> snd) calls)) (view s) (jobs q)"
    and "sum_list (map (snd \<circ> snd) calls) < 1000 * ENQUEUE_DEDUP_TTL_SEC" and "task \<in> set task_names"
  shows "copies task ep (jobs q') \<le> Suc K \<and> copies task ep (jobs q) \<le> copies task ep (jobs q')
    \<and> ((\<exists>i < length calls. ep \<in> fst ` set (fst (snd (calls ! i))) \<and> rs ! i = Inr ()) \<longrightarrow> copies task ep (jobs q') = Suc K)"
  using assms(1,2,3)
proof (induction calls arbitrary: s q rs)
  case Nil
  then show ?case using once_copies by auto
next
  case (Cons c calls)
  obtain job eps d where c: "c = (job, eps, d)" by (metis prod_cases3)
  let ?left = "sum_list (map (snd \<circ> snd) calls)"
  obtain r s1 q1 where one: "enqueue_arq_tasks R (Some enqueue) env job org proj sess eps (s, q) = (r, (s1, q1))" by (metis prod_cases3)
  obtain rs2 where rest: "run_fan_outs R (Some enqueue) env org proj sess calls (redis_elapse R d s1, q1) = (rs2, (s', q'))" and rs: "rs = r # rs2"
    using Cons.prems(1) c one by (auto split: prod.splits)
  have g: "gather (\<lambda>(e, role). enqueue_one_episode R enqueue job (enrichment_tasks org proj sess
      (''OpenZync:'' @ env @ '':queue:high'') (''OpenZync:'' @ env @ '':queue:low'') e role)) eps (s, q) = (r, (s1, q1))"
    using one unfolding enqueue_arq_tasks_def queue_names by simp
  have "once task ep K (d + ?left) (view s) (jobs q)" "d + ?left < 1000 * ENQUEUE_DEDUP_TTL_SEC" using Cons.prems(2,3) c by (simp_all add: comp_def)
  note h = gather_once[OF g this assms(4)]
  have "once task ep K ?left (view (redis_elapse R d s1)) (jobs q1)" using once_elapse h by (simp add: elapse_law)
  moreover have lt: "?left < 1000 * ENQUEUE_DEDUP_TTL_SEC" using Cons.prems(3) c by (simp add: comp_def)
  ultimately have IH: "copies task ep (jobs q') \<le> Suc K \<and> copies task ep (jobs q1) \<le> copies task ep (jobs q')
    \<and> ((\<exists>i < length calls. ep \<in> fst ` set (fst (snd (calls ! i))) \<and> rs2 ! i = Inr ()) \<longrightarrow> copies task ep (jobs q') = Suc K)"
    by (rule Cons.IH[OF rest])
  have "copies task ep (jobs q') = Suc K" if i: "i < length (c # calls)" "ep \<in> fst ` set (fst (snd ((c # calls) ! i)))" "rs ! i = Inr ()" for i
  proof (cases i)
    case 0
    then have "copies task ep (jobs q1) = Suc K" using h i c rs by simp
    then show ?thesis using IH by linarith
  next
    case (Suc k)
    then show ?thesis using IH i rs by auto
  qed
  then show ?case using h IH by (meson order_trans)
qed

end


interpretation fifo_fan_out: fan_out mem_redis "\<lambda>s. s" "fifo_enqueue refuse" "\<lambda>q. q" for refuse
  by (simp add: fan_out_def mem.redis_server_axioms fifo.arq_queue_axioms)


end
