(* ===== verification/Memory_Ingest.thy ===== *)
theory Memory_Ingest
  imports Blob_Ingest Pii Fan_Out Fact_Service
begin

text \<open>
  Ingestion of messages: \<^verbatim>\<open>services/memory\<close> (\<^verbatim>\<open>ingest.py\<close>, \<^verbatim>\<open>dedup_claim.py\<close>, \<^verbatim>\<open>episode_write.py\<close>,
  \<^verbatim>\<open>pii_redaction.py\<close> and the finalization of \<^verbatim>\<open>enqueue_tasks.py\<close>) with the tables it writes:
  \<^verbatim>\<open>ingest_dedup\<close>, \<^verbatim>\<open>episodes\<close> and \<^verbatim>\<open>episode_blobs\<close>.

  A request runs in one database transaction: its statements change a copy of the tables, which
  the commit makes the new state and a rollback drops. Requests are serial, as the lock on the
  session row makes them for one session. Redis, the object store and the job queue keep what was
  done to them. Configuration reads, the PII engines, hashes, JSON and clocks are parameters.
\<close>

section \<open>Claim payloads\<close>

text \<open>\<^verbatim>\<open>int(s)\<close>: digits with single underscores between them, an optional sign, white space around.\<close>

fun dec_digits :: "bool \<Rightarrow> nat \<Rightarrow> string \<Rightarrow> nat option" where
  "dec_digits prev acc [] = (if prev then None else Some acc)"
| "dec_digits prev acc (c # cs) =
     (if c = CHR ''_'' then (if prev then None else dec_digits True acc cs)
      else if 48 \<le> code c \<and> code c \<le> 57 then dec_digits False (acc * 10 + (code c - 48)) cs
      else None)"

definition py_int :: "string \<Rightarrow> int res" where
  "py_int s0 =
     (let s = py_strip s0;
          neg = (s \<noteq> [] \<and> hd s = CHR ''-'');
          s1 = (if s \<noteq> [] \<and> (hd s = CHR ''-'' \<or> hd s = CHR ''+'') then tl s else s)
      in if s1 = [] \<or> hd s1 = CHR ''_'' then Inl ValueError
         else (case dec_digits False 0 s1 of
                 None \<Rightarrow> Inl ValueError
               | Some n \<Rightarrow> Inr (if neg then - int n else int n)))"

definition encode_claim_payload :: "uuid \<Rightarrow> nat \<Rightarrow> string" where
  "encode_claim_payload job_id episode_count = uuid_str job_id @ '':'' @ py_digits episode_count"

definition decode_claim_payload :: "string \<Rightarrow> int \<Rightarrow> string \<times> int" where
  "decode_claim_payload payload fallback_count =
     (case py_partition CHR '':'' payload of (job_id, sep, count_str) \<Rightarrow>
        if sep = [] then (payload, fallback_count)
        else (case py_int count_str of Inl _ \<Rightarrow> (job_id, fallback_count) | Inr n \<Rightarrow> (job_id, n)))"

section \<open>Tables\<close>

record project_row =
  pr_id :: uuid
  pr_organization_id :: uuid
  pr_is_archived :: bool

record dedup_row =
  dd_job_id :: uuid
  dd_project_id :: uuid
  dd_session_id :: uuid
  dd_content_hash :: string
  dd_created_at :: datetime

record 'j mem_episode = episode +
  me_organization_id :: uuid
  me_project_id :: uuid
  me_session_id :: uuid
  me_user_id :: uuid
  me_role :: string
  me_content :: string
  me_metadata :: 'j
  me_created_at :: datetime
  me_sequence_number :: int

record 'j mem_db =
  db_projects :: "project_row list"
  db_sessions :: "session_row list"
  db_dedup :: "dedup_row list"
  db_episodes :: "'j mem_episode list"
  db_blobs :: "blob_row list"

definition get_project :: "uuid \<Rightarrow> uuid \<Rightarrow> project_row list \<Rightarrow> project_row option" where
  "get_project org proj rows =
     List.find (\<lambda>p. pr_id p = proj \<and> pr_organization_id p = org \<and> \<not> pr_is_archived p) rows"

definition get_by_uuid :: "uuid \<Rightarrow> uuid \<Rightarrow> uuid option \<Rightarrow> session_row list \<Rightarrow> session_row option" where
  "get_by_uuid org session_id proj rows =
     List.find (\<lambda>r. sess_id r = session_id \<and> sess_organization_id r = org \<and> \<not> sess_is_deleted r
        \<and> (case proj of None \<Rightarrow> True | Some p \<Rightarrow> sess_project_id r = p)) rows"

definition resolve_session :: "uuid \<Rightarrow> uuid \<Rightarrow> string \<Rightarrow> session_row list \<Rightarrow> session_row res" where
  "resolve_session org proj external_id rows =
     (case (case get_by_external_id org proj external_id rows of
              Some s \<Rightarrow> Some s
            | None \<Rightarrow> (case uuid_of_hex external_id of Inl _ \<Rightarrow> None | Inr i \<Rightarrow> get_by_uuid org i (Some proj) rows)) of
        None \<Rightarrow> Inl NotFoundError
      | Some s \<Rightarrow> Inr s)"

text \<open>\<^verbatim>\<open>IngestDedupRepository\<close>: a claim counts for 48 hours.\<close>

definition DEDUP_TTL :: int where
  "DEDUP_TTL = 48 * 3600 * 1000000"

definition same_claim :: "uuid \<Rightarrow> uuid \<Rightarrow> string \<Rightarrow> dedup_row \<Rightarrow> bool" where
  "same_claim proj session_id h r \<longleftrightarrow> dd_project_id r = proj \<and> dd_session_id r = session_id \<and> dd_content_hash r = h"

definition insert_or_none :: "datetime \<Rightarrow> uuid \<Rightarrow> uuid \<Rightarrow> string \<Rightarrow> uuid \<Rightarrow> dedup_row list \<Rightarrow> (bool \<times> dedup_row list) res" where
  "insert_or_none at_db proj session_id h job_id rows =
     (let rows' = filter (\<lambda>r. \<not> (same_claim proj session_id h r \<and> dd_created_at r < at_db - DEDUP_TTL)) rows in
      if list_ex (same_claim proj session_id h) rows' then Inr (False, rows')
      else if job_id \<in> dd_job_id ` set rows' then Inl IntegrityError
      else Inr (True, rows' @ [\<lparr>dd_job_id = job_id, dd_project_id = proj, dd_session_id = session_id,
                               dd_content_hash = h, dd_created_at = at_db\<rparr>]))"

definition get_job_id :: "datetime \<Rightarrow> uuid \<Rightarrow> uuid \<Rightarrow> string \<Rightarrow> dedup_row list \<Rightarrow> uuid option" where
  "get_job_id at_db proj session_id h rows =
     map_option dd_job_id (List.find (\<lambda>r. same_claim proj session_id h r \<and> dd_created_at r > at_db - DEDUP_TTL) rows)"

text \<open>\<^verbatim>\<open>EpisodeRepository\<close>: the next number over live rows, and the batch insert with its constraints.\<close>

definition live_in :: "uuid \<Rightarrow> 'j mem_episode \<Rightarrow> bool" where
  "live_in session_id e \<longleftrightarrow> me_session_id e = session_id \<and> \<not> ep_is_deleted e"

definition get_next_sequence :: "uuid \<Rightarrow> 'j mem_episode list \<Rightarrow> int" where
  "get_next_sequence session_id rows = fold max (map me_sequence_number (filter (live_in session_id) rows)) (-1) + 1"

record 'j message_dict =
  md_role :: string
  md_content :: string
  md_metadata :: 'j
  md_created_at :: "datetime option"

definition episode_ok :: "'j mem_episode \<Rightarrow> bool" where
  "episode_ok e \<longleftrightarrow> me_role e \<in> {''user'', ''assistant'', ''system'', ''tool''} \<and> py_len (me_content e) \<le> 65536"

definition sequences :: "'j mem_episode list \<Rightarrow> (uuid \<times> int) list" where
  "sequences rows = map (\<lambda>e. (me_session_id e, me_sequence_number e)) (filter (\<lambda>e. \<not> ep_is_deleted e) rows)"

definition new_episode ::
  "(nat \<Rightarrow> uuid) \<Rightarrow> datetime \<Rightarrow> uuid \<Rightarrow> uuid \<Rightarrow> uuid \<Rightarrow> uuid \<Rightarrow> int \<Rightarrow> nat \<Rightarrow> 'j message_dict \<Rightarrow> nat \<Rightarrow> 'j mem_episode" where
  "new_episode uuid4 now org proj session_id usr start_seq drawn m i =
     \<lparr>ep_id = uuid4 (drawn + i), ep_enrichment_status = 0, ep_is_deleted = False, me_organization_id = org, me_project_id = proj,
      me_session_id = session_id, me_user_id = usr, me_role = md_role m, me_content = md_content m, me_metadata = md_metadata m,
      me_created_at = (case md_created_at m of Some t \<Rightarrow> t | None \<Rightarrow> now), me_sequence_number = start_seq + int i\<rparr>"

definition batch_create_episodes ::
  "(nat \<Rightarrow> uuid) \<Rightarrow> datetime \<Rightarrow> uuid \<Rightarrow> uuid \<Rightarrow> uuid \<Rightarrow> uuid \<Rightarrow> 'j message_dict list \<Rightarrow> int \<Rightarrow> nat \<Rightarrow> 'j mem_episode list
   \<Rightarrow> ('j mem_episode list \<times> 'j mem_episode list) res" where
  "batch_create_episodes uuid4 now org proj session_id usr messages start_seq drawn rows =
     (let new = map2 (new_episode uuid4 now org proj session_id usr start_seq drawn) messages [0..<length messages] in
      if list_all episode_ok new \<and> distinct (map ep_id (rows @ new)) \<and> distinct (sequences (rows @ new))
      then Inr (new, rows @ new) else Inl IntegrityError)"

section \<open>Redaction\<close>

record org_pii =
  op_pii_mode :: "string option"
  op_pii_sensitivity :: "string option"
  op_pii_enabled_types :: "string list option"
  op_pii_min_confidence :: "rat option"

definition get_org_pii_config :: "(uuid \<Rightarrow> org_pii option res) \<Rightarrow> uuid \<Rightarrow> pii_config res" where
  "get_org_pii_config get_org_config org =
     (case get_org_config org of
        Inl _ \<Rightarrow> Inl PIIUnavailableError
      | Inr None \<Rightarrow> Inl PIIUnavailableError
      | Inr (Some c) \<Rightarrow>
          (case op_pii_mode c of
             None \<Rightarrow> Inr \<lparr>pc_mode = ''mask'', pc_sensitivity = None, pc_enabled_types = None, pc_min_confidence = None\<rparr>
           | Some mode \<Rightarrow> Inr \<lparr>pc_mode = mode, pc_sensitivity = op_pii_sensitivity c, pc_enabled_types = op_pii_enabled_types c,
                              pc_min_confidence = op_pii_min_confidence c\<rparr>))"

definition redact_content :: "pii_engine \<Rightarrow> pii_config \<Rightarrow> pii_config \<Rightarrow> string \<Rightarrow> string res" where
  "redact_content G svc masker content =
     (case process_message G svc content of
        Inr r \<Rightarrow> Inr r
      | Inl ValidationError \<Rightarrow>
          (case process_message G masker content of Inr r \<Rightarrow> Inr r | Inl _ \<Rightarrow> Inl PIIUnavailableError)
      | Inl _ \<Rightarrow> Inl PIIUnavailableError)"

definition redact_episodes ::
  "(uuid \<Rightarrow> org_pii option res) \<Rightarrow> pii_engine \<Rightarrow> uuid \<Rightarrow> 'j message_dict list \<Rightarrow> 'j message_dict list res" where
  "redact_episodes get_org_config G org dicts =
     exc_bind (get_org_pii_config get_org_config org) (\<lambda>c.
       if pc_mode c = ''off'' then Inr dicts
       else exc_bind (pii_service c) (\<lambda>svc.
            exc_bind (pii_service (c\<lparr>pc_mode := ''mask''\<rparr>)) (\<lambda>masker.
              exc_map (\<lambda>d. exc_bind (redact_content G svc masker (md_content d)) (\<lambda>r. Inr (d\<lparr>md_content := r\<rparr>))) dicts)))"

section \<open>Environment and state\<close>

record 'j mem_message =
  mm_role :: string
  mm_content :: string
  mm_created_at :: "datetime option"
  mm_metadata :: 'j
  mm_blobs :: "blob_meta list"

record ingest_response =
  rp_job_id :: "string option"
  rp_episode_count :: int
  rp_blob_count :: nat
  rp_message :: string

record ('s, 'j, 'o, 'q) mem_state =
  ms_redis :: 's
  ms_db :: "'j mem_db"
  ms_store :: 'o
  ms_queue :: 'q
  ms_endpoints :: "webhook_endpoint list"
  ms_draws :: nat

record ('q, 'p) hooks =
  hk_lib :: "'p hook_lib"
  hk_transit :: "transit_manager option"
  hk_arq :: "(hook_job \<Rightarrow> ('q, unit) sx) option"
  hk_env :: string
  hk_now_s :: int
  hk_token :: "uuid \<Rightarrow> string"
  hk_payload :: "string \<Rightarrow> int \<Rightarrow> 'p" \<comment> \<open>the event payload for a job and a count\<close>

record ('s, 'j, 'o, 'q, 'p) mem_env =
  mv_redis :: "'s redis"
  mv_settings :: idem_settings
  mv_loads :: "string \<Rightarrow> ingest_response idem_entry option"
  mv_dumps :: "ingest_response idem_entry \<Rightarrow> string"
  mv_digest :: "'j canonical \<Rightarrow> string"
  mv_blobs_json :: "blob_meta list \<Rightarrow> 'j"
  mv_now :: datetime \<comment> \<open>the clock of the process\<close>
  mv_created_at :: string
  mv_db_now :: datetime \<comment> \<open>\<^verbatim>\<open>now()\<close> of the database\<close>
  mv_uuid4 :: "nat \<Rightarrow> uuid"
  mv_org_pii :: "uuid \<Rightarrow> org_pii option res"
  mv_engine :: pii_engine
  mv_platform :: "'o blob_platform"
  mv_arq :: "(episode_job \<Rightarrow> ('q, unit) sx) option"
  mv_arq_blob :: "(blob_row \<Rightarrow> ('q, unit) sx) option" \<comment> \<open>\<^verbatim>\<open>extract_blob_text\<close>\<close>
  mv_environment :: string
  mv_hooks :: "('q, 'p) hooks option"

definition model_dump :: "('s, 'j, 'o, 'q, 'p) mem_env \<Rightarrow> 'j mem_message \<Rightarrow> 'j message" where
  "model_dump E m = \<lparr>msg_role = Some (mm_role m), msg_content = Some (mm_content m), msg_metadata = Some (mm_metadata m),
     msg_blobs = Some (mv_blobs_json E (mm_blobs m))\<rparr>"

section \<open>Claiming the batch\<close>

text \<open>The request's key: a stored response is replayed, another body is a conflict.\<close>

definition check_request_key ::
  "('s, 'j, 'o, 'q, 'p) mem_env \<Rightarrow> string \<Rightarrow> string \<Rightarrow> uuid \<Rightarrow> ('s, ingest_response option) sx" where
  "check_request_key E key body_hash org =
     sx_bind (check_idempotency_key (mv_redis E) (mv_settings E) (mv_loads E) key body_hash (uuid_str org)) (\<lambda>res.
       if ir_status res = REPLAY \<and> ir_response_data res \<noteq> None then sx_return (ir_response_data res)
       else if ir_status res = CONFLICT then sx_raise ConflictError
       else sx_return None)"

definition accepted_replay :: "string option \<Rightarrow> int \<Rightarrow> ingest_response" where
  "accepted_replay job_id n = \<lparr>rp_job_id = job_id, rp_episode_count = n, rp_blob_count = 0,
     rp_message = ''Content already ingested; returning existing job_id''\<rparr>"

definition batch_hash :: "('s, 'j, 'o, 'q, 'p) mem_env \<Rightarrow> uuid \<Rightarrow> uuid \<Rightarrow> uuid \<Rightarrow> 'j mem_message list \<Rightarrow> string" where
  "batch_hash E org usr session_id messages =
     compute_content_hash (mv_digest E) (uuid_str org) (uuid_str usr) (uuid_str session_id) (map (model_dump E) messages)"

definition release_batch ::
  "('s, 'j, 'o, 'q, 'p) mem_env \<Rightarrow> uuid \<Rightarrow> uuid \<Rightarrow> uuid \<Rightarrow> 'j mem_message list \<Rightarrow> ('s, 'j, 'o, 'q) mem_state \<Rightarrow> ('s, 'j, 'o, 'q) mem_state" where
  "release_batch E org usr session_id messages st =
     st\<lparr>ms_redis := snd (release_content_hash (mv_redis E) (mv_settings E) (mv_digest E) (uuid_str org) (uuid_str usr)
         (uuid_str session_id) (map (model_dump E) messages) (ms_redis st))\<rparr>"

text \<open>
  \<^verbatim>\<open>_claim_batch\<close>. The peek only logs. The result is the job and, for a loser, its response; the
  tables are those of the open transaction.
\<close>

definition claim_batch ::
  "('s, 'j, 'o, 'q, 'p) mem_env \<Rightarrow> uuid \<Rightarrow> uuid \<Rightarrow> uuid \<Rightarrow> 'j mem_message list \<Rightarrow> uuid
   \<Rightarrow> (('s, 'j, 'o, 'q) mem_state, uuid \<times> ingest_response option) sx" where
  "claim_batch E org usr session_id messages proj st =
     (let msgs = map (model_dump E) messages;
          h = batch_hash E org usr session_id messages;
          n = length messages;
          peeked = snd (check_content_hash (mv_redis E) (mv_settings E) (mv_digest E) (uuid_str org) (uuid_str usr)
                     (uuid_str session_id) msgs (ms_redis st));
          job_id = mv_uuid4 E (ms_draws st);
          loser = (\<lambda>s. (Inr (job_id, Some (accepted_replay
                     (map_option uuid_str (get_job_id (mv_db_now E) proj session_id h (db_dedup (ms_db s)))) (int n))),
                   release_batch E org usr session_id messages s)) in
      case claim_content_hash (mv_redis E) (mv_settings E) (mv_digest E) (uuid_str org) (uuid_str usr) (uuid_str session_id) msgs
             (encode_claim_payload job_id n) peeked of
        (Inl e, r) \<Rightarrow> (Inl e, st\<lparr>ms_redis := r, ms_draws := Suc (ms_draws st)\<rparr>)
      | (Inr claim, r) \<Rightarrow>
          (let s = st\<lparr>ms_redis := r, ms_draws := Suc (ms_draws st)\<rparr> in
           if \<not> won claim
           then (case decode_claim_payload (winner claim) (int n) of (j, c) \<Rightarrow> (Inr (job_id, Some (accepted_replay (Some j) c)), s))
           else (case insert_or_none (mv_db_now E) proj session_id h job_id (db_dedup (ms_db s)) of
                   Inl _ \<Rightarrow> loser s
                 | Inr (False, rows) \<Rightarrow> loser (s\<lparr>ms_db := (ms_db s)\<lparr>db_dedup := rows\<rparr>\<rparr>)
                 | Inr (True, rows) \<Rightarrow> (Inr (job_id, None), s\<lparr>ms_db := (ms_db s)\<lparr>db_dedup := rows\<rparr>\<rparr>))))"

section \<open>Writing\<close>

text \<open>
  \<^verbatim>\<open>_lock_and_insert\<close>. The lock on the session row is what makes requests serial. A constraint
  that fails, whichever it is, is reported as a conflict.
\<close>

definition lock_and_insert ::
  "('s, 'j, 'o, 'q, 'p) mem_env \<Rightarrow> uuid \<Rightarrow> uuid \<Rightarrow> uuid \<Rightarrow> uuid \<Rightarrow> 'j message_dict list
   \<Rightarrow> (('s, 'j, 'o, 'q) mem_state, 'j mem_episode list) sx" where
  "lock_and_insert E org proj session_id usr dicts st =
     (let start_seq = get_next_sequence session_id (db_episodes (ms_db st)) in
      case batch_create_episodes (mv_uuid4 E) (mv_now E) org proj session_id usr dicts start_seq (ms_draws st) (db_episodes (ms_db st)) of
        Inl _ \<Rightarrow> (Inl ConflictError, st)
      | Inr (new, rows) \<Rightarrow>
          (Inr new, st\<lparr>ms_db := (ms_db st)\<lparr>db_episodes := rows\<rparr>, ms_draws := ms_draws st + length dicts\<rparr>))"

definition blob_scope_of :: "uuid \<Rightarrow> uuid \<Rightarrow> uuid \<Rightarrow> uuid \<Rightarrow> blob_scope" where
  "blob_scope_of org proj session_id usr = \<lparr>sc_org = org, sc_project = proj, sc_session = session_id, sc_user = usr\<rparr>"

text \<open>The uploads of this request, on the request's object store, blob rows and files.\<close>

definition write_blobs ::
  "('s, 'j, 'o, 'q, 'p) mem_env \<Rightarrow> uuid \<Rightarrow> uuid \<Rightarrow> uuid \<Rightarrow> uuid \<Rightarrow> 'j mem_episode list \<Rightarrow> 'j mem_message list \<Rightarrow> string list
   \<Rightarrow> (('s, 'j, 'o, 'q) mem_state, nat \<times> blob_row list) sx" where
  "write_blobs E org proj session_id usr episodes messages files st =
     (if files \<noteq> []
      then (case process_blobs (mv_platform E) (blob_scope_of org proj session_id usr) (map ep_id episodes) (map mm_blobs messages)
                   \<lparr>bs_store = ms_store st, bs_streams = files, bs_rows = db_blobs (ms_db st), bs_draws = ms_draws st\<rparr> of
              (r, b) \<Rightarrow> (r, st\<lparr>ms_store := bs_store b, ms_db := (ms_db st)\<lparr>db_blobs := bs_rows b\<rparr>, ms_draws := bs_draws b\<rparr>))
      else if list_ex (\<lambda>m. mm_blobs m \<noteq> []) messages then (Inl ValidationError, st)
      else (Inr (0, []), st))"

text \<open>
  The guarded part up to the commit, with \<^verbatim>\<open>uploaded_keys\<close>: they are set once all uploads have
  returned. \<open>commit\<close> is what the commit itself gives.
\<close>

definition ingest_guarded ::
  "('s, 'j, 'o, 'q, 'p) mem_env \<Rightarrow> unit res \<Rightarrow> uuid \<Rightarrow> uuid \<Rightarrow> uuid \<Rightarrow> uuid \<Rightarrow> 'j mem_message list \<Rightarrow> string list
   \<Rightarrow> ('s, 'j, 'o, 'q) mem_state \<Rightarrow> ('j mem_episode list \<times> nat \<times> blob_row list) res \<times> string list \<times> ('s, 'j, 'o, 'q) mem_state" where
  "ingest_guarded E commit org proj usr session_id messages files st =
     (let dicts = map (\<lambda>m. \<lparr>md_role = mm_role m, md_content = mm_content m, md_metadata = mm_metadata m,
                            md_created_at = mm_created_at m\<rparr>) messages in
      case redact_episodes (mv_org_pii E) (mv_engine E) org dicts of
        Inl e \<Rightarrow> (Inl e, [], st)
      | Inr dicts' \<Rightarrow>
          (case lock_and_insert E org proj session_id usr dicts' st of
             (Inl e, st1) \<Rightarrow> (Inl e, [], st1)
           | (Inr episodes, st1) \<Rightarrow>
               (case write_blobs E org proj session_id usr episodes messages files st1 of
                  (Inl e, st2) \<Rightarrow> (Inl e, [], st2)
                | (Inr (blob_count, records), st2) \<Rightarrow>
                    (let keys = filter (\<lambda>k. k \<noteq> []) (map br_storage_key records) in
                     case commit of
                       Inl e \<Rightarrow> (Inl e, keys, st2)
                     | Inr _ \<Rightarrow> (Inr (episodes, blob_count, records), keys, st2)))))"

section \<open>After the commit\<close>

definition invalidate_context_cache :: "'s redis \<Rightarrow> uuid \<Rightarrow> uuid \<Rightarrow> ('s, int) sx" where
  "invalidate_context_cache R org proj = redis_incr R (''ctxver:'' @ uuid_str org @ '':'' @ uuid_str proj)"

definition enqueue_blob_extraction_tasks :: "(blob_row \<Rightarrow> ('q, unit) sx) option \<Rightarrow> blob_row list \<Rightarrow> 'q \<Rightarrow> 'q" where
  "enqueue_blob_extraction_tasks arq records q =
     (case arq of None \<Rightarrow> q | Some enqueue \<Rightarrow> snd (gather enqueue records q))"

definition emit_ingest_events ::
  "('s, 'j, 'o, 'q, 'p) mem_env \<Rightarrow> uuid \<Rightarrow> string \<Rightarrow> int \<Rightarrow> ('s, 'j, 'o, 'q) mem_state \<Rightarrow> ('s, 'j, 'o, 'q) mem_state" where
  "emit_ingest_events E org job n st =
     (case mv_hooks E of
        None \<Rightarrow> st
      | Some hk \<Rightarrow>
          (let send = (\<lambda>event h. snd (Webhooks.emit (hk_lib hk) (hk_transit hk) (hk_arq hk) (hk_env hk) (mv_db_now E) (hk_now_s hk) (hk_token hk)
                         org event (Some (hk_payload hk job n)) h));
               h = send ''message.added'' (send ''ingest.batch.completed'' \<lparr>h_endpoints = ms_endpoints st, h_queue = ms_queue st\<rparr>)
           in st\<lparr>ms_endpoints := h_endpoints h, ms_queue := h_queue h\<rparr>))"

definition finalize_ingest ::
  "('s, 'j, 'o, 'q, 'p) mem_env \<Rightarrow> uuid \<Rightarrow> uuid \<Rightarrow> uuid \<Rightarrow> uuid \<Rightarrow> 'j mem_episode list \<Rightarrow> blob_row list \<Rightarrow> nat \<Rightarrow> string option \<Rightarrow> string option
   \<Rightarrow> ('s, 'j, 'o, 'q) mem_state \<Rightarrow> ingest_response \<times> ('s, 'j, 'o, 'q) mem_state" where
  "finalize_ingest E job_id org proj session_id episodes records blob_count key body_hash st =
     (let t1 = snd (enqueue_arq_tasks (mv_redis E) (mv_arq E) (mv_environment E) (uuid_str job_id) (uuid_str org) (uuid_str proj)
                 (uuid_str session_id) (map (\<lambda>e. (uuid_str (ep_id e), me_role e)) episodes) (ms_redis st, ms_queue st));
          q2 = (if records = [] then snd t1 else enqueue_blob_extraction_tasks (mv_arq_blob E) records (snd t1));
          response = \<lparr>rp_job_id = Some (uuid_str job_id), rp_episode_count = int (length episodes), rp_blob_count = blob_count,
                      rp_message = ''Messages accepted for processing''\<rparr>;
          r3 = (case key of
                  None \<Rightarrow> fst t1
                | Some k \<Rightarrow> snd (store_idempotency_key (mv_redis E) (mv_settings E) (mv_dumps E) (mv_created_at E) k
                             (or_empty body_hash) response (uuid_str org) (fst t1)));
          r4 = snd (invalidate_context_cache (mv_redis E) org proj r3)
      in (response, emit_ingest_events E org (uuid_str job_id) (int (length episodes)) (st\<lparr>ms_redis := r4, ms_queue := q2\<rparr>)))"

section \<open>The request\<close>

definition ingest ::
  "('s, 'j, 'o, 'q, 'p) mem_env \<Rightarrow> unit res \<Rightarrow> uuid \<Rightarrow> uuid \<Rightarrow> uuid \<Rightarrow> string \<Rightarrow> 'j mem_message list \<Rightarrow> string list
   \<Rightarrow> string option \<Rightarrow> string option \<Rightarrow> (('s, 'j, 'o, 'q) mem_state, ingest_response) sx" where
  "ingest E commit org proj usr session_external_id messages files key body_hash st =
     (case get_project org proj (db_projects (ms_db st)) of
        None \<Rightarrow> (Inl NotFoundError, st)
      | Some _ \<Rightarrow>
          (case (case key of
                   None \<Rightarrow> (Inr None, ms_redis st)
                 | Some k \<Rightarrow> check_request_key E k (or_empty body_hash) org (ms_redis st)) of
             (Inl e, r) \<Rightarrow> (Inl e, st\<lparr>ms_redis := r\<rparr>)
           | (Inr (Some replay), r) \<Rightarrow> (Inr replay, st\<lparr>ms_redis := r\<rparr>)
           | (Inr None, r) \<Rightarrow>
               (let st0 = st\<lparr>ms_redis := r\<rparr> in
                case resolve_session org proj session_external_id (db_sessions (ms_db st0)) of
                  Inl e \<Rightarrow> (Inl e, st0)
                | Inr sess \<Rightarrow>
                    (case claim_batch E org usr (sess_id sess) messages proj st0 of
                       (Inl e, st1) \<Rightarrow> (Inl e, st1\<lparr>ms_db := ms_db st\<rparr>)
                     | (Inr (job_id, Some replay), st1) \<Rightarrow> (Inr replay, st1)
                     | (Inr (job_id, None), st1) \<Rightarrow>
                         (case ingest_guarded E commit org proj usr (sess_id sess) messages files st1 of
                            (Inl e, uploaded_keys, st2) \<Rightarrow>
                              (Inl e, release_batch E org usr (sess_id sess) messages
                                        (st2\<lparr>ms_db := ms_db st,
                                             ms_store := compensate_blob_uploads (mv_platform E) org uploaded_keys (ms_store st2)\<rparr>))
                          | (Inr (episodes, blob_count, records), _, st2) \<Rightarrow>
                              (case finalize_ingest E job_id org proj (sess_id sess) episodes records blob_count key body_hash st2 of
                                 (response, st3) \<Rightarrow> (Inr response, st3)))))))"

section \<open>Payloads round trip\<close>

lemma dec_digits_append:
  assumes "d < 10" and "\<forall>c \<in> set xs. 48 \<le> code c \<and> code c \<le> 57"
  shows "dec_digits False a (xs @ [char_of (48 + d)]) = map_option (\<lambda>n. n * 10 + d) (dec_digits False a xs)"
  using assms(2)
proof (induction xs arbitrary: a)
  case Nil
  have c: "code (char_of (48 + d)) = 48 + d" using assms(1) by simp
  have u: "code CHR ''_'' = (95 :: nat)" by simp
  have "char_of (48 + d) \<noteq> CHR ''_''"
  proof
    assume "char_of (48 + d) = CHR ''_''"
    then have "48 + d = 95" using c u by (simp only:)
    then show False using assms(1) by simp
  qed
  then show ?case using assms(1) c by simp
next
  case (Cons c xs)
  then have "c \<noteq> CHR ''_''" by auto
  then show ?case using Cons by simp
qed

lemma py_digits_ne: "py_digits n \<noteq> []"
  by (subst py_digits.simps) simp

lemma dec_digits_py_digits: "dec_digits False 0 (py_digits n) = Some n"
proof (induction n rule: py_digits.induct)
  case (1 n)
  have d: "n mod 10 < 10" by simp
  show ?case
  proof (cases "n < 10")
    case True
    then show ?thesis using dec_digits_append[of n "[]" 0] by (subst py_digits.simps) simp
  next
    case False
    then have "dec_digits False 0 (py_digits n) = map_option (\<lambda>k. k * 10 + n mod 10) (dec_digits False 0 (py_digits (n div 10)))"
      using dec_digits_append[OF d, of "py_digits (n div 10)" 0] py_digits_chars by (subst py_digits.simps) simp
    then show ?thesis using 1[OF False] by simp
  qed
qed

lemma py_int_py_digits: "py_int (py_digits n) = Inr (int n)"
proof -
  have ch: "48 \<le> code c \<and> code c \<le> 57" if "c \<in> set (py_digits n)" for c using py_digits_chars that by blast
  have "\<not> py_isspace c" if "c \<in> set (py_digits n)" for c using ch[OF that] by (simp add: py_isspace_def)
  then have st: "py_strip (py_digits n) = py_digits n" by (rule py_strip_id)
  have hd: "48 \<le> code (hd (py_digits n)) \<and> code (hd (py_digits n)) \<le> 57" using ch[of "hd (py_digits n)"] py_digits_ne by simp
  then have "hd (py_digits n) \<noteq> CHR ''-''" "hd (py_digits n) \<noteq> CHR ''+''" "hd (py_digits n) \<noteq> CHR ''_''" by (auto dest: arg_cong[of _ _ code])
  then show ?thesis by (simp add: py_int_def st Let_def dec_digits_py_digits py_digits_ne)
qed

lemma claim_payload_roundtrip: "decode_claim_payload (encode_claim_payload job n) k = (uuid_str job, int n)"
  using py_partition_found[OF uuid_str_no_colon, of job "py_digits n"]
  by (simp add: decode_claim_payload_def encode_claim_payload_def py_int_py_digits)

section \<open>What a request leaves behind\<close>

abbreviation batch_key :: "('s, 'j, 'o, 'q, 'p) mem_env \<Rightarrow> uuid \<Rightarrow> uuid \<Rightarrow> uuid \<Rightarrow> 'j mem_message list \<Rightarrow> string" where
  "batch_key E org usr sid msgs \<equiv> content_key (mv_settings E) (batch_hash E org usr sid msgs)"

lemma release_batch_simps [simp]:
  "ms_db (release_batch E org usr sid msgs st) = ms_db st" "ms_queue (release_batch E org usr sid msgs st) = ms_queue st"
  "ms_store (release_batch E org usr sid msgs st) = ms_store st" "ms_endpoints (release_batch E org usr sid msgs st) = ms_endpoints st"
  "ms_draws (release_batch E org usr sid msgs st) = ms_draws st"
  by (simp_all add: release_batch_def)

lemma release_batch_frees:
  assumes "redis_server (mv_redis E) view"
  shows "view (ms_redis (release_batch E org usr sid msgs st)) (batch_key E org usr sid msgs) = None"
proof -
  let ?k = "batch_key E org usr sid msgs"
  obtain r t where d: "redis_delete (mv_redis E) [?k] (ms_redis st) = (r, t)" by fastforce
  have "view t = (\<lambda>k. if k = ?k then None else view (ms_redis st) k)"
    using simD[OF redis_server.delete_law[OF assms] d] by (simp add: st_delete_def)
  then show ?thesis using d by (simp add: release_batch_def release_content_hash_def batch_hash_def)
qed

lemma check_request_key_view:
  assumes "redis_server (mv_redis E) view" and "check_request_key E k h org s = (r, t)"
  shows "view t = view s"
proof -
  obtain x u where c: "check_idempotency_key (mv_redis E) (mv_settings E) (mv_loads E) k h (uuid_str org) s = (x, u)" by fastforce
  have "view u = view s"
    using simD[OF check_sim[OF assms(1)] c]
    by (auto simp: check_idempotency_key_def sx_bind_def sx_return_def sx_raise_def st_get_def split: if_splits option.splits rval.splits)
  then show ?thesis using assms(2) c
    by (auto simp: check_request_key_def sx_bind_def sx_return_def sx_raise_def split: sum.splits if_splits)
qed

lemma peek_view:
  assumes "redis_server R view"
  shows "view (snd (check_content_hash R S dg org usr sess msgs s)) = view s"
proof -
  let ?k = "content_key S (compute_content_hash dg org usr sess msgs)"
  obtain r t where g: "redis_get R ?k s = (r, t)" by fastforce
  show ?thesis using simD[OF redis_server.get_law[OF assms] g] g
    by (auto simp: check_content_hash_def st_get_def split: option.splits prod.splits rval.splits)
qed

text \<open>The claim of a batch: what it does to the tables, and the shape of its results.\<close>

lemma claim_batch_frame:
  assumes "claim_batch E org usr sid msgs proj st = (r, st1)"
  shows "db_projects (ms_db st1) = db_projects (ms_db st) \<and> db_sessions (ms_db st1) = db_sessions (ms_db st)
    \<and> db_episodes (ms_db st1) = db_episodes (ms_db st) \<and> db_blobs (ms_db st1) = db_blobs (ms_db st) \<and> ms_queue st1 = ms_queue st \<and> ms_store st1 = ms_store st
    \<and> ms_endpoints st1 = ms_endpoints st \<and> ms_draws st1 = Suc (ms_draws st)"
  using assms unfolding claim_batch_def Let_def
  by (auto split: sum.splits prod.splits if_splits bool.splits)

lemma claim_batch_won:
  assumes "claim_batch E org usr sid msgs proj st = (Inr (job, None), st1)"
  shows "job = mv_uuid4 E (ms_draws st)"
    "insert_or_none (mv_db_now E) proj sid (batch_hash E org usr sid msgs) job (db_dedup (ms_db st)) = Inr (True, db_dedup (ms_db st1))"
  using assms unfolding claim_batch_def Let_def
  by (auto split: sum.splits prod.splits if_splits bool.splits)

lemma claim_batch_free:
  assumes R: "redis_server (mv_redis E) view" and ttl: "0 < idem_ttl (mv_settings E)"
    and free: "view (ms_redis st) (batch_key E org usr sid msgs) = None"
  obtains r where
    "claim_batch E org usr sid msgs proj st =
       (let job = mv_uuid4 E (ms_draws st); h = batch_hash E org usr sid msgs; s = st\<lparr>ms_redis := r, ms_draws := Suc (ms_draws st)\<rparr>;
            loser = (\<lambda>s. (Inr (job, Some (accepted_replay
              (map_option uuid_str (get_job_id (mv_db_now E) proj sid h (db_dedup (ms_db s)))) (int (length msgs)))), release_batch E org usr sid msgs s))
        in case insert_or_none (mv_db_now E) proj sid h job (db_dedup (ms_db s)) of
             Inl _ \<Rightarrow> loser s
           | Inr (False, rows) \<Rightarrow> loser (s\<lparr>ms_db := (ms_db s)\<lparr>db_dedup := rows\<rparr>\<rparr>)
           | Inr (True, rows) \<Rightarrow> (Inr (job, None), s\<lparr>ms_db := (ms_db s)\<lparr>db_dedup := rows\<rparr>\<rparr>))"
proof -
  let ?dump = "map (model_dump E) msgs" and ?pay = "encode_claim_payload (mv_uuid4 E (ms_draws st)) (length msgs)"
  let ?peek = "snd (check_content_hash (mv_redis E) (mv_settings E) (mv_digest E) (uuid_str org) (uuid_str usr) (uuid_str sid) ?dump (ms_redis st))"
  obtain x r where c: "claim_content_hash (mv_redis E) (mv_settings E) (mv_digest E) (uuid_str org) (uuid_str usr) (uuid_str sid) ?dump ?pay ?peek = (x, r)"
    by fastforce
  have "view ?peek (batch_key E org usr sid msgs) = None" by (subst peek_view[OF R]) (rule free)
  then have "x = Inr \<lparr>won = True, winner = ?pay\<rparr>"
    using simD[OF redis_server.claim_script_sim[OF R] c[unfolded claim_content_hash_def]] ttl
      claim_script_mem(1)[of "view ?peek" "batch_key E org usr sid msgs" "idem_ttl (mv_settings E)" ?pay]
    by (simp add: batch_hash_def)
  then show thesis using that[of r] c by (simp add: claim_batch_def Let_def)
qed

lemma claim_batch_total:
  assumes "redis_server (mv_redis E) view" "0 < idem_ttl (mv_settings E)" "view (ms_redis st) (batch_key E org usr sid msgs) = None"
  shows "\<exists>y. fst (claim_batch E org usr sid msgs proj st) = Inr y"
  by (rule claim_batch_free[OF assms, of proj]) (auto simp: Let_def split: sum.splits prod.splits bool.splits)

lemma ingest_guarded_frame:
  assumes "ingest_guarded E commit org proj usr sid msgs files st = (r, ks, st2)"
  shows "ms_redis st2 = ms_redis st \<and> ms_queue st2 = ms_queue st \<and> ms_endpoints st2 = ms_endpoints st
    \<and> db_dedup (ms_db st2) = db_dedup (ms_db st) \<and> db_sessions (ms_db st2) = db_sessions (ms_db st)
    \<and> db_projects (ms_db st2) = db_projects (ms_db st)"
  using assms unfolding ingest_guarded_def lock_and_insert_def write_blobs_def Let_def
  by (auto split: sum.splits prod.splits if_splits)

lemma finalize_ingest_frame:
  assumes "finalize_ingest E job org proj sid eps recs n key bh st = (rsp, st')"
  shows "ms_db st' = ms_db st \<and> ms_store st' = ms_store st \<and> ms_draws st' = ms_draws st
    \<and> rsp = \<lparr>rp_job_id = Some (uuid_str job), rp_episode_count = int (length eps), rp_blob_count = n,
             rp_message = ''Messages accepted for processing''\<rparr>"
  using assms unfolding finalize_ingest_def Let_def emit_ingest_events_def
  by (auto split: option.splits)

definition key_step :: "('s, 'j, 'o, 'q, 'p) mem_env \<Rightarrow> uuid \<Rightarrow> string option \<Rightarrow> string option \<Rightarrow> ('s, ingest_response option) sx" where
  "key_step E org key body_hash s =
     (case key of None \<Rightarrow> (Inr None, s) | Some k \<Rightarrow> check_request_key E k (or_empty body_hash) org s)"

lemma key_step_view:
  "redis_server (mv_redis E) view \<Longrightarrow> key_step E org key bh s = (r, t) \<Longrightarrow> view t = view s"
  by (auto simp: key_step_def split: option.splits dest: check_request_key_view)

text \<open>The ways a request ends.\<close>

lemma memory_ingest_cases:
  assumes "ingest E commit org proj usr ext msgs files key bh st = (x, st')"
  obtains (early) e s where "x = Inl e" "st' = st\<lparr>ms_redis := s\<rparr>" "\<And>v. redis_server (mv_redis E) v \<Longrightarrow> v s = v (ms_redis st)"
  | (replayed) rsp s where "x = Inr rsp" "st' = st\<lparr>ms_redis := s\<rparr>"
  | (unclaimed) e s sess st1 where "key_step E org key bh (ms_redis st) = (Inr None, s)"
      "resolve_session org proj ext (db_sessions (ms_db st)) = Inr sess"
      "claim_batch E org usr (sess_id sess) msgs proj (st\<lparr>ms_redis := s\<rparr>) = (Inl e, st1)" "x = Inl e" "st' = st1\<lparr>ms_db := ms_db st\<rparr>"
  | (lost) rsp job s sess where "key_step E org key bh (ms_redis st) = (Inr None, s)"
      "resolve_session org proj ext (db_sessions (ms_db st)) = Inr sess"
      "claim_batch E org usr (sess_id sess) msgs proj (st\<lparr>ms_redis := s\<rparr>) = (Inr (job, Some rsp), st')" "x = Inr rsp"
  | (failed) e job s sess st1 ks st2 where "key_step E org key bh (ms_redis st) = (Inr None, s)"
      "resolve_session org proj ext (db_sessions (ms_db st)) = Inr sess"
      "claim_batch E org usr (sess_id sess) msgs proj (st\<lparr>ms_redis := s\<rparr>) = (Inr (job, None), st1)"
      "ingest_guarded E commit org proj usr (sess_id sess) msgs files st1 = (Inl e, ks, st2)" "x = Inl e"
      "st' = release_batch E org usr (sess_id sess) msgs (st2\<lparr>ms_db := ms_db st, ms_store := compensate_blob_uploads (mv_platform E) org ks (ms_store st2)\<rparr>)"
  | (stored) rsp job s sess st1 eps n recs ks st2 where "key_step E org key bh (ms_redis st) = (Inr None, s)"
      "resolve_session org proj ext (db_sessions (ms_db st)) = Inr sess"
      "claim_batch E org usr (sess_id sess) msgs proj (st\<lparr>ms_redis := s\<rparr>) = (Inr (job, None), st1)"
      "ingest_guarded E commit org proj usr (sess_id sess) msgs files st1 = (Inr (eps, n, recs), ks, st2)" "x = Inr rsp"
      "finalize_ingest E job org proj (sess_id sess) eps recs n key bh st2 = (rsp, st')"
proof (cases "get_project org proj (db_projects (ms_db st))")
  case None
  then show thesis using early[of NotFoundError "ms_redis st"] assms by (simp add: ingest_def)
next
  case (Some p)
  obtain kr s where k: "key_step E org key bh (ms_redis st) = (kr, s)" by fastforce
  have ing: "ingest E commit org proj usr ext msgs files key bh st =
    (case (kr, s) of
       (Inl e, r) \<Rightarrow> (Inl e, st\<lparr>ms_redis := r\<rparr>)
     | (Inr (Some replay), r) \<Rightarrow> (Inr replay, st\<lparr>ms_redis := r\<rparr>)
     | (Inr None, r) \<Rightarrow>
         (case resolve_session org proj ext (db_sessions (ms_db (st\<lparr>ms_redis := r\<rparr>))) of
            Inl e \<Rightarrow> (Inl e, st\<lparr>ms_redis := r\<rparr>)
          | Inr sess \<Rightarrow>
              (case claim_batch E org usr (sess_id sess) msgs proj (st\<lparr>ms_redis := r\<rparr>) of
                 (Inl e, st1) \<Rightarrow> (Inl e, st1\<lparr>ms_db := ms_db st\<rparr>)
               | (Inr (job_id, Some replay), st1) \<Rightarrow> (Inr replay, st1)
               | (Inr (job_id, None), st1) \<Rightarrow>
                   (case ingest_guarded E commit org proj usr (sess_id sess) msgs files st1 of
                      (Inl e, ks, st2) \<Rightarrow>
                        (Inl e, release_batch E org usr (sess_id sess) msgs
                           (st2\<lparr>ms_db := ms_db st, ms_store := compensate_blob_uploads (mv_platform E) org ks (ms_store st2)\<rparr>))
                    | (Inr (eps, n, recs), _, st2) \<Rightarrow>
                        (case finalize_ingest E job_id org proj (sess_id sess) eps recs n key bh st2 of (response, st3) \<Rightarrow> (Inr response, st3))))))"
    unfolding ingest_def Some option.case Let_def k[symmetric] key_step_def ..
  have vs: "v s = v (ms_redis st)" if "redis_server (mv_redis E) v" for v by (rule key_step_view[OF that k])
  consider e where "kr = Inl e" | rsp where "kr = Inr (Some rsp)" | "kr = Inr None" by (metis option.exhaust sum.exhaust)
  then show thesis
  proof cases
    case 1
    then show thesis using assms ing vs by (intro early[of e s]) simp_all
  next
    case 2
    then show thesis using assms ing by (intro replayed[of rsp s]) simp_all
  next
    case 3
    show thesis
    proof (cases "resolve_session org proj ext (db_sessions (ms_db st))")
      case (Inl e)
      then show thesis using early[of e s] assms ing 3 vs by simp
    next
      case (Inr sess)
      obtain c st1 where c: "claim_batch E org usr (sess_id sess) msgs proj (st\<lparr>ms_redis := s\<rparr>) = (c, st1)" by fastforce
      obtain g ks st2 where g: "ingest_guarded E commit org proj usr (sess_id sess) msgs files st1 = (g, ks, st2)" by (metis prod_cases3)
      note k3 = k[unfolded 3]
      consider e where "c = Inl e" | job rsp where "c = Inr (job, Some rsp)" | job where "c = Inr (job, None)"
        by (metis option.exhaust sum.exhaust surj_pair)
      then show thesis
      proof cases
        case 1
        then show thesis using unclaimed[OF k3 Inr] c assms ing 3 Inr by auto
      next
        case 2
        then show thesis using lost[OF k3 Inr] c assms ing 3 Inr by auto
      next
        case won: (3 job)
        note c3 = c[unfolded won]
        show thesis
        proof (cases g)
          case (Inl e)
          then show thesis using failed[OF k3 Inr c3 g[unfolded Inl]] c3 g assms ing 3 Inr by auto
        next
          case gi: (Inr y)
          obtain eps n recs where y: "y = (eps, n, recs)" by (metis prod_cases3)
          show thesis using stored[OF k3 Inr c3 g[unfolded gi y]] c3 g gi y assms ing 3 Inr by (auto split: prod.splits)
        qed
      qed
    qed
  qed
qed


section \<open>Stored at most once\<close>

lemma insert_won:
  assumes "insert_or_none t proj sid h job rows = Inr (True, rows')"
  shows "\<exists>kept. rows' = kept @ [\<lparr>dd_job_id = job, dd_project_id = proj, dd_session_id = sid, dd_content_hash = h, dd_created_at = t\<rparr>]
    \<and> \<not> list_ex (same_claim proj sid h) kept"
  using assms by (auto simp: insert_or_none_def Let_def split: if_splits)

lemma insert_lost:
  assumes "r \<in> set rows" "same_claim proj sid h r" "t - DEDUP_TTL \<le> dd_created_at r"
  shows "\<exists>rows'. insert_or_none t proj sid h job rows = Inr (False, rows') \<and> rows' = filter (\<lambda>r. \<not> (same_claim proj sid h r \<and> dd_created_at r < t - DEDUP_TTL)) rows"
  using assms by (auto simp: insert_or_none_def Let_def list_ex_iff)

lemma job_found:
  assumes "\<not> list_ex (same_claim proj sid h) kept" "same_claim proj sid h r" "t - DEDUP_TTL < dd_created_at r"
  shows "get_job_id t proj sid h (filter (\<lambda>r. \<not> (same_claim proj sid h r \<and> dd_created_at r < t - DEDUP_TTL)) (kept @ [r])) = Some (dd_job_id r)"
proof -
  have none: "List.find (\<lambda>r. same_claim proj sid h r \<and> dd_created_at r > t - DEDUP_TTL) kept = None"
    using assms(1) by (auto simp: find_None_iff list_ex_iff)
  have keep: "filter (\<lambda>r. \<not> (same_claim proj sid h r \<and> dd_created_at r < t - DEDUP_TTL)) kept = kept"
    using assms(1) by (intro filter_True) (auto simp: list_ex_iff)
  have app: "List.find P (xs @ [x]) = (case List.find P xs of None \<Rightarrow> if P x then Some x else None | Some y \<Rightarrow> Some y)" for P :: "dedup_row \<Rightarrow> bool" and xs x
    by (induction xs) auto
  show ?thesis unfolding get_job_id_def filter_append keep using assms(2,3) by (simp add: app none)
qed

lemma ingest_project: "ingest E commit org proj usr ext msgs files key bh st = (Inr rsp, st') \<Longrightarrow> get_project org proj (db_projects (ms_db st)) \<noteq> None"
  by (cases "get_project org proj (db_projects (ms_db st))") (simp_all add: ingest_def)

text \<open>A request that stored episodes, taken apart.\<close>

lemma ingest_stored:
  assumes "ingest E commit org proj usr ext msgs files key bh st = (Inr rsp, st1)"
    and "db_episodes (ms_db st1) \<noteq> db_episodes (ms_db st)"
  obtains sess job kept where "resolve_session org proj ext (db_sessions (ms_db st)) = Inr sess"
    "rp_job_id rsp = Some (uuid_str job)"
    "db_dedup (ms_db st1) = kept @ [\<lparr>dd_job_id = job, dd_project_id = proj, dd_session_id = sess_id sess,
       dd_content_hash = batch_hash E org usr (sess_id sess) msgs, dd_created_at = mv_db_now E\<rparr>]"
    "\<not> list_ex (same_claim proj (sess_id sess) (batch_hash E org usr (sess_id sess) msgs)) kept"
    "db_sessions (ms_db st1) = db_sessions (ms_db st)" "db_projects (ms_db st1) = db_projects (ms_db st)"
  using assms(1)
proof (cases rule: memory_ingest_cases)
  case (replayed rsp s)
  then show thesis using assms(2) by simp
next
  case (lost rsp job s sess)
  have "db_episodes (ms_db st1) = db_episodes (ms_db st)"
    using claim_batch_frame[OF lost(3)] by simp
  then show thesis using assms(2) by simp
next
  case (stored rsp' job s sess st1' eps n recs ks st2)
  note w = claim_batch_won[OF stored(3)] and f = claim_batch_frame[OF stored(3)]
    and g = ingest_guarded_frame[OF stored(4)] and fin = finalize_ingest_frame[OF stored(6)]
  obtain kept where kept: "db_dedup (ms_db st1') = kept @ [\<lparr>dd_job_id = job, dd_project_id = proj, dd_session_id = sess_id sess,
       dd_content_hash = batch_hash E org usr (sess_id sess) msgs, dd_created_at = mv_db_now E\<rparr>]"
    "\<not> list_ex (same_claim proj (sess_id sess) (batch_hash E org usr (sess_id sess) msgs)) kept"
    using insert_won[OF w(2)] by blast
  have same: "db_sessions (ms_db st1') = db_sessions (ms_db st) \<and> db_projects (ms_db st1') = db_projects (ms_db st)"
    using f by simp
  show thesis using that[OF stored(2) _ _ kept(2)] kept(1) same g fin stored(5) by simp
qed simp_all

text \<open>
  C14: a batch is stored at most once, even if Redis forgets. After a request has stored its episodes, the same
  batch by the same user for the same session within the 48 hours of its claim stores nothing more,
  whatever state Redis is in by then, whichever files come with it and whatever happens on the way.
  If Redis has lost the claim, the answer is the job of the first request, found in the table.
\<close>

theorem memory_ingest_at_most_once:
  assumes "ingest E commit org proj usr ext msgs files key bh st = (Inr rsp, st1)"
    and "db_episodes (ms_db st1) \<noteq> db_episodes (ms_db st)"
    and "mv_digest E' = mv_digest E" "mv_blobs_json E' = mv_blobs_json E" and "mv_db_now E' - DEDUP_TTL < mv_db_now E"
    and "ms_db st2 = ms_db st1" and "ingest E' commit' org proj usr ext msgs files' key' bh' st2 = (x, st3)"
  shows "db_episodes (ms_db st3) = db_episodes (ms_db st2) \<and> db_blobs (ms_db st3) = db_blobs (ms_db st2)
    \<and> (redis_server (mv_redis E') view \<longrightarrow> ms_redis st2 = s \<longrightarrow> view s = Map.empty \<longrightarrow> 0 < idem_ttl (mv_settings E') \<longrightarrow> key' = None \<longrightarrow>
         x = Inr (accepted_replay (rp_job_id rsp) (int (length msgs))))"
proof -
  obtain sess job kept where sess: "resolve_session org proj ext (db_sessions (ms_db st)) = Inr sess" and job: "rp_job_id rsp = Some (uuid_str job)"
    and row: "db_dedup (ms_db st1) = kept @ [\<lparr>dd_job_id = job, dd_project_id = proj, dd_session_id = sess_id sess,
       dd_content_hash = batch_hash E org usr (sess_id sess) msgs, dd_created_at = mv_db_now E\<rparr>]"
    and kept: "\<not> list_ex (same_claim proj (sess_id sess) (batch_hash E org usr (sess_id sess) msgs)) kept"
    and same: "db_sessions (ms_db st1) = db_sessions (ms_db st)" "db_projects (ms_db st1) = db_projects (ms_db st)"
    by (rule ingest_stored[OF assms(1,2)])
  let ?sid = "sess_id sess" and ?h = "batch_hash E org usr (sess_id sess) msgs"
  let ?row = "\<lparr>dd_job_id = job, dd_project_id = proj, dd_session_id = ?sid, dd_content_hash = ?h, dd_created_at = mv_db_now E\<rparr>"
  have hash: "batch_hash E' org usr ?sid msgs = ?h"
    using assms(3,4) by (simp add: batch_hash_def model_dump_def[abs_def])
  have sess2: "resolve_session org proj ext (db_sessions (ms_db st2)) = Inr sess" using sess same assms(6) by simp
  have sc: "same_claim proj ?sid ?h ?row" by (simp add: same_claim_def)
  have lost: "insert_or_none (mv_db_now E') proj ?sid ?h j (db_dedup (ms_db st2))
      = Inr (False, filter (\<lambda>r. \<not> (same_claim proj ?sid ?h r \<and> dd_created_at r < mv_db_now E' - DEDUP_TTL)) (kept @ [?row]))" for j
    using insert_lost[OF _ sc, of "db_dedup (ms_db st2)" "mv_db_now E'" j] row assms(5,6) by auto
  have frame: "db_episodes (ms_db st3) = db_episodes (ms_db st2) \<and> db_blobs (ms_db st3) = db_blobs (ms_db st2)"
    using assms(7)
  proof (cases rule: memory_ingest_cases)
    case (lost rsp' job' s' sess')
    then show ?thesis using claim_batch_frame[OF lost(3)] by simp
  next
    case (stored rsp' job' s' sess' st1' eps n recs ks st2')
    have "sess' = sess" using stored(2) sess2 by simp
    then show ?thesis using claim_batch_won(2)[OF stored(3)] lost hash by simp
  qed simp_all
  have "x = Inr (accepted_replay (rp_job_id rsp) (int (length msgs)))"
    if R: "redis_server (mv_redis E') view" and s: "ms_redis st2 = s" "view s = Map.empty" and ttl: "0 < idem_ttl (mv_settings E')" and k: "key' = None"
  proof -
    obtain p where p: "get_project org proj (db_projects (ms_db st2)) = Some p"
      using ingest_project[OF assms(1)] same assms(6) by auto
    have free: "view (ms_redis st2) (batch_key E' org usr ?sid msgs) = None" using s by simp
    have found: "get_job_id (mv_db_now E') proj ?sid ?h
        (filter (\<lambda>r. \<not> (same_claim proj ?sid ?h r \<and> dd_created_at r < mv_db_now E' - DEDUP_TTL)) (kept @ [?row])) = Some job"
      using job_found[OF kept sc] assms(5) by simp
    obtain st4 j where c: "claim_batch E' org usr ?sid msgs proj st2
        = (Inr (j, Some (accepted_replay (Some (uuid_str job)) (int (length msgs)))), st4)"
      by (rule claim_batch_free[OF R ttl free, of proj]) (use lost found in \<open>simp add: hash Let_def\<close>)
    then show ?thesis using assms(7) p k sess2 job by (simp add: ingest_def)
  qed
  then show ?thesis using frame by blast
qed

section \<open>Accepted batches\<close>

definition dict_of :: "'j mem_message \<Rightarrow> 'j message_dict" where
  "dict_of m = \<lparr>md_role = mm_role m, md_content = mm_content m, md_metadata = mm_metadata m, md_created_at = mm_created_at m\<rparr>"

lemma redact_episodes_Inr:
  assumes "redact_episodes get G org ds = Inr ds'"
  shows "list_all2 (\<lambda>d d'. \<exists>r. d' = d\<lparr>md_content := r\<rparr>) ds ds'"
proof -
  have "list_all2 (\<lambda>d d'. \<exists>r. d' = d\<lparr>md_content := r\<rparr>) ds ds" by (rule list_all2_refl) (metis message_dict.surjective message_dict.update_convs(2))
  moreover have "list_all2 (\<lambda>d d'. \<exists>r. d' = d\<lparr>md_content := r\<rparr>) ds ds'"
    if "exc_map (\<lambda>d. exc_bind (redact_content G svc masker (md_content d)) (\<lambda>r. Inr (d\<lparr>md_content := r\<rparr>))) ds = Inr ds'" for svc masker
    using that unfolding exc_map_Inr_iff by (rule list_all2_mono) (auto simp: exc_bind_Inr_iff)
  ultimately show ?thesis using assms by (auto simp: redact_episodes_def exc_bind_Inr_iff split: if_splits)
qed

lemma redact_roles:
  assumes "redact_episodes get G org ds = Inr ds'"
  shows "map md_role ds' = map md_role ds" "length ds' = length ds"
  using redact_episodes_Inr[OF assms] by (induction rule: list_all2_induct) auto

lemma fold_max_ge: "a \<le> fold max xs a \<and> (\<forall>x \<in> set xs. x \<le> fold max xs (a :: int))"
proof (induction xs arbitrary: a)
  case (Cons x xs)
  from Cons[of "max x a"] show ?case by auto
qed simp

lemma next_sequence_above: "live_in sid e \<Longrightarrow> e \<in> set rows \<Longrightarrow> me_sequence_number e < get_next_sequence sid rows"
  unfolding get_next_sequence_def using fold_max_ge[of "-1" "map me_sequence_number (filter (live_in sid) rows)"] by force

text \<open>Numbers taken from the next one on never collide with those of the live rows.\<close>

lemma sequences_fresh:
  assumes "distinct (sequences rows)"
    and "\<And>e. e \<in> set new \<Longrightarrow> live_in sid e" and "map me_sequence_number new = map (\<lambda>i. get_next_sequence sid rows + int i) [0..<n]"
  shows "distinct (sequences (rows @ new))"
proof -
  have all: "filter (\<lambda>e. \<not> ep_is_deleted e) new = new" using assms(2) by (intro filter_True) (simp add: live_in_def)
  have pairs: "sequences new = map (Pair sid) (map me_sequence_number new)"
    unfolding sequences_def all using assms(2) by (simp add: live_in_def)
  have "distinct (map me_sequence_number new)" unfolding assms(3) by (simp add: distinct_map inj_on_def)
  then have "distinct (sequences new)" unfolding pairs by (simp add: distinct_map inj_on_def)
  moreover have False if x: "x \<in> set (sequences rows)" "x \<in> set (sequences new)" for x
  proof -
    have "x \<in> Pair sid ` set (map me_sequence_number new)" using x(2) unfolding pairs set_map .
    then obtain i where i: "x = (sid, get_next_sequence sid rows + int i)" unfolding assms(3) by auto
    obtain e where "e \<in> set rows" "live_in sid e" "x = (sid, me_sequence_number e)"
      using x(1) i by (auto simp: sequences_def live_in_def)
    then show False using next_sequence_above[of sid e rows] i by simp
  qed
  ultimately show ?thesis using assms(1) by (auto simp: sequences_def)
qed

lemma insert_fresh:
  assumes "\<forall>r \<in> set rows. same_claim proj sid h r \<longrightarrow> dd_created_at r < t - DEDUP_TTL" and "job \<notin> dd_job_id ` set rows"
  shows "\<exists>rows'. insert_or_none t proj sid h job rows = Inr (True, rows')"
  using assms by (auto simp: insert_or_none_def Let_def list_ex_iff)

definition roles_ok :: "'j message_dict list \<Rightarrow> bool" where
  "roles_ok ds = list_all (\<lambda>d. md_role d \<in> {''user'', ''assistant'', ''system'', ''tool''} \<and> py_len (md_content d) \<le> 65536) ds"

lemma new_episodes_shape:
  fixes ds :: "'j message_dict list" and gen now org proj sid usr start k
  defines "new \<equiv> map2 (new_episode gen now org proj sid usr start k) ds [0..<length ds]"
  shows "map me_sequence_number new = map (\<lambda>i. start + int i) [0..<length ds]" "map me_role new = map md_role ds"
    "map me_content new = map md_content ds" "map ep_id new = map (\<lambda>i. gen (k + i)) [0..<length ds]"
    "e \<in> set new \<Longrightarrow> live_in sid e" "roles_ok ds \<Longrightarrow> list_all episode_ok new" "length new = length ds"
proof -
  have nth: "new ! i = new_episode gen now org proj sid usr start k (ds ! i) i" if "i < length ds" for i
    using that by (simp add: new_def)
  have len: "length new = length ds" by (simp add: new_def)
  show "map me_sequence_number new = map (\<lambda>i. start + int i) [0..<length ds]" "map me_role new = map md_role ds"
    "map me_content new = map md_content ds" "map ep_id new = map (\<lambda>i. gen (k + i)) [0..<length ds]"
    by (rule nth_equalityI; simp add: len nth new_episode_def)+
  show "live_in sid e" if "e \<in> set new" for e
    using that len nth by (auto simp: in_set_conv_nth live_in_def new_episode_def)
  show "list_all episode_ok new" if "roles_ok ds"
    using that len nth by (auto simp: list_all_length episode_ok_def new_episode_def roles_ok_def)
  show "length new = length ds" by (rule len)
qed

lemma batch_create_fresh:
  assumes "roles_ok ds" "inj uuid4" "distinct (map ep_id rows)" "\<forall>i. uuid4 i \<notin> ep_id ` set rows" "distinct (sequences rows)"
  shows "batch_create_episodes uuid4 now org proj sid usr ds (get_next_sequence sid rows) k rows
    = Inr (map2 (new_episode uuid4 now org proj sid usr (get_next_sequence sid rows) k) ds [0..<length ds],
           rows @ map2 (new_episode uuid4 now org proj sid usr (get_next_sequence sid rows) k) ds [0..<length ds])"
proof -
  let ?new = "map2 (new_episode uuid4 now org proj sid usr (get_next_sequence sid rows) k) ds [0..<length ds]"
  note sh = new_episodes_shape[where gen = uuid4 and now = now and org = org and proj = proj and sid = sid and usr = usr
      and start = "get_next_sequence sid rows" and k = k and ds = ds]
  have "distinct (map ep_id ?new)" unfolding sh(4) using assms(2) by (force simp: distinct_map inj_on_def)
  moreover have "set (map ep_id ?new) \<inter> ep_id ` set rows = {}" unfolding sh(4) using assms(4) by auto
  ultimately have "distinct (map ep_id (rows @ ?new))"
    unfolding map_append distinct_append using assms(3) by (simp only: set_map inf.commute simp_thms)
  moreover have "distinct (sequences (rows @ ?new))" by (rule sequences_fresh[OF assms(5) sh(5) sh(1)])
  ultimately show ?thesis using sh(6)[OF assms(1)] by (simp add: batch_create_episodes_def Let_def del: map_append)
qed

lemma accepted_run:
  assumes "redis_server (mv_redis E) view" and "0 < idem_ttl (mv_settings E)"
    and "get_project org proj (db_projects (ms_db st)) = Some p" and "resolve_session org proj ext (db_sessions (ms_db st)) = Inr sess"
    and "view (ms_redis st) (batch_key E org usr (sess_id sess) msgs) = None"
    and "\<forall>r \<in> set (db_dedup (ms_db st)). same_claim proj (sess_id sess) (batch_hash E org usr (sess_id sess) msgs) r \<longrightarrow>
           dd_created_at r < mv_db_now E - DEDUP_TTL"
    and "mv_uuid4 E (ms_draws st) \<notin> dd_job_id ` set (db_dedup (ms_db st))"
    and "redact_episodes (mv_org_pii E) (mv_engine E) org (map dict_of msgs) = Inr ds" and "roles_ok ds"
    and "inj (mv_uuid4 E)" "distinct (map ep_id (db_episodes (ms_db st)))" "\<forall>i. mv_uuid4 E i \<notin> ep_id ` set (db_episodes (ms_db st))"
    and "distinct (sequences (db_episodes (ms_db st)))" and "\<forall>m \<in> set msgs. mm_blobs m = []"
  defines "new \<equiv> map2 (new_episode (mv_uuid4 E) (mv_now E) org proj (sess_id sess) usr
      (get_next_sequence (sess_id sess) (db_episodes (ms_db st))) (Suc (ms_draws st))) ds [0..<length ds]"
  obtains rsp st1 where "ingest E (Inr ()) org proj usr ext msgs [] None bh st = (Inr rsp, st1)"
    "rp_job_id rsp = Some (uuid_str (mv_uuid4 E (ms_draws st)))" "rp_episode_count rsp = int (length msgs)"
    "db_episodes (ms_db st1) = db_episodes (ms_db st) @ new"
proof -
  let ?sid = "sess_id sess" and ?job = "mv_uuid4 E (ms_draws st)" and ?eps = "db_episodes (ms_db st)"
  let ?start = "get_next_sequence ?sid ?eps"
  obtain rows where ins: "insert_or_none (mv_db_now E) proj ?sid (batch_hash E org usr ?sid msgs) ?job (db_dedup (ms_db st)) = Inr (True, rows)"
    using insert_fresh[OF assms(6,7)] by blast
  obtain r where claim: "claim_batch E org usr ?sid msgs proj st
      = (Inr (?job, None), st\<lparr>ms_redis := r, ms_draws := Suc (ms_draws st), ms_db := (ms_db st)\<lparr>db_dedup := rows\<rparr>\<rparr>)"
    by (rule claim_batch_free[OF assms(1,2,5), of proj]) (use ins in \<open>simp add: Let_def\<close>)
  let ?st1 = "st\<lparr>ms_redis := r, ms_draws := Suc (ms_draws st), ms_db := (ms_db st)\<lparr>db_dedup := rows\<rparr>\<rparr>"
  let ?new = "map2 (new_episode (mv_uuid4 E) (mv_now E) org proj ?sid usr ?start (Suc (ms_draws st))) ds [0..<length ds]"
  let ?st2 = "?st1\<lparr>ms_db := (ms_db ?st1)\<lparr>db_episodes := ?eps @ ?new\<rparr>, ms_draws := ms_draws ?st1 + length ds\<rparr>"
  have red: "redact_episodes (mv_org_pii E) (mv_engine E) org (map (\<lambda>m. \<lparr>md_role = mm_role m, md_content = mm_content m,
      md_metadata = mm_metadata m, md_created_at = mm_created_at m\<rparr>) msgs) = Inr ds" using assms(8) by (simp add: dict_of_def[abs_def])
  have ins2: "lock_and_insert E org proj ?sid usr ds ?st1 = (Inr ?new, ?st2)"
    using batch_create_fresh[OF assms(9-13), of "mv_now E" org proj ?sid usr "Suc (ms_draws st)"]
    by (simp add: lock_and_insert_def Let_def)
  have "\<not> list_ex (\<lambda>m. mm_blobs m \<noteq> []) msgs" using assms(14) by (auto simp: list_ex_iff)
  then have g: "ingest_guarded E (Inr ()) org proj usr ?sid msgs [] ?st1 = (Inr (?new, 0, []), [], ?st2)"
    unfolding ingest_guarded_def Let_def red sum.case ins2 prod.case by (simp add: write_blobs_def)
  obtain rsp st3 where f: "finalize_ingest E ?job org proj ?sid ?new [] 0 None bh ?st2 = (rsp, st3)" by fastforce
  note fin = finalize_ingest_frame[OF f]
  have run: "ingest E (Inr ()) org proj usr ext msgs [] None bh st = (Inr rsp, st3)"
    unfolding ingest_def assms(3) option.case Let_def prod.case sum.case using assms(4) claim g f by simp
  show thesis by (rule that[OF run]) (use fin redact_roles[OF assms(8)] in \<open>simp_all add: new_def\<close>)
qed

text \<open>
  C13: an acceptable batch is accepted and stored in order. With an existing project and session, a claim nobody
  holds in Redis or in the table for 48 hours, contents that can be redacted and fit the columns, and
  fresh ids, a request without attachments returns the new job, and the session has gained one live
  episode per message with its role and redacted content, numbered upwards from the next free
  sequence number: the unique index on (session, number) cannot fail, and stays satisfied.
\<close>

theorem memory_ingest_accepts:
  assumes "redis_server (mv_redis E) view" and "0 < idem_ttl (mv_settings E)"
    and "get_project org proj (db_projects (ms_db st)) = Some p" and "resolve_session org proj ext (db_sessions (ms_db st)) = Inr sess"
    and "view (ms_redis st) (batch_key E org usr (sess_id sess) msgs) = None"
    and "\<forall>r \<in> set (db_dedup (ms_db st)). same_claim proj (sess_id sess) (batch_hash E org usr (sess_id sess) msgs) r \<longrightarrow>
           dd_created_at r < mv_db_now E - DEDUP_TTL"
    and "mv_uuid4 E (ms_draws st) \<notin> dd_job_id ` set (db_dedup (ms_db st))"
    and "redact_episodes (mv_org_pii E) (mv_engine E) org (map dict_of msgs) = Inr ds" and "roles_ok ds"
    and "inj (mv_uuid4 E)" "distinct (map ep_id (db_episodes (ms_db st)))" "\<forall>i. mv_uuid4 E i \<notin> ep_id ` set (db_episodes (ms_db st))"
    and "distinct (sequences (db_episodes (ms_db st)))" and "\<forall>m \<in> set msgs. mm_blobs m = []"
  shows "\<exists>rsp st1 new. ingest E (Inr ()) org proj usr ext msgs [] None bh st = (Inr rsp, st1)
    \<and> rp_job_id rsp = Some (uuid_str (mv_uuid4 E (ms_draws st))) \<and> rp_episode_count rsp = int (length msgs)
    \<and> db_episodes (ms_db st1) = db_episodes (ms_db st) @ new \<and> list_all (live_in (sess_id sess)) new
    \<and> map me_role new = map mm_role msgs \<and> map me_content new = map md_content ds
    \<and> map me_sequence_number new = map (\<lambda>i. get_next_sequence (sess_id sess) (db_episodes (ms_db st)) + int i) [0..<length msgs]
    \<and> distinct (sequences (db_episodes (ms_db st1)))"
proof -
  let ?sid = "sess_id sess" and ?eps = "db_episodes (ms_db st)"
  let ?start = "get_next_sequence ?sid ?eps"
  let ?new = "map2 (new_episode (mv_uuid4 E) (mv_now E) org proj ?sid usr ?start (Suc (ms_draws st))) ds [0..<length ds]"
  obtain rsp st3 where run: "ingest E (Inr ()) org proj usr ext msgs [] None bh st = (Inr rsp, st3)"
    "rp_job_id rsp = Some (uuid_str (mv_uuid4 E (ms_draws st)))" "rp_episode_count rsp = int (length msgs)"
    "db_episodes (ms_db st3) = ?eps @ ?new"
    by (rule accepted_run[OF assms])
  note sh = new_episodes_shape[where gen = "mv_uuid4 E" and now = "mv_now E" and org = org and proj = proj and sid = ?sid and usr = usr
      and start = ?start and k = "Suc (ms_draws st)" and ds = ds]
  have len: "length ds = length msgs" and roles: "map md_role ds = map mm_role msgs"
    using redact_roles[OF assms(8)] by (simp_all add: dict_of_def comp_def)
  have dist: "distinct (sequences (?eps @ ?new))" by (rule sequences_fresh[OF assms(13) sh(5,1)])
  have live: "list_all (live_in ?sid) ?new" using sh(5) by (simp add: list_all_iff del: set_map set_zip)
  show ?thesis
    by (rule exI[of _ rsp], rule exI[of _ st3], rule exI[of _ ?new])
      (use run sh(1,2,3,7) len roles dist live in \<open>simp del: list.map\<close>)
qed

text \<open>
  When an upload fails, the keys of the objects already written are not known to the handler: they stay in the
  object store while their rows are rolled back.
\<close>

lemma failed_upload_keeps_objects:
  assumes "redact_episodes (mv_org_pii E) (mv_engine E) org (map dict_of msgs) = Inr ds"
    and "lock_and_insert E org proj sid usr ds st = (Inr eps, st1)" and "write_blobs E org proj sid usr eps msgs files st1 = (Inl e, st2)"
  shows "ingest_guarded E commit org proj usr sid msgs files st = (Inl e, [], st2)
    \<and> compensate_blob_uploads (mv_platform E) org [] (ms_store st2) = ms_store st2"
  using assms by (simp add: ingest_guarded_def Let_def dict_of_def[abs_def] compensate_blob_uploads_def)

section \<open>Request schema\<close>

text \<open>
  The validator of \<^verbatim>\<open>Message.content\<close>: the fields validated so far are those declared before it, so the list of
  blobs, declared after it, is not among them.
\<close>

definition check_at_least_one_or_bytesize :: "blob_meta list option \<Rightarrow> string \<Rightarrow> string res" where
  "check_at_least_one_or_bytesize blobs_so_far v =
     (if v = [] \<and> or_default blobs_so_far [] = [] then Inl ValueError
      else if v \<noteq> [] \<and> length v > 65536 then Inl ValueError
      else Inr v)"

definition validate_message :: "'j mem_message \<Rightarrow> 'j mem_message res" where
  "validate_message m =
     (if mm_role m \<notin> {''user'', ''assistant'', ''system'', ''tool''} then Inl ValueError
      else if py_len (mm_content m) > 65536 then Inl ValueError
      else exc_bind (check_at_least_one_or_bytesize None (mm_content m)) (\<lambda>c. Inr (m\<lparr>mm_content := c\<rparr>)))"

lemma empty_content_rejected: "mm_content m = [] \<Longrightarrow> validate_message m = Inl ValueError"
  by (simp add: validate_message_def check_at_least_one_or_bytesize_def or_default_def)

section \<open>Examples\<close>

definition quiet_engine :: pii_engine where
  "quiet_engine = \<lparr>finditer = (\<lambda>_ _. []), nlp_ents = (\<lambda>_. Inr [])\<rparr>"

definition sample_mem_env :: "(store, unit, string \<rightharpoonup> string, episode_job list, unit) mem_env" where
  "sample_mem_env = \<lparr>mv_redis = mem_redis, mv_settings = sample_settings, mv_loads = (\<lambda>_. None), mv_dumps = (\<lambda>_. []),
     mv_digest = (\<lambda>c. can_session_id c), mv_blobs_json = (\<lambda>_. ()), mv_now = 100, mv_created_at = ''now'', mv_db_now = 100,
     mv_uuid4 = (\<lambda>n. n + 1000), mv_org_pii = (\<lambda>_. Inr (Some \<lparr>op_pii_mode = None, op_pii_sensitivity = None,
       op_pii_enabled_types = None, op_pii_min_confidence = None\<rparr>)), mv_engine = quiet_engine,
     mv_platform = sample_platform (\<lambda>_. False), mv_arq = Some (fifo_enqueue (\<lambda>_. False)), mv_arq_blob = None,
     mv_environment = ''dev'', mv_hooks = None\<rparr>"

definition sample_mem_state :: "(store, unit, string \<rightharpoonup> string, episode_job list) mem_state" where
  "sample_mem_state = \<lparr>ms_redis = Map.empty,
     ms_db = \<lparr>db_projects = [\<lparr>pr_id = 2, pr_organization_id = 1, pr_is_archived = False\<rparr>],
       db_sessions = [\<lparr>sess_id = 9, sess_project_id = 2, sess_external_id = ''s'', sess_organization_id = 1, sess_is_deleted = False\<rparr>],
       db_dedup = [], db_episodes = [], db_blobs = []\<rparr>,
     ms_store = Map.empty, ms_queue = [], ms_endpoints = [], ms_draws = 0\<rparr>"

definition sample_message :: "unit mem_message" where
  "sample_message = \<lparr>mm_role = ''user'', mm_content = ''hi'', mm_created_at = None, mm_metadata = (), mm_blobs = []\<rparr>"

lemma sample_session_found:
  "resolve_session 1 2 ''s'' (db_sessions (ms_db sample_mem_state)) =
     Inr \<lparr>sess_id = 9, sess_project_id = 2, sess_external_id = ''s'', sess_organization_id = 1, sess_is_deleted = False\<rparr>"
  by (simp add: resolve_session_def get_by_external_id_def sample_mem_state_def)

lemma sample_redacted:
  "redact_episodes (mv_org_pii sample_mem_env) (mv_engine sample_mem_env) 1 (map dict_of [sample_message]) = Inr (map dict_of [sample_message])"
proof -
  have "detect quiet_engine D t = Inr []" if "\<not> dt_use_ner D" for D t
    using that by (simp add: detect_def raw_detections_def scan_regex_def quiet_engine_def merge_overlapping_def confidence_filter_def map_replicate_const)
  then have "process_message quiet_engine \<lparr>pc_mode = ''mask'', pc_sensitivity = None, pc_enabled_types = None, pc_min_confidence = None\<rparr> c = Inr c" for c
    by (simp add: process_message_def detector_of_def)
  then show ?thesis
    by (simp add: redact_episodes_def get_org_pii_config_def pii_service_def sample_mem_env_def redact_content_def)
qed

lemma sample_accept_facts:
  "redis_server (mv_redis sample_mem_env) (\<lambda>s. s)" "0 < idem_ttl (mv_settings sample_mem_env)"
  "get_project 1 2 (db_projects (ms_db sample_mem_state)) = Some \<lparr>pr_id = 2, pr_organization_id = 1, pr_is_archived = False\<rparr>"
  "ms_redis sample_mem_state k = None" "roles_ok (map dict_of [sample_message])" "inj (mv_uuid4 sample_mem_env)"
  "db_dedup (ms_db sample_mem_state) = []" "db_episodes (ms_db sample_mem_state) = []"
proof -
  have "py_len ''hi'' \<le> 65536" by (simp add: py_len_def utf8_cont_def)
  then show "roles_ok (map dict_of [sample_message])" by (simp add: roles_ok_def dict_of_def sample_message_def)
qed (simp_all add: sample_mem_env_def sample_mem_state_def mem.redis_server_axioms sample_settings_def get_project_def inj_def)

lemma sample_accepted:
  obtains rsp st1 where "ingest sample_mem_env (Inr ()) 1 2 3 ''s'' [sample_message] [] None None sample_mem_state = (Inr rsp, st1)"
    "rp_job_id rsp = Some (uuid_str 1000)" "length (db_episodes (ms_db st1)) = 1"
proof (rule accepted_run[OF sample_accept_facts(1,2,3) sample_session_found _ _ _ sample_redacted sample_accept_facts(5,6),
      of 3 None])
  fix rsp st1
  assume run: "ingest sample_mem_env (Inr ()) 1 2 3 ''s'' [sample_message] [] None None sample_mem_state = (Inr rsp, st1)"
    and job: "rp_job_id rsp = Some (uuid_str (mv_uuid4 sample_mem_env (ms_draws sample_mem_state)))"
    and eps: "db_episodes (ms_db st1) = db_episodes (ms_db sample_mem_state) @
      map2 (new_episode (mv_uuid4 sample_mem_env) (mv_now sample_mem_env) 1 2 (sess_id \<lparr>sess_id = 9, sess_project_id = 2, sess_external_id = ''s'', sess_organization_id = 1, sess_is_deleted = False\<rparr>) 3
        (get_next_sequence (sess_id \<lparr>sess_id = 9, sess_project_id = 2, sess_external_id = ''s'', sess_organization_id = 1, sess_is_deleted = False\<rparr>) (db_episodes (ms_db sample_mem_state))) (Suc (ms_draws sample_mem_state)))
        (map dict_of [sample_message]) [0..<length (map dict_of [sample_message])]"
  have "mv_uuid4 sample_mem_env (ms_draws sample_mem_state) = 1000" by (simp add: sample_mem_env_def sample_mem_state_def)
  moreover have "length (db_episodes (ms_db st1)) = 1" unfolding eps by (simp add: sample_accept_facts(8))
  ultimately show thesis using that[OF run] job by simp
qed (simp_all add: sample_accept_facts sequences_def sample_message_def)


theorem memory_ingest_at_most_once_witness:
  "\<exists>rsp st1. ingest sample_mem_env (Inr ()) 1 2 3 ''s'' [sample_message] [] None None sample_mem_state = (Inr rsp, st1)
     \<and> fst (ingest (sample_mem_env\<lparr>mv_db_now := 500\<rparr>) (Inr ()) 1 2 3 ''s'' [sample_message] [''bytes''] None None (st1\<lparr>ms_redis := Map.empty\<rparr>))
         = Inr (accepted_replay (rp_job_id rsp) 1)"
proof -
  obtain rsp st1 where run: "ingest sample_mem_env (Inr ()) 1 2 3 ''s'' [sample_message] [] None None sample_mem_state = (Inr rsp, st1)"
    and len: "length (db_episodes (ms_db st1)) = 1" by (rule sample_accepted)
  have ne: "db_episodes (ms_db st1) \<noteq> db_episodes (ms_db sample_mem_state)" using len sample_accept_facts(8) by auto
  let ?E = "sample_mem_env\<lparr>mv_db_now := 500\<rparr>" and ?st2 = "st1\<lparr>ms_redis := Map.empty\<rparr>"
  obtain x st3 where second: "ingest ?E (Inr ()) 1 2 3 ''s'' [sample_message] [''bytes''] None None ?st2 = (x, st3)" by fastforce
  have R: "redis_server (mv_redis ?E) (\<lambda>s. s)" and ttl: "0 < idem_ttl (mv_settings ?E)" using sample_accept_facts(1,2) by simp_all
  have "mv_db_now ?E - DEDUP_TTL < mv_db_now sample_mem_env" by (simp add: DEDUP_TTL_def sample_mem_env_def)
  from memory_ingest_at_most_once[OF run ne _ _ this _ second, of "\<lambda>s. s" Map.empty] R ttl
  show ?thesis using run second by simp
qed

theorem memory_ingest_accepts_witness:
  "\<exists>rsp st1. ingest sample_mem_env (Inr ()) 1 2 3 ''s'' [sample_message] [] None None sample_mem_state = (Inr rsp, st1)
     \<and> map me_sequence_number (db_episodes (ms_db st1)) = [0] \<and> map me_content (db_episodes (ms_db st1)) = [''hi'']"
proof -
  have "\<exists>rsp st1 new. ingest sample_mem_env (Inr ()) 1 2 3 ''s'' [sample_message] [] None None sample_mem_state = (Inr rsp, st1)
      \<and> db_episodes (ms_db st1) = new \<and> map me_content new = map md_content (map dict_of [sample_message])
      \<and> map me_sequence_number new = map (\<lambda>i. get_next_sequence 9 ([] :: unit mem_episode list) + int i) [0..<length [sample_message]]"
    using memory_ingest_accepts[OF sample_accept_facts(1,2,3) sample_session_found _ _ _ sample_redacted sample_accept_facts(5,6),
      of 3 None]
    by (simp add: sample_accept_facts(4,7,8) sequences_def sample_message_def) (elim exE conjE, intro exI conjI, assumption+)
  then show ?thesis by (auto simp: get_next_sequence_def dict_of_def sample_message_def)
qed

end
