(* ===== verification/Accounts.thy ===== *)
theory Accounts
  imports Conflict_Matching
begin

text \<open>
  Dashboard accounts: the user table (\<^verbatim>\<open>models/user.py\<close>), the refresh tokens
  (\<^verbatim>\<open>models/refresh_token.py\<close>), the statements of \<^verbatim>\<open>repositories/auth_repository.py\<close> on both, and token
  issuance and rotation (\<^verbatim>\<open>services/auth/token.py\<close>). The hash of a token, the signature of an access
  token, the random token and the id of a new row are parameters. Row-level security is left out.
  Shown: a family of rotated tokens behaves like one session that any replay ends, as long as it has
  been rotated at most thirty times, and that a replay after more rotations leaves it alive.
\<close>

section \<open>Tables\<close>

record user_row =
  us_id :: uuid
  us_organization_id :: uuid
  us_external_id :: string
  us_email :: "string option"
  us_name :: "string option"
  us_role :: "string option"
  us_permissions :: "string list"
  us_password_hash :: "string option"
  us_is_active :: bool
  us_must_change_password :: bool
  us_is_deleted :: bool
  us_is_email_verified :: bool
  us_email_verified_at :: "datetime option"
  us_mfa_enabled :: bool
  us_invite_token_hash :: "string option"

text \<open>The column \<^verbatim>\<open>user_id\<close> holds the text of the user's UUID.\<close>

record refresh_token =
  rt_id :: uuid
  rt_user_id :: uuid
  rt_organization_id :: uuid
  rt_token_hash :: string
  rt_expires_at :: datetime
  rt_is_revoked :: bool
  rt_rotated_by :: "uuid option"

record auth_db =
  ad_users :: "user_row list"
  ad_tokens :: "refresh_token list"

section \<open>The repository\<close>

definition find_user_by_email :: "string \<Rightarrow> auth_db \<Rightarrow> user_row option" where
  "find_user_by_email email db = List.find (\<lambda>u. us_email u = Some email \<and> \<not> us_is_deleted u) (ad_users db)"

definition get_user_by_id :: "uuid \<Rightarrow> auth_db \<Rightarrow> user_row option" where
  "get_user_by_id uid db = List.find (\<lambda>u. us_id u = uid \<and> \<not> us_is_deleted u) (ad_users db)"

definition create_refresh_token :: "uuid \<Rightarrow> uuid \<Rightarrow> uuid \<Rightarrow> string \<Rightarrow> datetime \<Rightarrow> auth_db \<Rightarrow> auth_db res" where
  "create_refresh_token new_id uid org token_hash expires_at db =
     (if new_id \<in> rt_id ` set (ad_tokens db) \<or> token_hash \<in> rt_token_hash ` set (ad_tokens db) then Inl IntegrityError
      else Inr (db\<lparr>ad_tokens := ad_tokens db @ [\<lparr>rt_id = new_id, rt_user_id = uid, rt_organization_id = org, rt_token_hash = token_hash,
                rt_expires_at = expires_at, rt_is_revoked = False, rt_rotated_by = None\<rparr>]\<rparr>))"

definition get_refresh_token_by_hash :: "string \<Rightarrow> auth_db \<Rightarrow> refresh_token option" where
  "get_refresh_token_by_hash token_hash db = List.find (\<lambda>t. rt_token_hash t = token_hash) (ad_tokens db)"

definition get_refresh_token_by_id :: "uuid \<Rightarrow> auth_db \<Rightarrow> refresh_token option" where
  "get_refresh_token_by_id token_id db = List.find (\<lambda>t. rt_id t = token_id) (ad_tokens db)"

definition is_current :: "datetime \<Rightarrow> string \<Rightarrow> refresh_token \<Rightarrow> bool" where
  "is_current now token_hash t \<longleftrightarrow> rt_token_hash t = token_hash \<and> \<not> rt_is_revoked t \<and> rt_expires_at t > now"

definition revoke_refresh_token_if_current :: "datetime \<Rightarrow> string \<Rightarrow> auth_db \<Rightarrow> bool \<times> auth_db" where
  "revoke_refresh_token_if_current now token_hash db =
     (length (filter (is_current now token_hash) (ad_tokens db)) = 1,
      db\<lparr>ad_tokens := map (\<lambda>t. if is_current now token_hash t then t\<lparr>rt_is_revoked := True\<rparr> else t) (ad_tokens db)\<rparr>)"

definition set_refresh_token_rotated_by :: "uuid \<Rightarrow> uuid \<Rightarrow> auth_db \<Rightarrow> auth_db" where
  "set_refresh_token_rotated_by token_id rotated_by db =
     db\<lparr>ad_tokens := map (\<lambda>t. if rt_id t = token_id then t\<lparr>rt_rotated_by := Some rotated_by\<rparr> else t) (ad_tokens db)\<rparr>"

definition revoke_refresh_token_ids :: "uuid list \<Rightarrow> auth_db \<Rightarrow> auth_db" where
  "revoke_refresh_token_ids token_ids db =
     db\<lparr>ad_tokens := map (\<lambda>t. if rt_id t \<in> set token_ids \<and> \<not> rt_is_revoked t then t\<lparr>rt_is_revoked := True\<rparr> else t) (ad_tokens db)\<rparr>"

definition revoke_all_refresh_tokens :: "uuid \<Rightarrow> auth_db \<Rightarrow> auth_db" where
  "revoke_all_refresh_tokens uid db =
     db\<lparr>ad_tokens := map (\<lambda>t. if rt_user_id t = uid \<and> \<not> rt_is_revoked t then t\<lparr>rt_is_revoked := True\<rparr> else t) (ad_tokens db)\<rparr>"

text \<open>Attribute writes on the row that \<^verbatim>\<open>get_user_by_id\<close> returned.\<close>

definition change_user :: "uuid \<Rightarrow> (user_row \<Rightarrow> user_row) \<Rightarrow> auth_db \<Rightarrow> auth_db res" where
  "change_user uid f db =
     (case get_user_by_id uid db of
        None \<Rightarrow> Inl NotFoundError
      | Some _ \<Rightarrow> Inr (db\<lparr>ad_users := map (\<lambda>u. if us_id u = uid \<and> \<not> us_is_deleted u then f u else u) (ad_users db)\<rparr>))"

definition mark_email_verified :: "datetime \<Rightarrow> uuid \<Rightarrow> auth_db \<Rightarrow> auth_db res" where
  "mark_email_verified now uid = change_user uid (\<lambda>u. u\<lparr>us_is_email_verified := True, us_email_verified_at := Some now\<rparr>)"

definition reset_email_verification :: "uuid \<Rightarrow> auth_db \<Rightarrow> auth_db res" where
  "reset_email_verification uid = change_user uid (\<lambda>u. u\<lparr>us_is_email_verified := False, us_email_verified_at := None\<rparr>)"

definition set_mfa_enabled :: "uuid \<Rightarrow> bool \<Rightarrow> auth_db \<Rightarrow> auth_db res" where
  "set_mfa_enabled uid enabled = change_user uid (\<lambda>u. u\<lparr>us_mfa_enabled := enabled\<rparr>)"

definition update_dashboard_user ::
  "uuid \<Rightarrow> string option \<Rightarrow> string option \<Rightarrow> string option \<Rightarrow> bool option \<Rightarrow> auth_db \<Rightarrow> auth_db res" where
  "update_dashboard_user uid name email password_hash must_change =
     change_user uid (\<lambda>u.
       let u = (case name of None \<Rightarrow> u | Some n \<Rightarrow> u\<lparr>us_name := Some n\<rparr>);
           u = (case email of None \<Rightarrow> u | Some e \<Rightarrow> u\<lparr>us_email := Some e, us_external_id := e\<rparr>);
           u = (case password_hash of None \<Rightarrow> u | Some h \<Rightarrow> u\<lparr>us_password_hash := Some h\<rparr>)
       in (case must_change of None \<Rightarrow> u | Some b \<Rightarrow> u\<lparr>us_must_change_password := b\<rparr>))"

section \<open>Tokens\<close>

record claims =
  cl_sub :: string
  cl_org_id :: string
  cl_role :: string
  cl_mcp :: bool
  cl_type :: string

record token_env =
  te_sha256 :: "string \<Rightarrow> string"
  te_jwt :: "claims \<Rightarrow> datetime \<Rightarrow> int \<Rightarrow> string" \<comment> \<open>claims, now, time to live\<close>
  te_access_ttl :: int
  te_refresh_ttl :: int

text \<open>What a request draws: the random refresh token and the id of its row.\<close>

record token_draw =
  dr_raw :: string
  dr_id :: uuid

record token_response =
  tr_access_token :: string
  tr_refresh_token :: string
  tr_expires_in :: int

definition issue_tokens ::
  "token_env \<Rightarrow> datetime \<Rightarrow> token_draw \<Rightarrow> uuid \<Rightarrow> uuid \<Rightarrow> string \<Rightarrow> auth_db \<Rightarrow> (token_response \<times> auth_db) res" where
  "issue_tokens E now d uid org role db =
     (let mcp = (case get_user_by_id uid db of Some u \<Rightarrow> us_must_change_password u | None \<Rightarrow> False);
          access = te_jwt E \<lparr>cl_sub = uuid_str uid, cl_org_id = uuid_str org, cl_role = role, cl_mcp = mcp, cl_type = ''access''\<rparr>
                     now (te_access_ttl E)
      in exc_bind (create_refresh_token (dr_id d) uid org (te_sha256 E (dr_raw d)) (now + te_refresh_ttl E) db) (\<lambda>db'.
           Inr (\<lparr>tr_access_token = access, tr_refresh_token = dr_raw d, tr_expires_in = te_access_ttl E div 1000000\<rparr>, db')))"

definition REFRESH_FAMILY_WALK_LIMIT :: nat where "REFRESH_FAMILY_WALK_LIMIT = 30"

text \<open>The loop of \<^verbatim>\<open>_revoke_family\<close>; the ids collected so far are also the ids seen.\<close>

fun walk_family :: "nat \<Rightarrow> refresh_token \<Rightarrow> uuid list \<Rightarrow> auth_db \<Rightarrow> uuid list" where
  "walk_family 0 node family_ids db = family_ids"
| "walk_family (Suc n) node family_ids db =
     (case rt_rotated_by node of
        None \<Rightarrow> family_ids
      | Some nxt \<Rightarrow>
          if nxt \<in> set family_ids then family_ids
          else (case get_refresh_token_by_id nxt db of
                  None \<Rightarrow> family_ids @ [nxt]
                | Some successor \<Rightarrow> walk_family n successor (family_ids @ [nxt]) db))"

definition revoke_family :: "string \<Rightarrow> auth_db \<Rightarrow> auth_db" where
  "revoke_family token_hash db =
     (case get_refresh_token_by_hash token_hash db of
        None \<Rightarrow> db
      | Some presented \<Rightarrow> revoke_refresh_token_ids (walk_family REFRESH_FAMILY_WALK_LIMIT presented [rt_id presented] db) db)"

definition role_of :: "user_row \<Rightarrow> string" where
  "role_of u = (case us_role u of Some r \<Rightarrow> r | None \<Rightarrow> ''member'')"

text \<open>
  A request on its own transaction: an error rolls the tables back, except that \<^verbatim>\<open>_revoke_family\<close> commits
  before the error is raised. The conditional update locks the row it claims, so that requests that
  present the same token run one after the other.
\<close>

definition refresh :: "token_env \<Rightarrow> datetime \<Rightarrow> token_draw \<Rightarrow> string \<Rightarrow> auth_db \<Rightarrow> token_response res \<times> auth_db" where
  "refresh E now d raw_token db =
     (let h = te_sha256 E raw_token in
      case revoke_refresh_token_if_current now h db of
        (False, claimed) \<Rightarrow> (Inl AuthenticationError, revoke_family h claimed)
      | (True, claimed) \<Rightarrow>
          (case get_refresh_token_by_hash h claimed of
             None \<Rightarrow> (Inl AuthenticationError, db)
           | Some stored \<Rightarrow>
               (case get_user_by_id (rt_user_id stored) claimed of
                  None \<Rightarrow> (Inl AuthenticationError, db)
                | Some u \<Rightarrow>
                    if \<not> us_is_active u \<or> us_is_deleted u then (Inl AuthenticationError, db)
                    else (case issue_tokens E now d (rt_user_id stored) (rt_organization_id stored) (role_of u) claimed of
                            Inl e \<Rightarrow> (Inl e, db)
                          | Inr (new_tokens, issued) \<Rightarrow>
                              (case get_refresh_token_by_hash (te_sha256 E (tr_refresh_token new_tokens)) issued of
                                 None \<Rightarrow> (Inr new_tokens, issued)
                               | Some new_stored \<Rightarrow> (Inr new_tokens, set_refresh_token_rotated_by (rt_id stored) (rt_id new_stored) issued))))))"


section \<open>Families of tokens\<close>

definition tables_ok :: "auth_db \<Rightarrow> bool" where
  "tables_ok db \<longleftrightarrow> distinct (map rt_id (ad_tokens db)) \<and> distinct (map rt_token_hash (ad_tokens db))"

definition linked :: "refresh_token list \<Rightarrow> bool" where
  "linked ts \<longleftrightarrow> successively (\<lambda>a b. rt_rotated_by a = Some (rt_id b)) ts"

lemma find_by_key:
  assumes "distinct (map k xs)" and "x \<in> set xs"
  shows "List.find (\<lambda>y. k y = k x) xs = Some x"
  using assms by (induction xs) (auto simp: rev_image_eqI)

lemma token_by_id: "tables_ok db \<Longrightarrow> t \<in> set (ad_tokens db) \<Longrightarrow> get_refresh_token_by_id (rt_id t) db = Some t"
  by (simp add: get_refresh_token_by_id_def tables_ok_def find_by_key)

lemma token_by_hash: "tables_ok db \<Longrightarrow> t \<in> set (ad_tokens db) \<Longrightarrow> get_refresh_token_by_hash (rt_token_hash t) db = Some t"
  by (simp add: get_refresh_token_by_hash_def tables_ok_def find_by_key)

lemma same_hash: "tables_ok db \<Longrightarrow> s \<in> set (ad_tokens db) \<Longrightarrow> t \<in> set (ad_tokens db) \<Longrightarrow> rt_token_hash s = rt_token_hash t \<longleftrightarrow> s = t"
  using inj_on_contraD[of rt_token_hash "set (ad_tokens db)" s t] by (auto simp: tables_ok_def distinct_map)

lemma same_id: "tables_ok db \<Longrightarrow> s \<in> set (ad_tokens db) \<Longrightarrow> t \<in> set (ad_tokens db) \<Longrightarrow> rt_id s = rt_id t \<longleftrightarrow> s = t"
  using inj_on_contraD[of rt_id "set (ad_tokens db)" s t] by (auto simp: tables_ok_def distinct_map)

lemma walk_linked:
  assumes "tables_ok db" and "set (t # ts) \<subseteq> set (ad_tokens db)" and "linked (t # ts)" and "rt_rotated_by (last (t # ts)) = None"
    and "distinct (map rt_id ts)" and "rt_id ` set ts \<inter> set fam = {}"
  shows "walk_family n t fam db = fam @ map rt_id (take n ts)"
  using assms
proof (induction n arbitrary: t ts fam)
  case 0
  then show ?case by simp
next
  case (Suc n)
  show ?case
  proof (cases ts)
    case Nil
    then show ?thesis using Suc.prems by simp
  next
    case (Cons u us)
    then have r: "rt_rotated_by t = Some (rt_id u)" and l: "linked (u # us)" using Suc.prems(3) by (auto simp: linked_def)
    have "walk_family n u (fam @ [rt_id u]) db = (fam @ [rt_id u]) @ map rt_id (take n us)"
      by (rule Suc.IH[OF Suc.prems(1) _ l]) (use Suc.prems Cons in auto)
    moreover have "get_refresh_token_by_id (rt_id u) db = Some u" using Suc.prems(1,2) Cons by (intro token_by_id) auto
    ultimately show ?thesis using Cons r Suc.prems(6) by simp
  qed
qed

text \<open>
  The tokens \<open>rs\<close> issued so far form one family of the user: every one is the successor of the one
  before, and all but the last are revoked; the last one is revoked iff the session has ended.
\<close>

definition family_of :: "token_env \<Rightarrow> uuid \<Rightarrow> datetime \<Rightarrow> bool \<Rightarrow> string list \<Rightarrow> refresh_token list \<Rightarrow> bool" where
  "family_of E uid bound alive rs ts \<longleftrightarrow>
     rs \<noteq> [] \<and> map rt_token_hash ts = map (te_sha256 E) rs \<and> linked ts \<and> rt_rotated_by (last ts) = None
     \<and> list_all rt_is_revoked (butlast ts) \<and> (rt_is_revoked (last ts) \<longleftrightarrow> \<not> alive) \<and> (alive \<longrightarrow> bound \<le> rt_expires_at (last ts))
     \<and> list_all (\<lambda>t. rt_user_id t = uid) ts"

definition in_session :: "token_env \<Rightarrow> uuid \<Rightarrow> datetime \<Rightarrow> bool \<Rightarrow> string list \<Rightarrow> auth_db \<Rightarrow> bool" where
  "in_session E uid bound alive rs db \<longleftrightarrow>
     tables_ok db \<and> (\<exists>ts. set ts \<subseteq> set (ad_tokens db) \<and> family_of E uid bound alive rs ts)"

text \<open>The specification of a session: only the latest token is good, and any replay ends the session.\<close>

fun session_spec :: "bool \<Rightarrow> string list \<Rightarrow> (string \<times> string) list \<Rightarrow> bool list" where
  "session_spec alive rs [] = []"
| "session_spec alive rs ((raw, new) # ops) =
     (if alive \<and> raw = last rs then True # session_spec True (rs @ [new]) ops
      else if raw \<in> set rs then False # session_spec False rs ops
      else False # session_spec alive rs ops)"

fun refresh_run :: "token_env \<Rightarrow> (datetime \<times> string \<times> token_draw) list \<Rightarrow> auth_db \<Rightarrow> token_response res list" where
  "refresh_run E [] db = []"
| "refresh_run E ((now, raw, d) # ops) db = (case refresh E now d raw db of (r, db') \<Rightarrow> r # refresh_run E ops db')"

lemma claim_not_current:
  assumes "\<not> list_ex (is_current now h) (ad_tokens db)"
  shows "revoke_refresh_token_if_current now h db = (False, db)"
proof -
  have "filter (is_current now h) (ad_tokens db) = []" using assms by (auto simp: list_ex_iff filter_empty_conv)
  moreover have "map (\<lambda>t. if is_current now h t then t\<lparr>rt_is_revoked := True\<rparr> else t) (ad_tokens db) = ad_tokens db"
    using assms by (auto simp: list_ex_iff intro!: map_idI)
  ultimately show ?thesis by (simp add: revoke_refresh_token_if_current_def)
qed

lemma refresh_unknown:
  assumes "te_sha256 E raw \<notin> rt_token_hash ` set (ad_tokens db)"
  shows "refresh E now d raw db = (Inl AuthenticationError, db)"
proof -
  have "\<not> list_ex (is_current now (te_sha256 E raw)) (ad_tokens db)" using assms by (auto simp: list_ex_iff is_current_def image_iff)
  moreover have "get_refresh_token_by_hash (te_sha256 E raw) db = None"
    using assms by (auto simp: get_refresh_token_by_hash_def find_None_iff image_iff)
  ultimately show ?thesis by (simp add: refresh_def Let_def claim_not_current revoke_family_def)
qed


lemma linked_map:
  assumes "\<And>t. rt_id (f t) = rt_id t" and "\<And>t. rt_rotated_by (f t) = rt_rotated_by t"
  shows "linked (map f ts) = linked ts"
  by (simp add: linked_def successively_map assms)

lemma family_ids:
  assumes "family_of E uid bound alive rs ts" and "set ts \<subseteq> set (ad_tokens db)" and "tables_ok db"
    and "distinct rs" and "inj_on (te_sha256 E) (set rs)"
  shows "distinct (map rt_id ts)"
proof -
  have "distinct (map rt_token_hash ts)" using assms by (simp add: family_of_def distinct_map)
  then have "distinct ts" by (simp add: distinct_map)
  moreover have "inj_on rt_id (set ts)" using assms(2,3) by (auto simp: tables_ok_def distinct_map intro: inj_on_subset)
  ultimately show ?thesis by (simp add: distinct_map)
qed

lemma walk_from_nth:
  assumes "family_of E uid bound alive rs ts" and "set ts \<subseteq> set (ad_tokens db)" and "tables_ok db"
    and "distinct (map rt_id ts)" and "i < length ts" and "length ts \<le> i + n + 1"
  shows "walk_family n (ts ! i) [rt_id (ts ! i)] db = map rt_id (drop i ts)"
proof -
  have ts: "drop i ts = ts ! i # drop (Suc i) ts" using assms(5) by (simp add: Cons_nth_drop_Suc)
  have "linked (drop i ts)"
    using assms(1) append_take_drop_id[of i ts] unfolding family_of_def linked_def by (metis successively_append_iff)
  moreover have "last (drop i ts) = last ts" using assms(5) by (simp add: last_drop)
  moreover have "set (drop i ts) \<subseteq> set (ad_tokens db)" using assms(2) set_drop_subset by fast
  moreover have d: "distinct (map rt_id (drop i ts))" using assms(4) by (simp add: drop_map[symmetric])
  ultimately have "walk_family n (ts ! i) [rt_id (ts ! i)] db = [rt_id (ts ! i)] @ map rt_id (take n (drop (Suc i) ts))"
    using assms(1,3) unfolding ts by (intro walk_linked) (auto simp: family_of_def)
  moreover have "take n (drop (Suc i) ts) = drop (Suc i) ts" using assms(6) by simp
  ultimately show ?thesis unfolding ts by simp
qed

lemma refresh_replay:
  assumes "in_session E uid bound alive rs db" and "raw \<in> set rs" and "\<not> (alive \<and> raw = last rs)"
    and "distinct rs" and "inj_on (te_sha256 E) (set rs)" and "length rs \<le> Suc REFRESH_FAMILY_WALK_LIMIT"
  shows "\<exists>db'. refresh E now d raw db = (Inl AuthenticationError, db') \<and> in_session E uid bound False rs db'
    \<and> ad_users db' = ad_users db \<and> map rt_id (ad_tokens db') = map rt_id (ad_tokens db)
    \<and> map rt_token_hash (ad_tokens db') = map rt_token_hash (ad_tokens db)"
proof -
  obtain ts where ok: "tables_ok db" and sub: "set ts \<subseteq> set (ad_tokens db)" and fam: "family_of E uid bound alive rs ts"
    using assms(1) by (auto simp: in_session_def)
  have len: "length ts = length rs" using fam unfolding family_of_def by (metis length_map)
  have ne: "ts \<noteq> []" using len fam by (auto simp: family_of_def)
  obtain i where i: "i < length rs" "rs ! i = raw" using assms(2) by (auto simp: in_set_conv_nth)
  have h: "rt_token_hash (ts ! i) = te_sha256 E raw"
    using fam i len unfolding family_of_def by (metis nth_map)
  have pin: "ts ! i \<in> set (ad_tokens db)" using sub i len by auto
  have "rt_is_revoked (ts ! i)"
  proof (cases "i = length ts - 1")
    case True
    have "rs \<noteq> []" using i by auto
    with True have "ts ! i = last ts" "raw = last rs" using i len ne by (simp_all add: last_conv_nth)
    then show ?thesis using fam assms(3) by (auto simp: family_of_def)
  next
    case False
    then have "ts ! i \<in> set (butlast ts)" using i len by (auto simp: in_set_conv_nth nth_butlast intro!: exI[of _ i])
    then show ?thesis using fam by (auto simp: family_of_def list_all_iff)
  qed
  then have "\<not> list_ex (is_current now (te_sha256 E raw)) (ad_tokens db)"
    using same_hash[OF ok _ pin] h by (auto simp: list_ex_iff is_current_def)
  note claim = claim_not_current[OF this]
  define f where "f = (\<lambda>t :: refresh_token. if rt_id t \<in> set (map rt_id (drop i ts)) \<and> \<not> rt_is_revoked t then t\<lparr>rt_is_revoked := True\<rparr> else t)"
  have fs: "rt_id (f t) = rt_id t" "rt_token_hash (f t) = rt_token_hash t" "rt_rotated_by (f t) = rt_rotated_by t"
    "rt_user_id (f t) = rt_user_id t" "rt_is_revoked t \<Longrightarrow> rt_is_revoked (f t)" for t by (simp_all add: f_def)
  let ?db = "db\<lparr>ad_tokens := map f (ad_tokens db)\<rparr>"
  have "walk_family REFRESH_FAMILY_WALK_LIMIT (ts ! i) [rt_id (ts ! i)] db = map rt_id (drop i ts)"
    using i len assms(6) by (intro walk_from_nth[OF fam sub ok family_ids[OF fam sub ok assms(4,5)]]) auto
  then have "revoke_family (te_sha256 E raw) db = ?db"
    using token_by_hash[OF ok pin] unfolding h by (simp add: revoke_family_def revoke_refresh_token_ids_def f_def)
  then have run: "refresh E now d raw db = (Inl AuthenticationError, ?db)" by (simp add: refresh_def Let_def claim)
  have ids: "map rt_id (map f (ad_tokens db)) = map rt_id (ad_tokens db)"
    and hs: "map rt_token_hash (map f (ad_tokens db)) = map rt_token_hash (ad_tokens db)" by (simp_all add: fs)
  have "last ts \<in> set (drop i ts)" using i len ne last_in_set[of "drop i ts"] by (simp add: last_drop)
  then have "rt_is_revoked (last (map f ts))" using ne by (auto simp: last_map f_def)
  then have "family_of E uid bound False rs (map f ts)"
    using fam ne linked_map[of f ts] by (simp add: family_of_def last_map map_butlast[symmetric] list_all_iff fs comp_def)
  moreover have "set (map f ts) \<subseteq> set (ad_tokens ?db)" using sub by auto
  moreover have "tables_ok ?db" using ok by (simp add: tables_ok_def comp_def fs)
  ultimately have "in_session E uid bound False rs ?db" unfolding in_session_def by blast
  then show ?thesis using run ids hs by auto
qed


lemma filter_only:
  assumes "distinct xs" and "x \<in> set xs" and "\<And>y. y \<in> set xs \<Longrightarrow> P y \<longleftrightarrow> y = x"
  shows "filter P xs = [x]"
proof -
  have "filter P xs = filter (\<lambda>y. y = x) xs" using assms(3) by (auto intro: filter_cong)
  also have "\<dots> = [x]" using assms(1,2) by (induction xs) (auto simp: filter_empty_conv)
  finally show ?thesis .
qed

lemma refresh_rotate:
  assumes "in_session E uid bound True rs db" and "distinct rs" and "inj_on (te_sha256 E) (set rs)"
    and "now < bound" and "bound \<le> now + te_refresh_ttl E"
    and "get_user_by_id uid db = Some u" and "us_is_active u" and "\<not> us_is_deleted u"
    and "dr_id d \<notin> rt_id ` set (ad_tokens db)" and "te_sha256 E (dr_raw d) \<notin> rt_token_hash ` set (ad_tokens db)"
  shows "\<exists>resp db'. refresh E now d (last rs) db = (Inr resp, db') \<and> tr_refresh_token resp = dr_raw d
    \<and> in_session E uid bound True (rs @ [dr_raw d]) db' \<and> ad_users db' = ad_users db
    \<and> map rt_id (ad_tokens db') = map rt_id (ad_tokens db) @ [dr_id d]
    \<and> map rt_token_hash (ad_tokens db') = map rt_token_hash (ad_tokens db) @ [te_sha256 E (dr_raw d)]"
proof -
  obtain ts where ok: "tables_ok db" and sub: "set ts \<subseteq> set (ad_tokens db)" and fam: "family_of E uid bound True rs ts"
    using assms(1) by (auto simp: in_session_def)
  have len: "length ts = length rs" using fam unfolding family_of_def by (metis length_map)
  have ne: "ts \<noteq> []" "rs \<noteq> []" using len fam by (auto simp: family_of_def)
  define p where "p = last ts"
  define h where "h = te_sha256 E (last rs)"
  have hs: "rt_token_hash p = h" using fam ne unfolding p_def h_def family_of_def by (metis last_map)
  have pin: "p \<in> set (ad_tokens db)" using sub ne by (auto simp: p_def)
  have live: "\<not> rt_is_revoked p" "now < rt_expires_at p" "rt_rotated_by p = None" "rt_user_id p = uid"
    using fam assms(4) ne by (auto simp: family_of_def p_def list_all_iff)
  have cur: "is_current now h t \<longleftrightarrow> t = p" if "t \<in> set (ad_tokens db)" for t
    using same_hash[OF ok that pin] hs live by (auto simp: is_current_def)
  have dist: "distinct (ad_tokens db)" using ok by (auto simp: tables_ok_def distinct_map)
  define c where "c = (\<lambda>t :: refresh_token. if is_current now h t then t\<lparr>rt_is_revoked := True\<rparr> else t)"
  have cs: "rt_id (c t) = rt_id t" "rt_token_hash (c t) = rt_token_hash t" for t by (simp_all add: c_def)
  let ?p = "p\<lparr>rt_is_revoked := True\<rparr>"
  let ?cl = "db\<lparr>ad_tokens := map c (ad_tokens db)\<rparr>"
  have claim: "revoke_refresh_token_if_current now h db = (True, ?cl)"
    using filter_only[OF dist pin cur] by (simp add: revoke_refresh_token_if_current_def c_def)
  have okc: "tables_ok ?cl" using ok by (simp add: tables_ok_def comp_def cs)
  have "c p \<in> set (ad_tokens ?cl)" using pin by auto
  then have pc: "?p \<in> set (ad_tokens ?cl)" using cur[OF pin] by (simp add: c_def)
  have st: "get_refresh_token_by_hash h ?cl = Some ?p" using token_by_hash[OF okc pc] hs by simp
  have us: "get_user_by_id (rt_user_id ?p) ?cl = Some u" using assms(6) live by (simp add: get_user_by_id_def)
  let ?row = "\<lparr>rt_id = dr_id d, rt_user_id = uid, rt_organization_id = rt_organization_id p, rt_token_hash = te_sha256 E (dr_raw d),
               rt_expires_at = now + te_refresh_ttl E, rt_is_revoked = False, rt_rotated_by = None\<rparr>"
  let ?is = "?cl\<lparr>ad_tokens := map c (ad_tokens db) @ [?row]\<rparr>"
  have keys: "rt_id ` set (ad_tokens ?cl) = rt_id ` set (ad_tokens db)" "rt_token_hash ` set (ad_tokens ?cl) = rt_token_hash ` set (ad_tokens db)"
    by (simp_all add: image_image cs)
  have new: "create_refresh_token (dr_id d) uid (rt_organization_id p) (te_sha256 E (dr_raw d)) (now + te_refresh_ttl E) ?cl = Inr ?is"
    using assms(9,10) unfolding create_refresh_token_def keys by simp
  obtain resp where iss: "issue_tokens E now d uid (rt_organization_id p) (role_of u) ?cl = Inr (resp, ?is)" "tr_refresh_token resp = dr_raw d"
    using new by (simp add: issue_tokens_def Let_def)
  have oki: "tables_ok ?is" using okc assms(9,10) by (simp add: tables_ok_def image_image cs)
  have nw: "get_refresh_token_by_hash (te_sha256 E (dr_raw d)) ?is = Some ?row" using token_by_hash[OF oki, of ?row] by simp
  define g where "g = (\<lambda>t :: refresh_token. if rt_id t = rt_id p then t\<lparr>rt_rotated_by := Some (dr_id d)\<rparr> else t)"
  have gs: "rt_id (g t) = rt_id t" "rt_token_hash (g t) = rt_token_hash t" for t by (simp_all add: g_def)
  let ?db = "?is\<lparr>ad_tokens := map g (ad_tokens ?is)\<rparr>"
  have run: "refresh E now d (last rs) db = (Inr resp, ?db)"
    using claim st us iss nw assms(7,8) live by (simp add: refresh_def h_def[symmetric] set_refresh_token_rotated_by_def g_def)
  have dts: "distinct (map rt_id ts)" by (rule family_ids[OF fam sub ok assms(2,3)])
  have split: "ts = butlast ts @ [p]" using ne by (simp add: p_def)
  have pid: "rt_id p \<noteq> dr_id d" using pin assms(9) by (auto simp: image_iff)
  let ?q = "p\<lparr>rt_is_revoked := True, rt_rotated_by := Some (dr_id d)\<rparr>"
  have "rt_id p \<notin> rt_id ` set (butlast ts)" using dts by (subst (asm) split) auto
  then have keep: "g (c t) = t" if "t \<in> set (butlast ts)" for t
    using that cur[of t] sub in_set_butlastD[OF that] by (auto simp: image_iff c_def g_def)
  have mem: "g (c t) \<in> set (ad_tokens ?db)" if "t \<in> set (ad_tokens db)" for t using that by simp
  have "g (c p) = ?q" using cur[OF pin] by (simp add: c_def g_def)
  then have q: "?q \<in> set (ad_tokens ?db)" using mem[OF pin] by simp
  have r: "?row \<in> set (ad_tokens ?db)" using pid by (simp add: g_def)
  have "t \<in> set (ad_tokens ?db)" if "t \<in> set (butlast ts)" for t
    using mem[of t] keep[OF that] sub in_set_butlastD[OF that] by auto
  then have tok: "set (butlast ts @ [?q, ?row]) \<subseteq> set (ad_tokens ?db)" using q r by auto
  have l: "linked (butlast ts @ [?q, ?row])"
  proof -
    have "linked (butlast ts @ [p])" using fam split by (simp add: family_of_def)
    then show ?thesis by (auto simp: linked_def successively_append_iff)
  qed
  have "family_of E uid bound True (rs @ [dr_raw d]) (butlast ts @ [?q, ?row])"
  proof -
    have "map rt_token_hash (butlast ts) @ [rt_token_hash p] = map (te_sha256 E) rs"
      using fam arg_cong[OF split, of "map rt_token_hash"] by (simp add: family_of_def)
    moreover have "list_all (\<lambda>t. rt_user_id t = uid) (butlast ts)" using fam by (auto simp: family_of_def list_all_iff dest: in_set_butlastD)
    ultimately show ?thesis using l fam assms(5) live by (simp add: family_of_def butlast_append)
  qed
  moreover have "tables_ok ?db" using oki by (simp add: tables_ok_def comp_def gs)
  ultimately have "in_session E uid bound True (rs @ [dr_raw d]) ?db" unfolding in_session_def using tok by blast
  then show ?thesis using run iss(2) by (auto simp: comp_def gs cs)
qed


section \<open>Sessions\<close>

text \<open>
  The conditions on a run after \<open>r\<close> was issued at \<open>t\<close>: the clock stays within the life of that token, the
  drawn tokens and ids are new, and a presented token is of the family or unknown to the table.
\<close>

definition hashes :: "auth_db \<Rightarrow> string set" where
  "hashes db = rt_token_hash ` set (ad_tokens db)"

definition fresh_draws :: "token_env \<Rightarrow> token_draw list \<Rightarrow> auth_db \<Rightarrow> bool" where
  "fresh_draws E ds db \<longleftrightarrow> distinct (map dr_id ds) \<and> distinct (map (\<lambda>d. te_sha256 E (dr_raw d)) ds)
     \<and> list_all (\<lambda>d. dr_id d \<notin> rt_id ` set (ad_tokens db) \<and> te_sha256 E (dr_raw d) \<notin> hashes db) ds"

definition run_ok :: "token_env \<Rightarrow> string \<Rightarrow> datetime \<Rightarrow> (datetime \<times> string \<times> token_draw) list \<Rightarrow> auth_db \<Rightarrow> bool" where
  "run_ok E r t ops db \<longleftrightarrow>
     (let ds = map (\<lambda>(now, raw, d). d) ops; F = set (r # map dr_raw ds) in
      fresh_draws E ds db \<and> inj_on (te_sha256 E) F
      \<and> list_all (\<lambda>(now, raw, d). t \<le> now \<and> now < t + te_refresh_ttl E
          \<and> (raw \<in> F \<or> te_sha256 E raw \<notin> hashes db \<union> te_sha256 E ` F)) ops)"

lemma session_hashes:
  assumes "in_session E uid bound alive rs db" and "raw \<in> set rs"
  shows "te_sha256 E raw \<in> hashes db"
proof -
  obtain ts where ts: "set ts \<subseteq> set (ad_tokens db)" "map rt_token_hash ts = map (te_sha256 E) rs"
    using assms(1) by (auto simp: in_session_def family_of_def)
  have "te_sha256 E raw \<in> set (map rt_token_hash ts)" unfolding ts(2) using assms(2) by simp
  then show ?thesis using ts(1) by (auto simp: hashes_def)
qed

lemma fresh_draws_same:
  assumes "fresh_draws E (d # ds) db" and "map rt_id (ad_tokens db') = map rt_id (ad_tokens db) @ i"
    and "map rt_token_hash (ad_tokens db') = map rt_token_hash (ad_tokens db) @ h"
    and "set i \<subseteq> {dr_id d}" and "set h \<subseteq> {te_sha256 E (dr_raw d)}"
  shows "fresh_draws E ds db'"
proof -
  have "rt_id ` set (ad_tokens db') = rt_id ` set (ad_tokens db) \<union> set i" "hashes db' = hashes db \<union> set h"
    using arg_cong[OF assms(2), of set] arg_cong[OF assms(3), of set] by (simp_all add: hashes_def)
  moreover have "dr_id e \<notin> set i" "te_sha256 E (dr_raw e) \<notin> set h" if "e \<in> set ds" for e
  proof -
    have "dr_id e \<noteq> dr_id d" "te_sha256 E (dr_raw e) \<noteq> te_sha256 E (dr_raw d)"
      using that assms(1) unfolding fresh_draws_def by (metis (no_types, lifting) distinct.simps(2) image_eqI list.set_map list.simps(9))+
    then show "dr_id e \<notin> set i" "te_sha256 E (dr_raw e) \<notin> set h" using assms(4,5) by auto
  qed
  ultimately show ?thesis using assms(1) by (simp add: fresh_draws_def list_all_iff)
qed

lemma refresh_run_spec:
  assumes "in_session E uid (t + te_refresh_ttl E) alive rs db" and "distinct rs" and "length rs + length ops \<le> 32"
    and "get_user_by_id uid db = Some u" and "us_is_active u"
    and "fresh_draws E (map (\<lambda>(now, raw, d). d) ops) db" and "inj_on (te_sha256 E) F"
    and "set rs \<subseteq> F" and "list_all (\<lambda>(now, raw, d). dr_raw d \<in> F) ops" and "te_sha256 E ` F \<inter> hashes db \<subseteq> te_sha256 E ` set rs"
    and "list_all (\<lambda>(now, raw, d). t \<le> now \<and> now < t + te_refresh_ttl E
          \<and> (raw \<in> F \<or> te_sha256 E raw \<notin> hashes db \<union> te_sha256 E ` F)) ops"
  shows "map (\<lambda>r. \<not> isl r) (refresh_run E ops db) = session_spec alive rs (map (\<lambda>(now, raw, d). (raw, dr_raw d)) ops)"
  using assms
proof (induction ops arbitrary: alive rs db)
  case Nil
  then show ?case by simp
next
  case (Cons op ops)
  obtain now raw d where op: "op = (now, raw, d)" by (cases op)
  have inj: "inj_on (te_sha256 E) (set rs)" using Cons.prems(7,8) by (rule inj_on_subset)
  have del: "\<not> us_is_deleted u" using Cons.prems(4) by (auto simp: get_user_by_id_def find_Some_iff)
  have time: "now < t + te_refresh_ttl E" "t + te_refresh_ttl E \<le> now + te_refresh_ttl E" using Cons.prems(11) by (auto simp: op)
  have fresh: "fresh_draws E (d # map (\<lambda>(now, raw, d). d) ops) db" using Cons.prems(6) by (simp add: op)
  have tail: "list_all (\<lambda>(now, raw, d). dr_raw d \<in> F) ops" "dr_raw d \<in> F" using Cons.prems(9) by (auto simp: op)
  consider (rotate) "alive" "raw = last rs" | (replay) "\<not> (alive \<and> raw = last rs)" "raw \<in> set rs" | (other) "raw \<notin> set rs" by blast
  then show ?case
  proof cases
    case rotate
    have dfresh: "dr_id d \<notin> rt_id ` set (ad_tokens db)" "te_sha256 E (dr_raw d) \<notin> hashes db" using fresh by (auto simp: fresh_draws_def)
    obtain resp db' where run: "refresh E now d raw db = (Inr resp, db')"
      and S: "in_session E uid (t + te_refresh_ttl E) True (rs @ [dr_raw d]) db'" "ad_users db' = ad_users db"
        "map rt_id (ad_tokens db') = map rt_id (ad_tokens db) @ [dr_id d]"
        "map rt_token_hash (ad_tokens db') = map rt_token_hash (ad_tokens db) @ [te_sha256 E (dr_raw d)]"
      using refresh_rotate[OF _ Cons.prems(2) inj time Cons.prems(4,5) del dfresh(1) dfresh(2)[unfolded hashes_def]] Cons.prems(1) rotate by metis
    have h: "hashes db' = insert (te_sha256 E (dr_raw d)) (hashes db)" using arg_cong[OF S(4), of set] by (simp add: hashes_def)
    have "dr_raw d \<notin> set rs" using session_hashes[OF Cons.prems(1)] dfresh(2) by blast
    then have "map (\<lambda>r. \<not> isl r) (refresh_run E ops db')
        = session_spec True (rs @ [dr_raw d]) (map (\<lambda>(now, raw, d). (raw, dr_raw d)) ops)"
      using Cons.prems tail S(2) fresh_draws_same[OF fresh S(3,4)]
      by (intro Cons.IH[OF S(1)]) (auto simp: h op get_user_by_id_def list_all_iff)
    then show ?thesis using rotate by (simp add: op run[unfolded rotate(2)])
  next
    case replay
    have "length rs \<le> Suc REFRESH_FAMILY_WALK_LIMIT" using Cons.prems(3) by (simp add: REFRESH_FAMILY_WALK_LIMIT_def)
    then obtain db' where run: "refresh E now d raw db = (Inl AuthenticationError, db')"
      and S: "in_session E uid (t + te_refresh_ttl E) False rs db'" "ad_users db' = ad_users db"
        "map rt_id (ad_tokens db') = map rt_id (ad_tokens db)" "map rt_token_hash (ad_tokens db') = map rt_token_hash (ad_tokens db)"
      using refresh_replay[OF Cons.prems(1) replay(2,1) Cons.prems(2) inj] by metis
    have h: "hashes db' = hashes db" using arg_cong[OF S(4), of set] by (simp add: hashes_def)
    have "map (\<lambda>r. \<not> isl r) (refresh_run E ops db') = session_spec False rs (map (\<lambda>(now, raw, d). (raw, dr_raw d)) ops)"
      using Cons.prems tail S fresh_draws_same[OF fresh, of db' "[]" "[]"]
      by (intro Cons.IH[OF S(1)]) (auto simp: h op get_user_by_id_def list_all_iff)
    then show ?thesis using replay by (auto simp: op run)
  next
    case other
    have "te_sha256 E raw \<notin> hashes db"
    proof
      assume "te_sha256 E raw \<in> hashes db"
      moreover from this have "raw \<in> F" using Cons.prems(11) by (auto simp: op)
      ultimately have "te_sha256 E raw \<in> te_sha256 E ` set rs" using Cons.prems(10) by blast
      then obtain x where x: "x \<in> set rs" "te_sha256 E raw = te_sha256 E x" by blast
      then have "x \<in> F" using Cons.prems(8) by blast
      then have "raw = x" using inj_onD[OF Cons.prems(7) x(2) \<open>raw \<in> F\<close>] by simp
      then show False using other x(1) by simp
    qed
    then have run: "refresh E now d raw db = (Inl AuthenticationError, db)" by (simp add: refresh_unknown hashes_def)
    have "raw \<noteq> last rs" using other Cons.prems(1) by (auto simp: in_session_def family_of_def)
    moreover have "map (\<lambda>r. \<not> isl r) (refresh_run E ops db) = session_spec alive rs (map (\<lambda>(now, raw, d). (raw, dr_raw d)) ops)"
      using Cons.prems tail fresh_draws_same[OF fresh, of db "[]" "[]"]
      by (intro Cons.IH[OF Cons.prems(1)]) (auto simp: op list_all_iff)
    ultimately show ?thesis using other by (simp add: op run)
  qed
qed


lemma issue_starts_session:
  assumes "tables_ok db" and "issue_tokens E t d uid org role db = Inr (resp, db')"
  shows "in_session E uid (t + te_refresh_ttl E) True [dr_raw d] db' \<and> tr_refresh_token resp = dr_raw d \<and> ad_users db' = ad_users db
    \<and> hashes db' = insert (te_sha256 E (dr_raw d)) (hashes db)"
proof -
  obtain row where row: "db' = db\<lparr>ad_tokens := ad_tokens db @ [row]\<rparr>" "row = \<lparr>rt_id = dr_id d, rt_user_id = uid, rt_organization_id = org,
      rt_token_hash = te_sha256 E (dr_raw d), rt_expires_at = t + te_refresh_ttl E, rt_is_revoked = False, rt_rotated_by = None\<rparr>"
      "dr_id d \<notin> rt_id ` set (ad_tokens db)" "te_sha256 E (dr_raw d) \<notin> rt_token_hash ` set (ad_tokens db)" "tr_refresh_token resp = dr_raw d"
    using assms(2) by (auto simp: issue_tokens_def create_refresh_token_def Let_def exc_bind_Inr_iff split: if_splits)
  have "tables_ok db'" using assms(1) row by (simp add: tables_ok_def)
  moreover have "family_of E uid (t + te_refresh_ttl E) True [dr_raw d] [row]" by (simp add: family_of_def linked_def row(2))
  ultimately have "in_session E uid (t + te_refresh_ttl E) True [dr_raw d] db'" unfolding in_session_def using row(1) by (intro conjI exI[of _ "[row]"]) simp_all
  then show ?thesis using row by (simp add: hashes_def)
qed

text \<open>
  C22: rotation behaves like one session that any replay ends. After tokens were issued to an active user,
  any sequence of up to 31 refresh requests, in any order and with any tokens of the family or
  unknown ones, is answered as the specification says: only the latest token is good, it is good once,
  and presenting an older token of the family ends the session for every later one.
\<close>

theorem refresh_refines_session:
  assumes "tables_ok db" and "issue_tokens E t d0 uid org role db = Inr (resp, db')"
    and "get_user_by_id uid db = Some u" and "us_is_active u"
    and "length ops \<le> 31" and "run_ok E (tr_refresh_token resp) t ops db'"
  shows "map (\<lambda>r. \<not> isl r) (refresh_run E ops db')
    = session_spec True [tr_refresh_token resp] (map (\<lambda>(now, raw, d). (raw, dr_raw d)) ops)"
proof -
  note iss = issue_starts_session[OF assms(1,2)]
  let ?F = "set (dr_raw d0 # map dr_raw (map (\<lambda>(now, raw, d). d) ops))"
  have r: "tr_refresh_token resp = dr_raw d0" using iss by simp
  have ok: "fresh_draws E (map (\<lambda>(now, raw, d). d) ops) db'" "inj_on (te_sha256 E) ?F"
    "list_all (\<lambda>(now, raw, d). t \<le> now \<and> now < t + te_refresh_ttl E
          \<and> (raw \<in> ?F \<or> te_sha256 E raw \<notin> hashes db' \<union> te_sha256 E ` ?F)) ops"
    using assms(6) unfolding run_ok_def r Let_def by blast+
  have "te_sha256 E ` ?F \<inter> hashes db' \<subseteq> te_sha256 E ` set [dr_raw d0]"
    using ok(1) by (auto simp: fresh_draws_def list_all_iff)
  then show ?thesis unfolding r using iss assms(3-5) ok
    by (intro refresh_run_spec[of _ uid _ _ _ _ _ u ?F]) (auto simp: get_user_by_id_def list_all_iff intro!: rev_image_eqI)
qed


section \<open>The limit of the walk\<close>

lemma refresh_replay_long:
  assumes "in_session E uid bound True rs db" and "distinct rs" and "inj_on (te_sha256 E) (set rs)"
    and "Suc REFRESH_FAMILY_WALK_LIMIT < length rs"
  shows "refresh E now d (hd rs) db = (Inl AuthenticationError, db)"
proof -
  obtain ts where ok: "tables_ok db" and sub: "set ts \<subseteq> set (ad_tokens db)" and fam: "family_of E uid bound True rs ts"
    using assms(1) by (auto simp: in_session_def)
  have len: "length ts = length rs" using fam unfolding family_of_def by (metis length_map)
  then obtain p ps where ts: "ts = p # ps" using assms(4) by (cases ts) auto
  have h: "rt_token_hash p = te_sha256 E (hd rs)" using fam ts by (cases rs) (auto simp: family_of_def)
  have pin: "p \<in> set (ad_tokens db)" using sub ts by simp
  have old: "rt_is_revoked q" if "q \<in> set (p # take REFRESH_FAMILY_WALK_LIMIT ps)" for q
  proof -
    have "q \<in> set (take (Suc REFRESH_FAMILY_WALK_LIMIT) ts)" using that ts by simp
    also have "take (Suc REFRESH_FAMILY_WALK_LIMIT) ts = take (Suc REFRESH_FAMILY_WALK_LIMIT) (butlast ts)"
      using assms(4) len by (simp add: butlast_conv_take min_absorb1)
    finally have "q \<in> set (butlast ts)" using set_take_subset by fast
    then show ?thesis using fam by (auto simp: family_of_def list_all_iff)
  qed
  have "\<not> list_ex (is_current now (te_sha256 E (hd rs))) (ad_tokens db)"
    using same_hash[OF ok _ pin] h old by (auto simp: list_ex_iff is_current_def)
  note claim = claim_not_current[OF this]
  have dist: "distinct (map rt_id ts)" by (rule family_ids[OF fam sub ok assms(2,3)])
  have "walk_family REFRESH_FAMILY_WALK_LIMIT p [rt_id p] db = [rt_id p] @ map rt_id (take REFRESH_FAMILY_WALK_LIMIT ps)"
    using fam sub dist ok unfolding ts by (intro walk_linked) (auto simp: family_of_def)
  moreover have "(if rt_id t \<in> set (rt_id p # map rt_id (take REFRESH_FAMILY_WALK_LIMIT ps)) \<and> \<not> rt_is_revoked t
       then t\<lparr>rt_is_revoked := True\<rparr> else t) = t" if "t \<in> set (ad_tokens db)" for t
  proof -
    have "t \<in> set (p # take REFRESH_FAMILY_WALK_LIMIT ps)" if m: "rt_id t \<in> set (map rt_id (p # take REFRESH_FAMILY_WALK_LIMIT ps))"
    proof -
      obtain q where q: "q \<in> set (p # take REFRESH_FAMILY_WALK_LIMIT ps)" "rt_id t = rt_id q" using m unfolding set_map by blast
      have "q \<in> set ts" using q(1) ts in_set_takeD by fastforce
      then have "q \<in> set (ad_tokens db)" using sub by blast
      then show ?thesis using q same_id[OF ok \<open>t \<in> set (ad_tokens db)\<close>] by metis
    qed
    then show ?thesis using old by auto
  qed
  ultimately have "revoke_family (te_sha256 E (hd rs)) db = db"
    using token_by_hash[OF ok pin] unfolding h by (simp add: revoke_family_def revoke_refresh_token_ids_def map_idI)
  then show ?thesis by (simp add: refresh_def Let_def claim)
qed

fun rotations :: "string \<Rightarrow> (datetime \<times> token_draw) list \<Rightarrow> (datetime \<times> string \<times> token_draw) list" where
  "rotations r [] = []"
| "rotations r ((now, d) # xs) = (now, r, d) # rotations (dr_raw d) xs"

lemma run_rotations:
  assumes "in_session E uid (t + te_refresh_ttl E) True rs db" and "distinct rs" and "inj_on (te_sha256 E) F"
    and "set rs \<subseteq> F" and "dr_raw ` set (map snd xs) \<subseteq> F" and "get_user_by_id uid db = Some u" and "us_is_active u"
    and "fresh_draws E (map snd xs @ ds) db" and "list_all (\<lambda>(now, d). t \<le> now \<and> now < t + te_refresh_ttl E) xs"
  shows "\<exists>db'. in_session E uid (t + te_refresh_ttl E) True (rs @ map dr_raw (map snd xs)) db' \<and> distinct (rs @ map dr_raw (map snd xs))
    \<and> ad_users db' = ad_users db \<and> fresh_draws E ds db'
    \<and> (\<forall>rest. map isl (refresh_run E (rotations (last rs) xs @ rest) db) = replicate (length xs) False @ map isl (refresh_run E rest db'))"
  using assms
proof (induction xs arbitrary: rs db)
  case Nil
  then show ?case by auto
next
  case (Cons x xs)
  obtain now d where x: "x = (now, d)" by (cases x)
  have del: "\<not> us_is_deleted u" using Cons.prems(6) by (auto simp: get_user_by_id_def find_Some_iff)
  have inj: "inj_on (te_sha256 E) (set rs)" using Cons.prems(3,4) by (rule inj_on_subset)
  have time: "now < t + te_refresh_ttl E" "t + te_refresh_ttl E \<le> now + te_refresh_ttl E" using Cons.prems(9) by (auto simp: x)
  have fresh: "fresh_draws E (d # map snd xs @ ds) db" using Cons.prems(8) by (simp add: x)
  have dfresh: "dr_id d \<notin> rt_id ` set (ad_tokens db)" "te_sha256 E (dr_raw d) \<notin> hashes db" using fresh by (auto simp: fresh_draws_def)
  obtain resp db1 where run: "refresh E now d (last rs) db = (Inr resp, db1)"
    and S: "in_session E uid (t + te_refresh_ttl E) True (rs @ [dr_raw d]) db1" "ad_users db1 = ad_users db"
      "map rt_id (ad_tokens db1) = map rt_id (ad_tokens db) @ [dr_id d]"
      "map rt_token_hash (ad_tokens db1) = map rt_token_hash (ad_tokens db) @ [te_sha256 E (dr_raw d)]"
    using refresh_rotate[OF Cons.prems(1,2) inj time Cons.prems(6,7) del dfresh(1) dfresh(2)[unfolded hashes_def]] by metis
  have "dr_raw d \<notin> set rs" using session_hashes[OF Cons.prems(1)] dfresh(2) by blast
  then obtain db' where IH: "in_session E uid (t + te_refresh_ttl E) True ((rs @ [dr_raw d]) @ map dr_raw (map snd xs)) db'"
      "distinct ((rs @ [dr_raw d]) @ map dr_raw (map snd xs))" "ad_users db' = ad_users db1" "fresh_draws E ds db'"
      "\<And>rest. map isl (refresh_run E (rotations (last (rs @ [dr_raw d])) xs @ rest) db1) = replicate (length xs) False @ map isl (refresh_run E rest db')"
    using Cons.IH[OF S(1) _ Cons.prems(3)] Cons.prems S(2) fresh_draws_same[OF fresh S(3,4)] by (force simp: x get_user_by_id_def)
  then show ?case using S(2) by (intro exI[of _ db']) (simp add: x run)
qed

text \<open>
  C23: a replay after more rotations than the walk covers ends nothing. When a session has been rotated
  31 times or more and its first token is presented, the request is rejected, but the walk over the
  successors stops before the live token, which is then still good.
\<close>

theorem refresh_replay_limit:
  assumes "tables_ok db" and "issue_tokens E t d0 uid org role db = Inr (resp, db')"
    and "get_user_by_id uid db = Some u" and "us_is_active u" and "length xs \<ge> 31"
    and "ops = rotations (tr_refresh_token resp) xs @ [(now, tr_refresh_token resp, e), (now, dr_raw (snd (last xs)), e)]"
    and "run_ok E (tr_refresh_token resp) t (rotations (tr_refresh_token resp) xs @ [(now, tr_refresh_token resp, e)]) db'"
  shows "map isl (refresh_run E ops db') = replicate (length xs) False @ [True, False]"
proof -
  note iss = issue_starts_session[OF assms(1,2)]
  define r where "r = dr_raw d0"
  have r: "tr_refresh_token resp = r" using iss by (simp add: r_def)
  have draws: "map (\<lambda>(now, raw, d). d) (rotations q xs) = map snd xs" for q by (induction xs arbitrary: q) auto
  have firsts: "map fst (rotations q xs) = map fst xs" for q by (induction xs arbitrary: q) auto
  let ?F = "set (r # map dr_raw (map snd xs @ [e]))"
  have ok: "fresh_draws E (map snd xs @ [e]) db'" "inj_on (te_sha256 E) ?F"
    and tm: "list_all (\<lambda>(now, raw, d). t \<le> now \<and> now < t + te_refresh_ttl E) (rotations r xs @ [(now, r, e)])"
    using assms(7) unfolding run_ok_def r Let_def by (simp_all add: draws list_all_iff case_prod_beta)
  have "list_all (\<lambda>n. t \<le> n \<and> n < t + te_refresh_ttl E) (map fst (rotations r xs))" using tm by (auto simp: list_all_iff)
  then have tx: "list_all (\<lambda>(now, d). t \<le> now \<and> now < t + te_refresh_ttl E) xs" unfolding firsts by (auto simp: list_all_iff)
  have S: "in_session E uid (t + te_refresh_ttl E) True [r] db'" "get_user_by_id uid db' = Some u"
    using iss assms(3) by (auto simp: r_def get_user_by_id_def)
  obtain dbn where N: "in_session E uid (t + te_refresh_ttl E) True ([r] @ map dr_raw (map snd xs)) dbn"
      "distinct ([r] @ map dr_raw (map snd xs))" "ad_users dbn = ad_users db'" "fresh_draws E [e] dbn"
      "\<And>rest. map isl (refresh_run E (rotations (last [r]) xs @ rest) db') = replicate (length xs) False @ map isl (refresh_run E rest dbn)"
    using run_rotations[OF S(1) _ ok(2) _ _ S(2) assms(4) ok(1) tx] by auto
  have inj: "inj_on (te_sha256 E) (set ([r] @ map dr_raw (map snd xs)))" by (rule inj_on_subset[OF ok(2)]) auto
  have "refresh E now e (hd ([r] @ map dr_raw (map snd xs))) dbn = (Inl AuthenticationError, dbn)"
    by (rule refresh_replay_long[OF N(1,2) inj]) (use assms(5) in \<open>simp add: REFRESH_FAMILY_WALK_LIMIT_def\<close>)
  then have bad: "refresh E now e r dbn = (Inl AuthenticationError, dbn)" by simp
  have lst: "last ([r] @ map dr_raw (map snd xs)) = dr_raw (snd (last xs))" using assms(5) by (cases xs) (auto simp: last_map)
  have u: "get_user_by_id uid dbn = Some u" using S(2) N(3) by (simp add: get_user_by_id_def)
  have "\<not> us_is_deleted u" using u by (auto simp: get_user_by_id_def find_Some_iff)
  then obtain q dbq where good: "refresh E now e (dr_raw (snd (last xs))) dbn = (Inr q, dbq)"
    using refresh_rotate[OF N(1,2) inj _ _ u assms(4), of now e] N(4) tm unfolding lst by (auto simp: fresh_draws_def hashes_def)
  show ?thesis unfolding assms(6) r using N(5)[of "[(now, r, e), (now, dr_raw (snd (last xs)), e)]"] bad good by simp
qed


section \<open>Examples\<close>

definition sample_user :: user_row where
  "sample_user = \<lparr>us_id = 7, us_organization_id = 1, us_external_id = ''a@b.c'', us_email = Some ''a@b.c'', us_name = None,
     us_role = Some ''admin'', us_permissions = [], us_password_hash = Some ''h'', us_is_active = True, us_must_change_password = False,
     us_is_deleted = False, us_is_email_verified = True, us_email_verified_at = None, us_mfa_enabled = False, us_invite_token_hash = None\<rparr>"

definition sample_auth_db :: auth_db where
  "sample_auth_db = \<lparr>ad_users = [sample_user], ad_tokens = []\<rparr>"

definition sample_tokens :: token_env where
  "sample_tokens = \<lparr>te_sha256 = (\<lambda>s. s), te_jwt = (\<lambda>c now ttl. cl_sub c), te_access_ttl = 900000000, te_refresh_ttl = 1000\<rparr>"

definition sample_draw :: "nat \<Rightarrow> token_draw" where
  "sample_draw i = \<lparr>dr_raw = replicate i CHR ''a'', dr_id = i\<rparr>"

lemma sample_draw_simps [simp]: "dr_raw (sample_draw i) = replicate i CHR ''a''" "dr_id (sample_draw i) = i"
  by (simp_all add: sample_draw_def)

definition sample_issued :: auth_db where
  "sample_issued = sample_auth_db\<lparr>ad_tokens := [\<lparr>rt_id = 0, rt_user_id = 7, rt_organization_id = 1, rt_token_hash = [],
     rt_expires_at = 1000, rt_is_revoked = False, rt_rotated_by = None\<rparr>]\<rparr>"

lemma sample_issue:
  "issue_tokens sample_tokens 0 (sample_draw 0) 7 1 ''admin'' sample_auth_db
    = Inr (\<lparr>tr_access_token = uuid_str 7, tr_refresh_token = [], tr_expires_in = 900\<rparr>, sample_issued)"
  by (simp add: issue_tokens_def create_refresh_token_def sample_auth_db_def sample_tokens_def sample_draw_def sample_issued_def)

lemma sample_issue_ok: "tables_ok sample_auth_db" "get_user_by_id 7 sample_auth_db = Some sample_user" "us_is_active sample_user"
  by (simp_all add: tables_ok_def sample_auth_db_def get_user_by_id_def sample_user_def)

definition sample_ops :: "(datetime \<times> string \<times> token_draw) list" where
  "sample_ops = [(5, [], sample_draw 1), (6, [], sample_draw 2), (7, ''a'', sample_draw 3)]"

theorem refresh_refines_session_witness:
  "map (\<lambda>r. \<not> isl r) (refresh_run sample_tokens sample_ops sample_issued) = [True, False, False]"
proof -
  have "run_ok sample_tokens [] 0 sample_ops sample_issued"
    by (simp add: sample_ops_def run_ok_def fresh_draws_def hashes_def sample_tokens_def sample_issued_def inj_on_def numeral_eq_Suc)
  then have "map (\<lambda>r. \<not> isl r) (refresh_run sample_tokens sample_ops sample_issued)
      = session_spec True [[]] (map (\<lambda>(now, raw, d). (raw, dr_raw d)) sample_ops)"
    using refresh_refines_session[OF sample_issue_ok(1) sample_issue sample_issue_ok(2,3), of sample_ops] by (simp add: sample_ops_def)
  then show ?thesis by (simp add: sample_ops_def numeral_eq_Suc)
qed

definition sample_rotations :: "nat list \<Rightarrow> (datetime \<times> token_draw) list" where
  "sample_rotations is = map (\<lambda>i. (5, sample_draw i)) is"

lemma sample_rotations_facts:
  "map (\<lambda>(now, raw, d). d) (rotations q (sample_rotations is)) = map sample_draw is"
  "op \<in> set (rotations q (sample_rotations is)) \<Longrightarrow> fst op = 5 \<and> fst (snd op) \<in> insert q (dr_raw ` sample_draw ` set is)"
  by (induction "is" arbitrary: q) (auto simp: sample_rotations_def)

theorem refresh_replay_limit_witness:
  "map isl (refresh_run sample_tokens (rotations [] (sample_rotations [1..<32])
      @ [(9, [], sample_draw 50), (9, replicate 31 CHR ''a'', sample_draw 50)]) sample_issued) = replicate 31 False @ [True, False]"
proof -
  let ?xs = "sample_rotations [1..<32]"
  have len: "length ?xs = 31" by (simp add: sample_rotations_def)
  have "last ?xs = (5, sample_draw 31)" by (simp add: sample_rotations_def last_map)
  then have lst: "dr_raw (snd (last ?xs)) = replicate 31 CHR ''a''" by simp
  have ok: "run_ok sample_tokens [] 0 (rotations [] ?xs @ [(9, [], sample_draw 50)]) sample_issued"
    using sample_rotations_facts(2)[of _ "[]" "[1..<32]"] unfolding run_ok_def Let_def map_append sample_rotations_facts(1)
    by (force simp: fresh_draws_def hashes_def sample_tokens_def sample_issued_def inj_on_def list_all_iff distinct_map)
  have "map isl (refresh_run sample_tokens (rotations [] ?xs @ [(9, [], sample_draw 50), (9, dr_raw (snd (last ?xs)), sample_draw 50)]) sample_issued)
      = replicate (length ?xs) False @ [True, False]"
    using refresh_replay_limit[OF sample_issue_ok(1) sample_issue sample_issue_ok(2,3), of ?xs _ 9 "sample_draw 50"] ok len by simp
  then show ?thesis unfolding lst len .
qed

end
