(* ===== verification/Cache.thy ===== *)
theory Cache
  imports Redis
begin

text \<open>
  Caches in front of a database, as the authorization checks and the API keys use them. Redis may fail at
  any command: the locale \<open>cache_server\<close> states only that a failed command did or did not take effect.
  The locale \<open>cache_aside\<close> is the contract of one entry: what it holds was true of the database less than a
  time to live ago.
\<close>

section \<open>Cached lookups\<close>

text \<open>
  The pattern of the three lookups. A value that cannot be read or decoded is a miss; a miss reads the
  database; a database that is down and a user that is not live answer \<open>deny\<close> and write nothing; a
  failed write is ignored. The database of a request is \<open>Inl\<close> of an exception when it is down.
\<close>

definition cached_lookup ::
  "'s redis \<Rightarrow> string \<Rightarrow> nat \<Rightarrow> (rval \<Rightarrow> 'v res) \<Rightarrow> ('v \<Rightarrow> rval) \<Rightarrow> 'v \<Rightarrow> ('d \<Rightarrow> 'v option) \<Rightarrow> 'd res \<Rightarrow> 's \<Rightarrow> 'v \<times> 's" where
  "cached_lookup R key ttl decode encode deny truth db s =
     (case redis_get R key s of (r, t) \<Rightarrow>
        case exc_bind r (\<lambda>v. case v of None \<Rightarrow> Inr None | Some c \<Rightarrow> exc_bind (decode c) (\<lambda>x. Inr (Some x))) of
          Inr (Some x) \<Rightarrow> (x, t)
        | _ \<Rightarrow>
            (case db of
               Inl _ \<Rightarrow> (deny, t)
             | Inr d \<Rightarrow>
                 (case truth d of
                    None \<Rightarrow> (deny, t)
                  | Some x \<Rightarrow> (x, snd (redis_setex R key ttl (encode x) t)))))"

section \<open>A server that may fail\<close>

text \<open>
  What the lookups rely on of Redis when its commands may fail: a read answers with the stored value or
  fails, a write and a deletion take effect or not, and a deletion without effect has failed.
\<close>

locale cache_server =
  fixes R :: "'s redis" and view :: "'s \<Rightarrow> store"
  assumes get_cases: "redis_get R k s = (r, t) \<Longrightarrow> view t = view s \<and> (isl r \<or> r = fst (st_get k (view s)))"
    and setex_cases: "redis_setex R k n v s = (q, t) \<Longrightarrow> view t = view s \<or> view t = snd (st_setex k n v (view s))"
    and delete_cases: "redis_delete R ks s = (q, t) \<Longrightarrow> view t = snd (st_delete ks (view s)) \<or> (view t = view s \<and> isl q)"
    and exists_view: "redis_exists R k s = (b, t) \<Longrightarrow> view t = view s"
    and incr_frame: "redis_incr R k s = (i, t) \<Longrightarrow> k' \<noteq> k \<Longrightarrow> view t k' = view s k'"
    and expire_frame: "redis_expire R k n s = (b, t) \<Longrightarrow> k' \<noteq> k \<Longrightarrow> view t k' = view s k'"
    and elapse_view: "view (redis_elapse R n s) = st_elapse n (view s)"

lemma st_frame:
  "k' \<noteq> k \<Longrightarrow> snd (st_add d k st) k' = st k'" "k' \<noteq> k \<Longrightarrow> snd (st_expire k n st) k' = st k'"
  by (auto simp: st_add_def st_expire_def split: option.splits rval.splits)

sublocale redis_server \<subseteq> cache_server
proof
  show "view t = view s \<and> (isl r \<or> r = fst (st_get k (view s)))" if "redis_get R k s = (r, t)" for k s r t
    using simD[OF get_law that] by (auto simp: st_get_def split: option.splits rval.splits)
  show "view t = view s \<or> view t = snd (st_setex k n v (view s))" if "redis_setex R k n v s = (r, t)" for k n v s r t
    using simD[OF setex_law that] by (metis mem_redis_simps(2) snd_conv)
  show "view t = snd (st_delete ks (view s)) \<or> (view t = view s \<and> isl r)" if "redis_delete R ks s = (r, t)" for ks s r t
    using simD[OF delete_law that] by (metis mem_redis_simps(7) snd_conv)
  show "view t = view s" if "redis_exists R k s = (b, t)" for k s b t
    using simD[OF exists_law that] by (simp add: st_exists_def)
  show "view t k' = view s k'" if "redis_incr R k s = (i, t)" "k' \<noteq> k" for k s i t k'
    using simD[OF incr_law that(1)] st_frame(1)[OF that(2), of 1 "view s"] by simp
  show "view t k' = view s k'" if "redis_expire R k n s = (b, t)" "k' \<noteq> k" for k n s b t k'
    using simD[OF expire_law that(1)] st_frame(2)[OF that(2), of n "view s"] by simp
  show "view (redis_elapse R n s) = st_elapse n (view s)" for n s by (simp add: elapse_law)
qed

text \<open>A server that fails as a list of faults says.\<close>

definition faulty :: "(store, 'a) sx \<Rightarrow> (store \<times> bool list, 'a) sx" where
  "faulty m s = (case s of
     (st, True # bs) \<Rightarrow> (Inl RedisError, (st, bs))
   | (st, bs) \<Rightarrow> (case m st of (r, t) \<Rightarrow> (r, (t, tl bs))))"

definition faulty_redis :: "(store \<times> bool list) redis" where
  "faulty_redis =
     \<lparr>redis_ping = faulty st_ping, redis_get = (\<lambda>k. faulty (st_get k)), redis_setex = (\<lambda>k n v. faulty (st_setex k n v)),
      redis_set_nx = (\<lambda>k v n. faulty (st_set_nx k v n)), redis_incr = (\<lambda>k. faulty (st_add 1 k)),
      redis_decr = (\<lambda>k. faulty (st_add (-1) k)), redis_expire = (\<lambda>k n. faulty (st_expire k n)),
      redis_delete = (\<lambda>ks. faulty (st_delete ks)), redis_exists = (\<lambda>k. faulty (st_exists k)),
      redis_zremrangebyscore = (\<lambda>k lo hi. faulty (st_zremrangebyscore k lo hi)),
      redis_zcard = (\<lambda>k. faulty (st_zcard k)), redis_zadd = (\<lambda>k m x. faulty (st_zadd k m x)),
      redis_hgetall = (\<lambda>k. faulty (st_hgetall k)), redis_elapse = (\<lambda>n s. (st_elapse n (fst s), snd s))\<rparr>"

lemma faulty_cases: "faulty m s = (r, t) \<Longrightarrow> (r = Inl RedisError \<and> fst t = fst s) \<or> m (fst s) = (r, fst t)"
  by (auto simp: faulty_def split: prod.splits list.splits bool.splits)

interpretation faults: cache_server faulty_redis fst
proof
  show "fst t = fst s \<and> (isl r \<or> r = fst (st_get k (fst s)))" if "redis_get faulty_redis k s = (r, t)" for k s r t
    using faulty_cases[of "st_get k" s r t] that
    by (auto simp: faulty_redis_def st_get_def split: option.splits rval.splits)
  show "fst t = fst s \<or> fst t = snd (st_setex k n v (fst s))" if "redis_setex faulty_redis k n v s = (r, t)" for k n v s r t
    using faulty_cases[of "st_setex k n v" s r t] that by (auto simp: faulty_redis_def)
  show "fst t = snd (st_delete ks (fst s)) \<or> (fst t = fst s \<and> isl r)" if "redis_delete faulty_redis ks s = (r, t)" for ks s r t
    using faulty_cases[of "st_delete ks" s r t] that by (auto simp: faulty_redis_def)
  show "fst t = fst s" if "redis_exists faulty_redis k s = (b, t)" for k s b t
    using faulty_cases[of "st_exists k" s b t] that by (auto simp: faulty_redis_def st_exists_def)
  show "fst t k' = fst s k'" if "redis_incr faulty_redis k s = (i, t)" "k' \<noteq> k" for k s i t k'
    using faulty_cases[of "st_add 1 k" s i t] that(1) st_frame(1)[OF that(2), of 1 "fst s"] by (auto simp: faulty_redis_def)
  show "fst t k' = fst s k'" if "redis_expire faulty_redis k n s = (b, t)" "k' \<noteq> k" for k n s b t k'
    using faulty_cases[of "st_expire k n" s b t] that(1) st_frame(2)[OF that(2), of n "fst s"] by (auto simp: faulty_redis_def)
  show "fst (redis_elapse faulty_redis n s) = st_elapse n (fst s)" for n s by (simp add: faulty_redis_def)
qed

section \<open>Staleness of a lookup\<close>

text \<open>
  A history of the database: pairs of its content and of the milliseconds since it last had it; the
  first pair is the current content, of age zero.
\<close>

type_synonym 'd history = "(nat \<times> 'd) list"

definition age :: "nat \<Rightarrow> 'd history \<Rightarrow> 'd history" where
  "age n h = (0, snd (hd h)) # map (\<lambda>(a, d). (a + n, d)) h"

locale cache_aside = cache_server R view for R :: "'s redis" and view +
  fixes key :: string and ttl :: nat and decode :: "rval \<Rightarrow> 'v res" and encode :: "'v \<Rightarrow> rval"
    and truth :: "'d \<Rightarrow> 'v option"
  assumes ttl_pos: "0 < ttl"
    and decode_encode: "truth d = Some x \<Longrightarrow> decode (encode x) = Inr x"
begin

definition entry_ok :: "'d history \<Rightarrow> 's \<Rightarrow> bool" where
  "entry_ok h s \<longleftrightarrow> (\<forall>e. view s key = Some e \<longrightarrow>
     (\<exists>x l a d. e = (encode x, Some l) \<and> 0 < l \<and> (a, d) \<in> set h \<and> truth d = Some x \<and> a + l \<le> 1000 * ttl))"

lemma entry_ok_missing: "view s key = None \<Longrightarrow> entry_ok h s"
  by (simp add: entry_ok_def)

lemma entry_ok_frame: "entry_ok h s \<Longrightarrow> view t key = view s key \<or> view t key = None \<Longrightarrow> entry_ok h t"
  by (auto simp: entry_ok_def)

lemma entry_ok_mono: "entry_ok h s \<Longrightarrow> set h \<subseteq> set h' \<Longrightarrow> entry_ok h' s"
  unfolding entry_ok_def by (meson subsetD)

lemma entry_ok_elapse:
  assumes "entry_ok h s"
  shows "entry_ok (age n h) (redis_elapse R n s)"
  unfolding entry_ok_def
proof (intro allI impI)
  fix e
  assume "view (redis_elapse R n s) key = Some e"
  then have e: "st_elapse n (view s) key = Some e" by (simp add: elapse_view)
  then obtain e' where e': "view s key = Some e'" by (auto simp: st_elapse_def split: option.splits)
  obtain x l a d where x: "e' = (encode x, Some l)" "0 < l" "(a, d) \<in> set h" "truth d = Some x" "a + l \<le> 1000 * ttl"
    using assms e' unfolding entry_ok_def by blast
  then have "n < l" "e = (encode x, Some (l - n))" using e e' by (auto simp: st_elapse_def split: if_splits)
  moreover have "(a + n, d) \<in> set (age n h)" using x(3) by (force simp: age_def)
  ultimately show "\<exists>x l a d. e = (encode x, Some l) \<and> 0 < l \<and> (a, d) \<in> set (age n h) \<and> truth d = Some x \<and> a + l \<le> 1000 * ttl"
    using x by (intro exI[of _ x] exI[of _ "l - n"] exI[of _ "a + n"] exI[of _ d]) auto
qed

text \<open>A hit is a value the database had less than a time to live ago; writing a current value keeps the entry good.\<close>

lemma hit_recent:
  assumes "entry_ok h s" and "redis_get R key s = (Inr (Some c), t)"
  shows "\<exists>x a d. decode c = Inr x \<and> a < 1000 * ttl \<and> (a, d) \<in> set h \<and> truth d = Some x"
proof -
  have "fst (st_get key (view s)) = Inr (Some c)" using get_cases[OF assms(2)] by auto
  then obtain e where e: "view s key = Some e" "fst e = c" by (auto simp: st_get_def split: option.splits rval.splits)
  then obtain x l a d where x: "c = encode x" "0 < l" "(a, d) \<in> set h" "truth d = Some x" "a + l \<le> 1000 * ttl"
    using assms(1) unfolding entry_ok_def by fastforce
  then show ?thesis using decode_encode by (intro exI[of _ x] exI[of _ a] exI[of _ d]) auto
qed

lemma put_ok:
  assumes "entry_ok h s" and "(0, d) \<in> set h" and "truth d = Some x" and "redis_setex R key ttl (encode x) s = (q, t)"
  shows "entry_ok h t \<and> (\<forall>k. k \<noteq> key \<longrightarrow> view t k = view s k)"
proof -
  have "view t = view s \<or> view t = (view s)(key \<mapsto> (encode x, Some (1000 * ttl)))"
    using setex_cases[OF assms(4)] ttl_pos by (auto simp: st_setex_def)
  moreover have "entry_ok h t" if "view t = (view s)(key \<mapsto> (encode x, Some (1000 * ttl)))"
    using that assms(2,3) ttl_pos unfolding entry_ok_def by fastforce
  ultimately show ?thesis using entry_ok_frame[OF assms(1), of t] by auto
qed

lemma lookup_recent:
  assumes "entry_ok h s" and "\<And>d. db = Inr d \<Longrightarrow> (0, d) \<in> set h"
    and "cached_lookup R key ttl decode encode deny truth db s = (x, t)"
  shows "entry_ok h t \<and> (\<forall>k. k \<noteq> key \<longrightarrow> view t k = view s k)
    \<and> (x = deny \<or> (\<exists>a d. a < 1000 * ttl \<and> (a, d) \<in> set h \<and> truth d = Some x))"
proof -
  obtain r u where g: "redis_get R key s = (r, u)" by fastforce
  note gc = get_cases[OF g]
  define hit where "hit = exc_bind r (\<lambda>v. case v of None \<Rightarrow> Inr None | Some c \<Rightarrow> exc_bind (decode c) (\<lambda>x. Inr (Some x)))"
  show ?thesis
  proof (cases "\<exists>y. hit = Inr (Some y)")
    case True
    then obtain y where y: "hit = Inr (Some y)" by blast
    then have x: "x = y" "t = u" using assms(3) g by (auto simp: cached_lookup_def hit_def)
    obtain c where c: "r = Inr (Some c)" "decode c = Inr y" using y by (auto simp: hit_def exc_bind_Inr_iff split: option.splits)
    then have "\<exists>a d. a < 1000 * ttl \<and> (a, d) \<in> set h \<and> truth d = Some x"
      using hit_recent[OF assms(1)] g x(1) by fastforce
    then show ?thesis using gc x(2) entry_ok_frame[OF assms(1), of t] by auto
  next
    case False
    then have run: "cached_lookup R key ttl decode encode deny truth db s
        = (case db of Inl _ \<Rightarrow> (deny, u) | Inr d \<Rightarrow> (case truth d of None \<Rightarrow> (deny, u)
             | Some x \<Rightarrow> (x, snd (redis_setex R key ttl (encode x) u))))"
      unfolding cached_lookup_def g prod.case hit_def[symmetric] by (auto split: sum.splits option.splits)
    have u: "entry_ok h u" using gc entry_ok_frame[OF assms(1), of u] by auto
    show ?thesis
    proof (cases "\<exists>d y. db = Inr d \<and> truth d = Some y")
      case True
      then obtain d y where d: "db = Inr d" "truth d = Some y" by blast
      obtain q w where w: "redis_setex R key ttl (encode y) u = (q, w)" by fastforce
      have x: "x = y" "t = w" using assms(3) unfolding run by (simp_all add: d w)
      have "entry_ok h t \<and> (\<forall>k. k \<noteq> key \<longrightarrow> view t k = view s k)"
        using put_ok[OF u assms(2)[OF d(1)] d(2) w] x(2) gc by auto
      moreover have "\<exists>a d. a < 1000 * ttl \<and> (a, d) \<in> set h \<and> truth d = Some x"
        using x(1) d assms(2)[OF d(1)] ttl_pos by (intro exI[of _ 0] exI[of _ d]) simp
      ultimately show ?thesis by blast
    next
      case False
      then have "x = deny" "t = u" using assms(3) unfolding run by (auto split: sum.splits option.splits)
      then show ?thesis using u gc by auto
    qed
  qed
qed

end

lemma faulty_redis_simps [simp]:
  "redis_get faulty_redis k = faulty (st_get k)" "redis_setex faulty_redis k n v = faulty (st_setex k n v)"
  "redis_delete faulty_redis ks = faulty (st_delete ks)" "redis_elapse faulty_redis n s = (st_elapse n (fst s), snd s)"
  by (simp_all add: faulty_redis_def)

end
