(* ===== verification/Authorization.thy ===== *)
theory Authorization
  imports Accounts Cache
begin

text \<open>
  Authorization of dashboard users and API keys: the Redis-cached lookups of \<^verbatim>\<open>core/rbac.py\<close> and the
  checks of \<^verbatim>\<open>dependencies/auth.py\<close> on the request state that the authentication middleware has set. The
  database may be down, and Redis may fail at any command. JSON is a parameter. Shown: a check passes only on a role or permission the
  user row had within the last sixty seconds, whatever fails.
\<close>

section \<open>Lookups\<close>

definition RBAC_ROLE_CACHE_TTL :: nat where "RBAC_ROLE_CACHE_TTL = 60"
definition PWD_FLAG_CACHE_TTL :: nat where "PWD_FLAG_CACHE_TTL = 60"
definition RBAC_PERMS_CACHE_TTL :: nat where "RBAC_PERMS_CACHE_TTL = 60"

definition role_cache_key :: "uuid \<Rightarrow> uuid \<Rightarrow> string" where
  "role_cache_key org uid = ''rbac:role:'' @ uuid_str org @ '':'' @ uuid_str uid"

definition perms_cache_key :: "uuid \<Rightarrow> uuid \<Rightarrow> string" where
  "perms_cache_key org uid = ''rbac:perms:'' @ uuid_str org @ '':'' @ uuid_str uid"

definition pwd_flag_cache_key :: "uuid \<Rightarrow> uuid \<Rightarrow> string" where
  "pwd_flag_cache_key org uid = ''rbac:pwd:flag:'' @ uuid_str org @ '':'' @ uuid_str uid"

definition user_by_uuid :: "uuid \<Rightarrow> uuid \<Rightarrow> auth_db \<Rightarrow> user_row option" where
  "user_by_uuid org uid db = List.find (\<lambda>u. us_id u = uid \<and> us_organization_id u = org) (ad_users db)"

text \<open>The row the lookups use: that of an active, not deleted user.\<close>

definition live_user :: "uuid \<Rightarrow> uuid \<Rightarrow> auth_db \<Rightarrow> user_row option" where
  "live_user org uid db =
     (case user_by_uuid org uid db of
        None \<Rightarrow> None
      | Some u \<Rightarrow> if \<not> us_is_active u \<or> us_is_deleted u then None else Some u)"

fun rval_text :: "rval \<Rightarrow> string res" where
  "rval_text (Txt s) = Inr s"
| "rval_text (Num n) = Inr (if n < 0 then CHR ''-'' # py_digits (nat (- n)) else py_digits (nat n))"
| "rval_text _ = Inl TypeError"

definition get_org_role :: "'s redis \<Rightarrow> auth_db res \<Rightarrow> uuid \<Rightarrow> uuid \<Rightarrow> 's \<Rightarrow> string \<times> 's" where
  "get_org_role R db org uid =
     cached_lookup R (role_cache_key org uid) RBAC_ROLE_CACHE_TTL rval_text Txt ''member''
       (\<lambda>d. map_option role_of (live_user org uid d)) db"

record json_codec =
  jc_dumps :: "string list \<Rightarrow> string"
  jc_loads :: "string \<Rightarrow> string list res"

definition get_effective_permissions :: "'s redis \<Rightarrow> json_codec \<Rightarrow> auth_db res \<Rightarrow> uuid \<Rightarrow> uuid \<Rightarrow> 's \<Rightarrow> string set \<times> 's" where
  "get_effective_permissions R J db org uid =
     cached_lookup R (perms_cache_key org uid) RBAC_PERMS_CACHE_TTL
       (\<lambda>c. exc_bind (rval_text c) (\<lambda>raw. exc_bind (jc_loads J raw) (\<lambda>ps. Inr (set ps))))
       (\<lambda>ps. Txt (jc_dumps J (sorted_list_of_set ps))) {}
       (\<lambda>d. map_option (\<lambda>u. set (us_permissions u)) (live_user org uid d)) db"

definition get_must_change_password :: "'s redis \<Rightarrow> auth_db res \<Rightarrow> uuid \<Rightarrow> uuid \<Rightarrow> 's \<Rightarrow> bool \<times> 's" where
  "get_must_change_password R db org uid =
     cached_lookup R (pwd_flag_cache_key org uid) PWD_FLAG_CACHE_TTL
       (\<lambda>c. exc_bind (rval_text c) (\<lambda>raw. Inr (raw = ''1''))) (\<lambda>b. Txt (if b then ''1'' else ''0'')) True
       (\<lambda>d. map_option us_must_change_password (live_user org uid d)) db"

text \<open>A failed invalidation is logged and ignored.\<close>

definition invalidate_role :: "'s redis \<Rightarrow> uuid \<Rightarrow> uuid \<Rightarrow> 's \<Rightarrow> 's" where
  "invalidate_role R org uid s = snd (redis_delete R [role_cache_key org uid] s)"

definition invalidate_permissions :: "'s redis \<Rightarrow> uuid \<Rightarrow> uuid \<Rightarrow> 's \<Rightarrow> 's" where
  "invalidate_permissions R org uid s = snd (redis_delete R [perms_cache_key org uid] s)"

definition invalidate_must_change_password :: "'s redis \<Rightarrow> uuid \<Rightarrow> uuid \<Rightarrow> 's \<Rightarrow> 's" where
  "invalidate_must_change_password R org uid s = snd (redis_delete R [pwd_flag_cache_key org uid] s)"

section \<open>Checks\<close>

text \<open>
  The state that the middleware leaves on a request; the ids are the UUIDs of the source's texts.
\<close>

record auth_scope =
  sc_auth_type :: "string option"
  sc_org_id :: "uuid option"
  sc_user_id :: "uuid option"
  sc_role :: "string option"
  sc_api_key_permissions :: "string list"
  sc_api_key_project_id :: "uuid option"
  sc_api_key_id :: "uuid option"

text \<open>The application: a Redis client if one is configured, and the database of the request.\<close>

record 's app =
  ap_redis :: "'s redis option"
  ap_db :: "auth_db res"
  ap_json :: json_codec

definition require_org_id :: "auth_scope \<Rightarrow> uuid res" where
  "require_org_id sc = (case sc_org_id sc of None \<Rightarrow> Inl (HTTPException 401) | Some org \<Rightarrow> Inr org)"

definition check_permission :: "'s app \<Rightarrow> auth_scope \<Rightarrow> uuid \<Rightarrow> string \<Rightarrow> ('s, unit) sx" where
  "check_permission A sc org required_permission s =
     (if sc_auth_type sc = Some ''api_key''
      then (if required_permission \<notin> set (sc_api_key_permissions sc) then (Inl (HTTPException 403), s) else (Inr (), s))
      else case sc_user_id sc of
        None \<Rightarrow> (Inl (HTTPException 401), s)
      | Some uid \<Rightarrow>
          (case ap_redis A of
             None \<Rightarrow> (Inl (HTTPException 503), s)
           | Some R \<Rightarrow>
               (case get_org_role R (ap_db A) org uid s of (role, t) \<Rightarrow>
                  if role \<in> {''admin'', ''superadmin''} then (Inr (), t)
                  else (case get_effective_permissions R (ap_json A) (ap_db A) org uid t of (permissions, u) \<Rightarrow>
                          if required_permission \<notin> permissions then (Inl (HTTPException 403), u) else (Inr (), u)))))"

definition require_permission :: "'s app \<Rightarrow> string \<Rightarrow> auth_scope \<Rightarrow> ('s, uuid) sx" where
  "require_permission A required_permission sc s =
     (case require_org_id sc of
        Inl e \<Rightarrow> (Inl e, s)
      | Inr org \<Rightarrow> sx_bind (check_permission A sc org required_permission) (\<lambda>_. sx_return org) s)"

definition require_permission_or_self :: "'s app \<Rightarrow> string \<Rightarrow> uuid \<Rightarrow> auth_scope \<Rightarrow> ('s, uuid) sx" where
  "require_permission_or_self A required_permission target sc s =
     (case require_org_id sc of
        Inl e \<Rightarrow> (Inl e, s)
      | Inr org \<Rightarrow>
          if sc_auth_type sc = Some ''jwt'' \<and> sc_user_id sc = Some target then (Inr org, s)
          else sx_bind (check_permission A sc org required_permission) (\<lambda>_. sx_return org) s)"

text \<open>The set a principal may grant; \<open>None\<close> is no cap.\<close>

definition get_actor_permissions :: "'s app \<Rightarrow> auth_scope \<Rightarrow> ('s, string set option) sx" where
  "get_actor_permissions A sc s =
     (if sc_auth_type sc = Some ''api_key'' then (Inr (Some (set (sc_api_key_permissions sc))), s)
      else case (sc_user_id sc, sc_org_id sc) of
        (Some uid, Some org) \<Rightarrow>
          (case ap_redis A of
             None \<Rightarrow> (Inl (HTTPException 503), s)
           | Some R \<Rightarrow>
               (case get_org_role R (ap_db A) org uid s of (role, t) \<Rightarrow>
                  if role \<in> {''admin'', ''superadmin''} then (Inr None, t)
                  else (case get_effective_permissions R (ap_json A) (ap_db A) org uid t of (ps, u) \<Rightarrow> (Inr (Some ps), u))))
      | _ \<Rightarrow> (Inl (HTTPException 401), s))"

definition MUST_CHANGE_PASSWORD_EXEMPT_PATHS :: "(string \<times> string) list" where
  "MUST_CHANGE_PASSWORD_EXEMPT_PATHS =
     [(''POST'', ''/v1/auth/change-password''), (''GET'', ''/v1/auth/me''), (''POST'', ''/v1/auth/logout''), (''POST'', ''/v1/auth/refresh'')]"

definition get_dashboard_user :: "'s app \<Rightarrow> string \<times> string \<Rightarrow> auth_scope \<Rightarrow> ('s, uuid) sx" where
  "get_dashboard_user A endpoint sc s =
     (case require_org_id sc of
        Inl e \<Rightarrow> (Inl e, s)
      | Inr org \<Rightarrow>
          if sc_auth_type sc \<noteq> Some ''jwt'' then (Inl (HTTPException 401), s)
          else case sc_user_id sc of
            None \<Rightarrow> (Inl (HTTPException 401), s)
          | Some uid \<Rightarrow>
              if endpoint \<in> set MUST_CHANGE_PASSWORD_EXEMPT_PATHS then (Inr uid, s)
              else (case ap_redis A of
                      None \<Rightarrow> (Inl (HTTPException 503), s)
                    | Some R \<Rightarrow>
                        (case get_must_change_password R (ap_db A) org uid s of (must_change, t) \<Rightarrow>
                           if must_change then (Inl (HTTPException 403), t) else (Inr uid, t))))"

definition PLATFORM_ORG_ID :: uuid where "PLATFORM_ORG_ID = 170"

definition ensure_superadmin :: "'s app \<Rightarrow> uuid \<Rightarrow> uuid \<Rightarrow> ('s, unit) sx" where
  "ensure_superadmin A org uid s =
     (if org \<noteq> PLATFORM_ORG_ID then (Inl (HTTPException 403), s)
      else case ap_redis A of
        None \<Rightarrow> (Inl (HTTPException 503), s)
      | Some R \<Rightarrow>
          (case get_org_role R (ap_db A) PLATFORM_ORG_ID uid s of (role, t) \<Rightarrow>
             if role \<noteq> ''superadmin'' then (Inl (HTTPException 403), t) else (Inr (), t)))"

definition require_superadmin :: "'s app \<Rightarrow> string \<times> string \<Rightarrow> auth_scope \<Rightarrow> ('s, uuid) sx" where
  "require_superadmin A endpoint sc s =
     (case require_org_id sc of
        Inl e \<Rightarrow> (Inl e, s)
      | Inr org \<Rightarrow>
          sx_bind (get_dashboard_user A endpoint sc) (\<lambda>uid. sx_bind (ensure_superadmin A org uid) (\<lambda>_. sx_return org)) s)"


section \<open>The three caches\<close>

locale rbac_server = cache_server R view for R :: "'s redis" and view +
  fixes J :: json_codec
  assumes loads_dumps: "jc_loads J (jc_dumps J ps) = Inr ps"

sublocale rbac_server \<subseteq> roles: cache_aside R view "role_cache_key org uid" RBAC_ROLE_CACHE_TTL rval_text Txt
    "\<lambda>d. map_option role_of (live_user org uid d)" for org uid
  by unfold_locales (simp_all add: RBAC_ROLE_CACHE_TTL_def)

sublocale rbac_server \<subseteq> perms: cache_aside R view "perms_cache_key org uid" RBAC_PERMS_CACHE_TTL
    "\<lambda>c. exc_bind (rval_text c) (\<lambda>raw. exc_bind (jc_loads J raw) (\<lambda>ps. Inr (set ps)))"
    "\<lambda>ps. Txt (jc_dumps J (sorted_list_of_set ps))" "\<lambda>d. map_option (\<lambda>u. set (us_permissions u)) (live_user org uid d)" for org uid
  by unfold_locales (auto simp: RBAC_PERMS_CACHE_TTL_def loads_dumps)

sublocale rbac_server \<subseteq> flags: cache_aside R view "pwd_flag_cache_key org uid" PWD_FLAG_CACHE_TTL
    "\<lambda>c. exc_bind (rval_text c) (\<lambda>raw. Inr (raw = ''1''))" "\<lambda>b. Txt (if b then ''1'' else ''0'')"
    "\<lambda>d. map_option us_must_change_password (live_user org uid d)" for org uid
  by unfold_locales (auto simp: PWD_FLAG_CACHE_TTL_def)

text \<open>A codec of lists of texts that satisfies the law.\<close>

definition words_dumps :: "string list \<Rightarrow> string" where
  "words_dumps ps = concat (map (\<lambda>w. concat (map (\<lambda>c. [CHR 0x01, c]) w) @ [CHR 0x00]) ps)"

fun words_parse :: "string \<Rightarrow> string \<Rightarrow> string list" where
  "words_parse acc [] = []"
| "words_parse acc [c] = [rev acc]"
| "words_parse acc (c # d # s) = (if c = CHR 0x01 then words_parse (d # acc) s else rev acc # words_parse [] (d # s))"

definition sample_json :: json_codec where
  "sample_json = \<lparr>jc_dumps = words_dumps, jc_loads = (\<lambda>s. Inr (words_parse [] s))\<rparr>"

lemma words_parse_word:
  "words_parse acc (concat (map (\<lambda>c. [CHR 0x01, c]) w) @ CHR 0x00 # rest) = (rev acc @ w) # words_parse [] rest"
proof (induction w arbitrary: acc)
  case Nil
  then show ?case by (cases rest) auto
next
  case (Cons c w)
  then show ?case by simp
qed

lemma sample_json_law: "jc_loads sample_json (jc_dumps sample_json ps) = Inr ps"
proof -
  have "words_parse [] (words_dumps ps) = ps" by (induction ps) (auto simp: words_dumps_def words_parse_word)
  then show ?thesis by (simp add: sample_json_def)
qed

interpretation faulty_rbac: rbac_server faulty_redis fst sample_json
  by unfold_locales (rule sample_json_law)

section \<open>Traffic\<close>

text \<open>
  A trace: time passes, the database changes, a user's cache entries are invalidated, and requests need a
  permission while the database is up or down. A request is recorded with the history at that time.
\<close>

datatype auth_event =
    Wait nat
  | Write auth_db
  | Invalidate uuid uuid
  | Request auth_scope string bool

fun auth_run :: "'s redis \<Rightarrow> json_codec \<Rightarrow> auth_event list \<Rightarrow> 's \<Rightarrow> auth_db history \<Rightarrow> (auth_scope \<times> string \<times> auth_db history \<times> uuid res) list" where
  "auth_run R J [] s h = []"
| "auth_run R J (Wait n # es) s h = auth_run R J es (redis_elapse R n s) (age n h)"
| "auth_run R J (Write d # es) s h = auth_run R J es s ((0, d) # h)"
| "auth_run R J (Invalidate org uid # es) s h = auth_run R J es (invalidate_permissions R org uid (invalidate_role R org uid s)) h"
| "auth_run R J (Request sc perm up # es) s h =
     (case require_permission \<lparr>ap_redis = Some R, ap_db = (if up then Inr (snd (hd h)) else Inl RuntimeError), ap_json = J\<rparr> perm sc s of
        (r, t) \<Rightarrow> (sc, perm, h, r) # auth_run R J es t h)"

definition is_uuid :: "uuid \<Rightarrow> bool" where
  "is_uuid u \<longleftrightarrow> u < 2 ^ 128"

text \<open>A content of the database grants a permission to a user.\<close>

definition grants :: "auth_db \<Rightarrow> uuid \<Rightarrow> uuid \<Rightarrow> string \<Rightarrow> bool" where
  "grants d org uid perm \<longleftrightarrow> (\<exists>u \<in> set (ad_users d). us_id u = uid \<and> us_organization_id u = org \<and> us_is_active u \<and> \<not> us_is_deleted u
     \<and> (role_of u \<in> {''admin'', ''superadmin''} \<or> perm \<in> set (us_permissions u)))"

lemma live_user_grants:
  assumes "live_user org uid d = Some u" and "role_of u \<in> {''admin'', ''superadmin''} \<or> perm \<in> set (us_permissions u)"
  shows "grants d org uid perm"
proof -
  have "u \<in> set (ad_users d)" "us_id u = uid" "us_organization_id u = org" "us_is_active u" "\<not> us_is_deleted u"
    using assms(1) by (auto simp: live_user_def user_by_uuid_def find_Some_iff split: option.splits if_splits)
  then show ?thesis using assms(2) by (auto simp: grants_def)
qed

lemma cache_key_inj:
  assumes "is_uuid org" "is_uuid uid" "is_uuid org'" "is_uuid uid'"
    and "uuid_str org @ '':'' @ uuid_str uid = uuid_str org' @ '':'' @ uuid_str uid'"
  shows "org = org' \<and> uid = uid'"
proof -
  have "uuid_str org = uuid_str org' \<and> uuid_str uid = uuid_str uid'"
    using sep_append_eq[OF uuid_str_no_colon[of org] uuid_str_no_colon[of org']] assms(5) by simp
  then show ?thesis using assms(1-4) unfolding is_uuid_def by (blast intro: uuid_str_inj)
qed

lemma cache_keys_differ [simp]: "role_cache_key org uid \<noteq> perms_cache_key org' uid'"
  "perms_cache_key org uid \<noteq> role_cache_key org' uid'"
  by (simp_all add: role_cache_key_def perms_cache_key_def)

lemma role_key_inj: "is_uuid org \<Longrightarrow> is_uuid uid \<Longrightarrow> is_uuid org' \<Longrightarrow> is_uuid uid'
    \<Longrightarrow> role_cache_key org uid = role_cache_key org' uid' \<longleftrightarrow> org = org' \<and> uid = uid'"
  using cache_key_inj[of org uid org' uid'] by (auto simp: role_cache_key_def)

lemma perms_key_inj: "is_uuid org \<Longrightarrow> is_uuid uid \<Longrightarrow> is_uuid org' \<Longrightarrow> is_uuid uid'
    \<Longrightarrow> perms_cache_key org uid = perms_cache_key org' uid' \<longleftrightarrow> org = org' \<and> uid = uid'"
  using cache_key_inj[of org uid org' uid'] by (auto simp: perms_cache_key_def)

definition scope_ok :: "auth_scope \<Rightarrow> bool" where
  "scope_ok sc \<longleftrightarrow> (\<forall>org. sc_org_id sc = Some org \<longrightarrow> is_uuid org) \<and> (\<forall>uid. sc_user_id sc = Some uid \<longrightarrow> is_uuid uid)"

fun well_scoped :: "auth_event \<Rightarrow> bool" where
  "well_scoped (Request sc perm up) = scope_ok sc"
| "well_scoped e = True"

context rbac_server
begin

definition caches_ok :: "auth_db history \<Rightarrow> 's \<Rightarrow> bool" where
  "caches_ok h s \<longleftrightarrow> h \<noteq> [] \<and> fst (hd h) = 0
     \<and> (\<forall>org uid. is_uuid org \<longrightarrow> is_uuid uid \<longrightarrow> roles.entry_ok org uid h s \<and> perms.entry_ok org uid h s)"

lemma caches_ok_start:
  assumes "\<And>org uid. view s (role_cache_key org uid) = None \<and> view s (perms_cache_key org uid) = None"
  shows "caches_ok [(0, db)] s"
  using assms by (simp add: caches_ok_def roles.entry_ok_missing perms.entry_ok_missing)

lemma caches_ok_delete:
  assumes "caches_ok h s" and "redis_delete R ks s = (r, t)"
  shows "caches_ok h t"
proof -
  have "view t k = view s k \<or> view t k = None" for k using delete_cases[OF assms(2)] by (auto simp: st_delete_def split: if_splits)
  then show ?thesis using assms(1) unfolding caches_ok_def by (blast intro: roles.entry_ok_frame perms.entry_ok_frame)
qed

lemma check_step:
  assumes "caches_ok h s" and "db = Inr (snd (hd h)) \<or> isl db" and "is_uuid org" and "\<And>uid. sc_user_id sc = Some uid \<Longrightarrow> is_uuid uid"
    and "check_permission \<lparr>ap_redis = Some R, ap_db = db, ap_json = J\<rparr> sc org perm s = (r, t)"
  shows "caches_ok h t \<and> (r = Inr () \<longrightarrow>
     (if sc_auth_type sc = Some ''api_key'' then perm \<in> set (sc_api_key_permissions sc)
      else \<exists>uid a d. sc_user_id sc = Some uid \<and> a < 60000 \<and> (a, d) \<in> set h \<and> grants d org uid perm))"
proof (cases "sc_auth_type sc = Some ''api_key'' \<or> sc_user_id sc = None")
  case True
  then show ?thesis using assms(1,5) by (auto simp: check_permission_def split: if_splits)
next
  case False
  then obtain uid where uid: "sc_user_id sc = Some uid" by auto
  have cur: "(0, d) \<in> set h" if "db = Inr d" for d
    using that assms(1,2) by (cases h) (auto simp: caches_ok_def)
  have ub: "is_uuid uid" using assms(4) uid by simp
  obtain role u where g: "get_org_role R db org uid s = (role, u)" by fastforce
  have e0: "roles.entry_ok org uid h s" "perms.entry_ok org uid h s" using assms(1,3) ub by (auto simp: caches_ok_def)
  note lr = roles.lookup_recent[OF e0(1) cur g[unfolded get_org_role_def]]
  have cu: "caches_ok h u"
  proof -
    have "roles.entry_ok o' u' h u \<and> perms.entry_ok o' u' h u" if b: "is_uuid o'" "is_uuid u'" for o' u'
      using lr assms(1) b role_key_inj[OF b assms(3) ub] roles.entry_ok_frame[of o' u' h s u] perms.entry_ok_frame[of o' u' h s u]
      unfolding caches_ok_def by (metis cache_keys_differ(2))
    then show ?thesis using assms(1) by (simp add: caches_ok_def)
  qed
  have by_role: "\<exists>a d. a < 60000 \<and> (a, d) \<in> set h \<and> grants d org uid perm" if "role \<in> {''admin'', ''superadmin''}"
  proof -
    have "role \<noteq> ''member''" using that by auto
    then obtain a d where d: "a < 1000 * RBAC_ROLE_CACHE_TTL" "(a, d) \<in> set h" "map_option role_of (live_user org uid d) = Some role" using lr by blast
    then have "grants d org uid perm" using that by (auto intro: live_user_grants)
    then show ?thesis using d by (auto simp: RBAC_ROLE_CACHE_TTL_def)
  qed
  show ?thesis
  proof (cases "role \<in> {''admin'', ''superadmin''}")
    case True
    then show ?thesis using assms(5) cu by_role False uid by (auto simp: check_permission_def g)
  next
    case no: False
    obtain ps v where p: "get_effective_permissions R J db org uid u = (ps, v)" by fastforce
    have e1: "perms.entry_ok org uid h u" using cu assms(3) ub by (auto simp: caches_ok_def)
    note lp = perms.lookup_recent[OF e1 cur p[unfolded get_effective_permissions_def]]
    have cv: "caches_ok h v"
    proof -
      have "roles.entry_ok o' u' h v \<and> perms.entry_ok o' u' h v" if b: "is_uuid o'" "is_uuid u'" for o' u'
        using lp cu b perms_key_inj[OF b assms(3) ub] roles.entry_ok_frame[of o' u' h u v] perms.entry_ok_frame[of o' u' h u v]
        unfolding caches_ok_def by (metis cache_keys_differ(1))
      then show ?thesis using assms(1) by (simp add: caches_ok_def)
    qed
    have "\<exists>a d. a < 60000 \<and> (a, d) \<in> set h \<and> grants d org uid perm" if "perm \<in> ps"
    proof -
      have "ps \<noteq> {}" using that by auto
      then obtain a d where d: "a < 1000 * RBAC_PERMS_CACHE_TTL" "(a, d) \<in> set h"
        "map_option (\<lambda>u. set (us_permissions u)) (live_user org uid d) = Some ps" using lp by blast
      then have "grants d org uid perm" using that by (auto intro: live_user_grants)
      then show ?thesis using d by (auto simp: RBAC_PERMS_CACHE_TTL_def)
    qed
    then show ?thesis using assms(5) cv False uid no by (auto simp: check_permission_def g p split: if_splits)
  qed
qed

lemma auth_run_sound:
  assumes "caches_ok h s" and "list_all well_scoped es" and "(sc, perm, h', Inr org) \<in> set (auth_run R J es s h)"
  shows "sc_org_id sc = Some org \<and>
     (if sc_auth_type sc = Some ''api_key'' then perm \<in> set (sc_api_key_permissions sc)
      else \<exists>uid a d. sc_user_id sc = Some uid \<and> a < 60000 \<and> (a, d) \<in> set h' \<and> grants d org uid perm)"
  using assms
proof (induction es arbitrary: s h)
  case Nil
  then show ?case by simp
next
  case (Cons e es)
  show ?case
  proof (cases e)
    case (Wait n)
    have "caches_ok (age n h) (redis_elapse R n s)"
      using Cons.prems(1) by (auto simp: caches_ok_def age_def intro: roles.entry_ok_elapse[unfolded age_def] perms.entry_ok_elapse[unfolded age_def])
    then show ?thesis using Cons.IH Cons.prems Wait by auto
  next
    case (Write d)
    have "caches_ok ((0, d) # h) s"
    proof -
      have sub: "set h \<subseteq> set ((0, d) # h)" by auto
      show ?thesis using Cons.prems(1) roles.entry_ok_mono[OF _ sub] perms.entry_ok_mono[OF _ sub] by (simp add: caches_ok_def)
    qed
    then show ?thesis using Cons.IH Cons.prems Write by auto
  next
    case (Invalidate o' u')
    have "caches_ok h (invalidate_permissions R o' u' (invalidate_role R o' u' s))"
      unfolding invalidate_permissions_def invalidate_role_def
      by (metis caches_ok_delete[OF Cons.prems(1)] caches_ok_delete prod.collapse)
    then show ?thesis using Cons.IH Cons.prems Invalidate by auto
  next
    case (Request sc' perm' up)
    let ?db = "if up then Inr (snd (hd h)) else Inl RuntimeError :: auth_db res"
    let ?A = "\<lparr>ap_redis = Some R, ap_db = ?db, ap_json = J\<rparr>"
    obtain r t where run: "require_permission ?A perm' sc' s = (r, t)" by fastforce
    have "caches_ok h t \<and> (\<forall>org. r = Inr org \<longrightarrow> sc_org_id sc' = Some org \<and>
       (if sc_auth_type sc' = Some ''api_key'' then perm' \<in> set (sc_api_key_permissions sc')
        else \<exists>uid a d. sc_user_id sc' = Some uid \<and> a < 60000 \<and> (a, d) \<in> set h \<and> grants d org uid perm'))"
    proof (cases "sc_org_id sc'")
      case None
      then show ?thesis using run Cons.prems(1) by (auto simp: require_permission_def require_org_id_def)
    next
      case (Some o')
      obtain q w where c: "check_permission ?A sc' o' perm' s = (q, w)" by fastforce
      have o': "is_uuid o'" "\<And>uid. sc_user_id sc' = Some uid \<Longrightarrow> is_uuid uid" using Cons.prems(2) Request Some by (auto simp: scope_ok_def)
      note step = check_step[OF Cons.prems(1) _ o' c]
      have "t = w \<and> (\<forall>org. r = Inr org \<longrightarrow> org = o' \<and> q = Inr ())"
        using run Some c by (cases q) (auto simp: require_permission_def require_org_id_def sx_bind_def sx_return_def)
      then show ?thesis using step Some by (auto split: if_splits)
    qed
    then show ?thesis using Cons.IH[of h t] Cons.prems Request run by auto
  qed
qed

end


text \<open>
  C21: a permission check never passes on rights older than a minute. Whatever the order of requests,
  changes of the users and invalidations, and whatever Redis commands fail and whenever the database is
  down: a request that passes carries an API key with the permission, or the session of a user who was
  active in that organization and had the permission or an administrator's role within the last 60 seconds.
\<close>

theorem permission_checks_sound:
  assumes "rbac_server R view J"
    and "\<And>org uid. view s (role_cache_key org uid) = None \<and> view s (perms_cache_key org uid) = None"
    and "list_all well_scoped es" and "(sc, perm, h, Inr org) \<in> set (auth_run R J es s [(0, db)])"
  shows "sc_org_id sc = Some org \<and>
     (if sc_auth_type sc = Some ''api_key'' then perm \<in> set (sc_api_key_permissions sc)
      else \<exists>uid a d. sc_user_id sc = Some uid \<and> a < 60000 \<and> (a, d) \<in> set h \<and> grants d org uid perm)"
  by (rule rbac_server.auth_run_sound[OF assms(1) rbac_server.caches_ok_start[OF assms(1,2)] assms(3,4)])

text \<open>
  A user is demoted while Redis fails to delete the cached role: the request a second later passes, the one a
  minute later does not, although the database is down by then.
\<close>

definition sample_admins :: "string \<Rightarrow> auth_db" where
  "sample_admins role = \<lparr>ad_users = [sample_user\<lparr>us_role := Some role\<rparr>], ad_tokens = []\<rparr>"

definition sample_caller :: auth_scope where
  "sample_caller = \<lparr>sc_auth_type = Some ''jwt'', sc_org_id = Some 1, sc_user_id = Some 7, sc_role = None, sc_api_key_permissions = [],
     sc_api_key_project_id = None, sc_api_key_id = None\<rparr>"

definition sample_events :: "auth_event list" where
  "sample_events = [Request sample_caller ''members:write'' True, Write (sample_admins ''member''), Invalidate 1 7, Wait 1000,
     Request sample_caller ''members:write'' True, Wait 60000, Request sample_caller ''members:write'' False]"

lemma sample_lookup [simplified, simp]:
  "live_user 1 7 (sample_admins role) = Some (sample_user\<lparr>us_role := Some role\<rparr>)"
  by (simp add: live_user_def user_by_uuid_def sample_admins_def sample_user_def)

lemma sample_auth_run:
  "map (\<lambda>(sc, perm, h, r). (r, map fst h)) (auth_run faulty_redis sample_json sample_events
       (\<lambda>_. None, [False, False, True, True]) [(0, sample_admins ''admin'')])
     = [(Inr 1, [0]), (Inr 1, [0, 1000, 1000]), (Inl (HTTPException 403), [0, 60000, 61000, 61000])]"
  by (simp add: sample_events_def require_permission_def require_org_id_def sample_caller_def check_permission_def get_org_role_def
      get_effective_permissions_def cached_lookup_def faulty_def st_get_def st_setex_def st_elapse_def st_delete_def
      role_of_def invalidate_role_def invalidate_permissions_def sx_bind_def sx_return_def age_def RBAC_ROLE_CACHE_TTL_def)

theorem permission_checks_sound_witness:
  "\<exists>h a d. (sample_caller, ''members:write'', h, Inr 1) \<in> set (auth_run faulty_redis sample_json sample_events
       (\<lambda>_. None, [False, False, True, True]) [(0, sample_admins ''admin'')])
     \<and> map fst h = [0, 1000, 1000] \<and> a < 60000 \<and> (a, d) \<in> set h \<and> grants d 1 7 ''members:write''"
proof -
  let ?run = "auth_run faulty_redis sample_json sample_events (\<lambda>_. None, [False, False, True, True]) [(0, sample_admins ''admin'')]"
  have "(Inr 1, [0, 1000, 1000]) \<in> set (map (\<lambda>(sc, perm, h, r). (r, map fst h)) ?run)" unfolding sample_auth_run by simp
  then obtain sc perm h where h: "(sc, perm, h, Inr 1) \<in> set ?run" "map fst h = [0, 1000, 1000]" by auto
  have e: "sc = sample_caller" "perm = ''members:write''"
    using h(1) by (auto simp: sample_events_def split: prod.splits)
  have "\<exists>a d. a < 60000 \<and> (a, d) \<in> set h \<and> grants d 1 7 ''members:write''"
    using permission_checks_sound[OF faulty_rbac.rbac_server_axioms _ _ h(1)]
    by (simp add: e sample_caller_def sample_events_def scope_ok_def is_uuid_def)
  then show ?thesis using h unfolding e by (elim exE conjE) (intro exI conjI; assumption)
qed

end
