(* ===== verification/Api_Keys.thy ===== *)
theory Api_Keys
  imports Authorization Sorting
begin

text \<open>
  API keys and the authentication of requests: \<^verbatim>\<open>utils/crypto.py\<close>, \<^verbatim>\<open>models/api_key.py\<close>,
  \<^verbatim>\<open>repositories/api_key_repository.py\<close>, \<^verbatim>\<open>services/api_key_service.py\<close> and \<^verbatim>\<open>middleware/auth.py\<close>. The hash,
  the codecs of the cached entry, the verification of a signed token and the random numbers are
  parameters; response bodies are left out. Shown: what a request that gets through has presented, also when
  Redis fails; that a key is dead once it is revoked unless a request slips in between; that a new key
  grants no more than its creator had.
\<close>

section \<open>Keys\<close>

definition BASE62_ALPHABET :: string where
  "BASE62_ALPHABET = ''0123456789ABCDEFGHIJKLMNOPQRSTUVWXYZabcdefghijklmnopqrstuvwxyz''"

text \<open>The loop collects the digits least significant first; the result is reversed.\<close>

function base62_digits :: "nat \<Rightarrow> string" where
  "base62_digits num = (if num = 0 then [] else BASE62_ALPHABET ! (num mod 62) # base62_digits (num div 62))"
  by auto
termination by (relation "measure id") auto

declare base62_digits.simps [simp del]

definition base62_encode :: "int \<Rightarrow> string res" where
  "base62_encode num =
     (if num < 0 then Inl ValueError
      else if num = 0 then Inr [BASE62_ALPHABET ! 0]
      else Inr (rev (base62_digits (nat num))))"

definition from_bytes_big :: "string \<Rightarrow> nat" where
  "from_bytes_big bs = foldl (\<lambda>n b. n * 256 + code b) 0 bs"

definition generate_api_key :: "string \<Rightarrow> string \<Rightarrow> string res" where
  "generate_api_key pre raw = exc_bind (base62_encode (int (from_bytes_big raw))) (\<lambda>encoded. Inr (pre @ encoded))"

definition hash_api_key :: "(string \<Rightarrow> string) \<Rightarrow> string \<Rightarrow> string \<Rightarrow> string \<times> string" where
  "hash_api_key sha256 salt raw_key = (sha256 (salt @ raw_key), salt)"

definition verify_api_key :: "(string \<Rightarrow> string) \<Rightarrow> string \<Rightarrow> string \<Rightarrow> string \<Rightarrow> bool" where
  "verify_api_key sha256 raw_key stored_hash salt \<longleftrightarrow> sha256 (salt @ raw_key) = stored_hash"

definition compute_lookup_hash :: "(string \<Rightarrow> string) \<Rightarrow> string \<Rightarrow> string" where
  "compute_lookup_hash sha256 raw_key = sha256 raw_key"

section \<open>The table\<close>

record api_key_row =
  ak_id :: uuid
  ak_organization_id :: uuid
  ak_project_id :: uuid
  ak_created_by :: "uuid option"
  ak_lookup_hash :: string
  ak_key_hash :: string
  ak_salt :: string
  ak_prefix :: string
  ak_name :: "string option"
  ak_permissions :: "string list"
  ak_last_used_at :: "datetime option"
  ak_expires_at :: "datetime option"
  ak_is_revoked :: bool
  ak_created_at :: datetime

definition api_key_create ::
  "uuid \<Rightarrow> datetime \<Rightarrow> uuid \<Rightarrow> string \<Rightarrow> string \<Rightarrow> string \<Rightarrow> string \<Rightarrow> string \<Rightarrow> string list \<Rightarrow> uuid \<Rightarrow> uuid option
   \<Rightarrow> api_key_row list \<Rightarrow> (api_key_row \<times> api_key_row list) res" where
  "api_key_create new_id now org lookup_hash key_hash salt pre name permissions proj created_by keys =
     (if new_id \<in> ak_id ` set keys \<or> lookup_hash \<in> ak_lookup_hash ` set keys \<or> pre \<notin> {''oz_live_'', ''oz_test_''} then Inl IntegrityError
      else let row = \<lparr>ak_id = new_id, ak_organization_id = org, ak_project_id = proj, ak_created_by = created_by,
             ak_lookup_hash = lookup_hash, ak_key_hash = key_hash, ak_salt = salt, ak_prefix = pre, ak_name = Some name,
             ak_permissions = (if permissions = [] then [''project:read'', ''project:write''] else permissions),
             ak_last_used_at = None, ak_expires_at = None, ak_is_revoked = False, ak_created_at = now\<rparr>
           in Inr (row, keys @ [row]))"

definition key_in_scope :: "uuid \<Rightarrow> uuid \<Rightarrow> uuid option \<Rightarrow> api_key_row \<Rightarrow> bool" where
  "key_in_scope org key_id proj k \<longleftrightarrow> ak_id k = key_id \<and> ak_organization_id k = org \<and> (case proj of None \<Rightarrow> True | Some p \<Rightarrow> ak_project_id k = p)"

definition api_key_by_id :: "uuid \<Rightarrow> uuid \<Rightarrow> uuid option \<Rightarrow> api_key_row list \<Rightarrow> api_key_row option" where
  "api_key_by_id org key_id proj keys = List.find (key_in_scope org key_id proj) keys"

definition api_key_revoke :: "uuid \<Rightarrow> uuid \<Rightarrow> uuid option \<Rightarrow> api_key_row list \<Rightarrow> api_key_row option \<times> api_key_row list" where
  "api_key_revoke org key_id proj keys =
     (case api_key_by_id org key_id proj keys of
        None \<Rightarrow> (None, keys)
      | Some k \<Rightarrow> (Some (k\<lparr>ak_is_revoked := True\<rparr>),
          map (\<lambda>x. if key_in_scope org key_id proj x then x\<lparr>ak_is_revoked := True\<rparr> else x) keys))"

definition get_by_lookup_hash :: "string \<Rightarrow> api_key_row list \<Rightarrow> api_key_row option" where
  "get_by_lookup_hash lookup_hash keys = List.find (\<lambda>k. ak_lookup_hash k = lookup_hash \<and> \<not> ak_is_revoked k) keys"

definition API_KEY_SORTABLE_COLUMNS :: "string \<rightharpoonup> string" where
  "API_KEY_SORTABLE_COLUMNS = map_of [(''name'', ''name''), (''created_at'', ''created_at''), (''last_used_at'', ''last_used_at'')]"

definition api_key_col :: "api_key_row \<Rightarrow> string \<Rightarrow> sval" where
  "api_key_col k c =
     (if c = ''name'' then (case ak_name k of Some n \<Rightarrow> SStr n | None \<Rightarrow> SNull)
      else if c = ''created_at'' then SInt (ak_created_at k)
      else if c = ''last_used_at'' then (case ak_last_used_at k of Some t \<Rightarrow> SInt t | None \<Rightarrow> SNull)
      else SInt (int (ak_id k)))"

definition list_by_org :: "uuid \<Rightarrow> bool \<Rightarrow> uuid option \<Rightarrow> sort_spec option \<Rightarrow> api_key_row list \<Rightarrow> api_key_row list res" where
  "list_by_org org include_revoked proj srt keys =
     (case effective (case srt of Some sp \<Rightarrow> sp | None \<Rightarrow> default_sort_spec) ''created_at'' ''desc'' of (req_sort, req_dir) \<Rightarrow>
        exc_bind (resolve_order_by API_KEY_SORTABLE_COLUMNS ''id'' (Some req_sort) req_dir ''created_at'' ''desc'') (\<lambda>ks.
          Inr (order_rows api_key_col ks (filter (\<lambda>k. ak_organization_id k = org
            \<and> (case proj of None \<Rightarrow> True | Some p \<Rightarrow> ak_project_id k = p) \<and> (include_revoked \<or> \<not> ak_is_revoked k)) keys))))"

definition LAST_USED_WRITE_INTERVAL :: int where "LAST_USED_WRITE_INTERVAL = 5 * 60 * 1000000"

definition update_last_used :: "datetime \<Rightarrow> uuid \<Rightarrow> api_key_row list \<Rightarrow> api_key_row list" where
  "update_last_used now key_id keys =
     map (\<lambda>k. if ak_id k = key_id \<and> (case ak_last_used_at k of None \<Rightarrow> True | Some t \<Rightarrow> t < now - LAST_USED_WRITE_INTERVAL)
             then k\<lparr>ak_last_used_at := Some now\<rparr> else k) keys"

section \<open>The cached entry\<close>

text \<open>The entry of a key, with its expiry as ISO text; the ids are the UUIDs of the texts stored.\<close>

record key_cache =
  kc_org_id :: uuid
  kc_permissions :: "string list"
  kc_project_id :: "uuid option"
  kc_created_by :: "uuid option"
  kc_api_key_id :: uuid
  kc_expires_at :: "string option"

text \<open>The claims of a verified token; an empty text is an absent claim.\<close>

record jwt_payload =
  jp_sub :: "uuid option"
  jp_org_id :: "uuid option"
  jp_role :: "string option"
  jp_type :: "string option"
  jp_mcp :: bool

record key_env =
  ke_sha256 :: "string \<Rightarrow> string"
  ke_dumps :: "key_cache \<Rightarrow> string"
  ke_loads :: "string \<Rightarrow> key_cache res"
  ke_iso :: "datetime \<Rightarrow> string"
  ke_from_iso :: "string \<Rightarrow> datetime res"
  ke_verify_jwt :: "string \<Rightarrow> jwt_payload res"

definition AUTH_CACHE_TTL :: nat where "AUTH_CACHE_TTL = 300"
definition AUTH_NEG_CACHE_TTL :: nat where "AUTH_NEG_CACHE_TTL = 60"
definition AUTH_MISS_RATE_LIMIT :: int where "AUTH_MISS_RATE_LIMIT = 10"
definition AUTH_MISS_RATE_WINDOW :: nat where "AUTH_MISS_RATE_WINDOW = 60"

definition auth_cache_key :: "string \<Rightarrow> string" where
  "auth_cache_key lookup_hash = ''auth:key:'' @ lookup_hash"

definition auth_neg_cache_key :: "string \<Rightarrow> string" where
  "auth_neg_cache_key lookup_hash = ''auth:neg:'' @ lookup_hash"

definition auth_miss_key :: "string \<Rightarrow> string" where
  "auth_miss_key client_ip = ''auth:miss_ip:'' @ client_ip"

definition decode_key_cache :: "key_env \<Rightarrow> rval \<Rightarrow> key_cache res" where
  "decode_key_cache E v = exc_bind (rval_text v) (ke_loads E)"

definition cache_of :: "key_env \<Rightarrow> api_key_row \<Rightarrow> key_cache" where
  "cache_of E k = \<lparr>kc_org_id = ak_organization_id k, kc_permissions = ak_permissions k, kc_project_id = Some (ak_project_id k),
     kc_created_by = ak_created_by k, kc_api_key_id = ak_id k, kc_expires_at = map_option (ke_iso E) (ak_expires_at k)\<rparr>"

definition lookup_key_in_redis :: "key_env \<Rightarrow> 's redis \<Rightarrow> string \<Rightarrow> ('s, key_cache option) sx" where
  "lookup_key_in_redis E R lookup_hash =
     sx_bind (redis_get R (auth_cache_key lookup_hash)) (\<lambda>cached.
       case cached of
         None \<Rightarrow> sx_return None
       | Some v \<Rightarrow>
           (case decode_key_cache E v of
              Inr c \<Rightarrow> sx_return (Some c)
            | Inl _ \<Rightarrow> sx_bind (redis_delete R [auth_cache_key lookup_hash]) (\<lambda>_. sx_return None)))"

definition is_cached_key_expired :: "key_env \<Rightarrow> datetime \<Rightarrow> key_cache \<Rightarrow> bool" where
  "is_cached_key_expired E now c =
     (case kc_expires_at c of
        None \<Rightarrow> False
      | Some raw \<Rightarrow> (case ke_from_iso E raw of Inl _ \<Rightarrow> True | Inr expires \<Rightarrow> expires < now))"

definition check_auth_miss_rate_limit :: "'s redis \<Rightarrow> string \<Rightarrow> ('s, unit) sx" where
  "check_auth_miss_rate_limit R client_ip =
     (let key = auth_miss_key client_ip in
      sx_bind (redis_incr R key) (\<lambda>count.
      sx_bind (if count = 1 then sx_bind (redis_expire R key AUTH_MISS_RATE_WINDOW) (\<lambda>_. sx_return ()) else sx_return ()) (\<lambda>_.
      if count > AUTH_MISS_RATE_LIMIT then sx_raise RateLimitError else sx_return ())))"

section \<open>The middleware\<close>

record http_request =
  hr_method :: string
  hr_path :: string
  hr_authorization :: "string option"
  hr_client :: "string option"

datatype auth_reply = Forward auth_scope | Reject nat

definition empty_scope :: auth_scope where
  "empty_scope = \<lparr>sc_auth_type = None, sc_org_id = None, sc_user_id = None, sc_role = None, sc_api_key_permissions = [],
     sc_api_key_project_id = None, sc_api_key_id = None\<rparr>"

definition PUBLIC_ENDPOINTS :: "string list" where
  "PUBLIC_ENDPOINTS = [''/health'', ''/ready'', ''/docs'', ''/openapi.json'', ''/redoc'', ''/admin/org/config/defaults'',
     ''/v1/auth/signup'', ''/v1/auth/join'', ''/v1/auth/login'', ''/v1/auth/refresh'', ''/v1/auth/verify-email'',
     ''/v1/auth/resend-otp'', ''/v1/auth/forgot-password'', ''/v1/auth/reset-password'', ''/v1/auth/login/otp/send'',
     ''/v1/auth/login/otp/verify'', ''/v1/auth/mfa/verify'', ''/v1/auth/registration-status'', ''/v1/auth/invites'']"

definition PUBLIC_PATH_PREFIXES :: "string list" where
  "PUBLIC_PATH_PREFIXES = [''/docs'', ''/v1/auth/invites'']"

definition API_KEY_PREFIXES :: "string list" where
  "API_KEY_PREFIXES = [''oz_live_'', ''oz_test_'']"

definition starts_with :: "string \<Rightarrow> string \<Rightarrow> bool" where
  "starts_with pre s \<longleftrightarrow> take (length pre) s = pre"

definition is_public_path :: "string \<Rightarrow> bool" where
  "is_public_path path \<longleftrightarrow> path \<in> set PUBLIC_ENDPOINTS \<or> list_ex (\<lambda>pre. starts_with (pre @ ''/'') path) PUBLIC_PATH_PREFIXES"

definition is_jwt_token :: "string \<Rightarrow> bool" where
  "is_jwt_token token \<longleftrightarrow> count_list token CHR ''.'' = 2"

definition verify_jwt_and_set_state :: "key_env \<Rightarrow> string \<Rightarrow> string \<Rightarrow> string \<Rightarrow> auth_reply" where
  "verify_jwt_and_set_state E path method token =
     (case ke_verify_jwt E token of
        Inl _ \<Rightarrow> Reject 401
      | Inr payload \<Rightarrow>
          if jp_type payload \<noteq> Some ''access'' then Reject 401
          else (case (jp_sub payload, jp_org_id payload) of
                  (Some uid, Some org) \<Rightarrow>
                    if jp_mcp payload \<and> (method, path) \<notin> set MUST_CHANGE_PASSWORD_EXEMPT_PATHS then Reject 403
                    else Forward (empty_scope\<lparr>sc_auth_type := Some ''jwt'', sc_org_id := Some org, sc_user_id := Some uid,
                           sc_role := Some (case jp_role payload of Some r \<Rightarrow> r | None \<Rightarrow> ''member'')\<rparr>)
                | _ \<Rightarrow> Reject 401))"

definition key_scope :: "key_cache \<Rightarrow> auth_scope" where
  "key_scope c = empty_scope\<lparr>sc_auth_type := Some ''api_key'', sc_org_id := Some (kc_org_id c), sc_user_id := kc_created_by c,
     sc_api_key_permissions := kc_permissions c, sc_api_key_project_id := kc_project_id c, sc_api_key_id := Some (kc_api_key_id c)\<rparr>"

text \<open>\<^verbatim>\<open>except RedisError\<close>: the request is refused; any other exception passes.\<close>

definition refuse :: "exn \<Rightarrow> auth_reply res" where
  "refuse e = (if e = RedisError then Inr (Reject 503) else Inl e)"

text \<open>
  The three stages in front of the database; \<open>Inr None\<close> goes on.
\<close>

definition try_cache :: "key_env \<Rightarrow> 's redis \<Rightarrow> datetime \<Rightarrow> string \<Rightarrow> ('s, auth_reply option) sx" where
  "try_cache E R now lookup_hash =
     sx_catch
       (sx_bind (lookup_key_in_redis E R lookup_hash) (\<lambda>cached.
          case cached of
            None \<Rightarrow> sx_return None
          | Some c \<Rightarrow>
              if is_cached_key_expired E now c
              then sx_bind (redis_delete R [auth_cache_key lookup_hash]) (\<lambda>_. sx_return (Some (Reject 401)))
              else sx_return (Some (Forward (key_scope c)))))
       (\<lambda>e s. (exc_bind (refuse e) (\<lambda>r. Inr (Some r)), s))"

definition try_negative :: "'s redis \<Rightarrow> string \<Rightarrow> ('s, auth_reply option) sx" where
  "try_negative R lookup_hash =
     sx_catch (sx_bind (redis_exists R (auth_neg_cache_key lookup_hash)) (\<lambda>there. sx_return (if there then Some (Reject 401) else None)))
       (\<lambda>e s. (exc_bind (refuse e) (\<lambda>r. Inr (Some r)), s))"

definition try_miss_rate :: "'s redis \<Rightarrow> string \<Rightarrow> ('s, auth_reply option) sx" where
  "try_miss_rate R client_ip =
     sx_catch (sx_bind (check_auth_miss_rate_limit R client_ip) (\<lambda>_. sx_return None))
       (\<lambda>e s. (if e = RateLimitError then Inr (Some (Reject 429)) else exc_bind (refuse e) (\<lambda>r. Inr (Some r)), s))"

definition first_reply :: "('s, auth_reply option) sx \<Rightarrow> ('s, auth_reply option) sx \<Rightarrow> ('s, auth_reply option) sx" where
  "first_reply m n = sx_bind m (\<lambda>r. case r of Some x \<Rightarrow> sx_return (Some x) | None \<Rightarrow> n)"

definition before_db :: "key_env \<Rightarrow> 's redis option \<Rightarrow> datetime \<Rightarrow> string \<Rightarrow> string \<Rightarrow> ('s, auth_reply option) sx" where
  "before_db E redis now lookup_hash client_ip =
     (case redis of
        None \<Rightarrow> sx_return None
      | Some R \<Rightarrow> first_reply (try_cache E R now lookup_hash) (first_reply (try_negative R lookup_hash) (try_miss_rate R client_ip)))"

text \<open>A write to Redis whose \<^verbatim>\<open>RedisError\<close> is ignored.\<close>

definition best_effort :: "'s redis option \<Rightarrow> ('s redis \<Rightarrow> ('s, unit) sx) \<Rightarrow> ('s, unit) sx" where
  "best_effort redis m =
     (case redis of None \<Rightarrow> sx_return () | Some R \<Rightarrow> sx_catch (m R) (\<lambda>e s. (if e = RedisError then Inr () else Inl e, s)))"

record 's key_state =
  ks_redis :: 's
  ks_keys :: "api_key_row list"

text \<open>The database factory: absent, or up or down; and whether the write of \<^verbatim>\<open>last_used_at\<close> succeeds.\<close>

record db_status =
  ds_factory :: "bool option"
  ds_write :: bool

definition authenticate_key ::
  "key_env \<Rightarrow> 's redis option \<Rightarrow> db_status \<Rightarrow> datetime \<Rightarrow> string \<Rightarrow> string \<Rightarrow> ('s key_state, auth_reply) sx" where
  "authenticate_key E redis D now client_ip raw_key st =
     (let h = compute_lookup_hash (ke_sha256 E) raw_key in
      case before_db E redis now h client_ip (ks_redis st) of
        (Inl e, s) \<Rightarrow> (Inl e, st\<lparr>ks_redis := s\<rparr>)
      | (Inr (Some reply), s) \<Rightarrow> (Inr reply, st\<lparr>ks_redis := s\<rparr>)
      | (Inr None, s) \<Rightarrow>
          if ds_factory D \<noteq> Some True then (Inr (Reject 500), st\<lparr>ks_redis := s\<rparr>)
          else (case get_by_lookup_hash h (ks_keys st) of
            None \<Rightarrow>
              (case best_effort redis (\<lambda>R. redis_setex R (auth_neg_cache_key h) AUTH_NEG_CACHE_TTL (Txt ''1'')) s of
                 (r, t) \<Rightarrow> (exc_bind r (\<lambda>_. Inr (Reject 401)), st\<lparr>ks_redis := t\<rparr>))
          | Some k \<Rightarrow>
              if \<not> verify_api_key (ke_sha256 E) raw_key (ak_key_hash k) (ak_salt k) then (Inr (Reject 401), st\<lparr>ks_redis := s\<rparr>)
              else if ak_is_revoked k then (Inr (Reject 401), st\<lparr>ks_redis := s\<rparr>)
              else if (case ak_expires_at k of None \<Rightarrow> False | Some expires \<Rightarrow> expires < now) then (Inr (Reject 401), st\<lparr>ks_redis := s\<rparr>)
              else (let keys = (if ds_write D then update_last_used now (ak_id k) (ks_keys st) else ks_keys st) in
                    case best_effort redis (\<lambda>R. redis_setex R (auth_cache_key h) AUTH_CACHE_TTL (Txt (ke_dumps E (cache_of E k)))) s of
                      (r, t) \<Rightarrow> (exc_bind r (\<lambda>_. Inr (Forward (key_scope (cache_of E k)))), st\<lparr>ks_redis := t, ks_keys := keys\<rparr>))))"

text \<open>
  The message of an unknown scheme quotes the first word of the header, which a blank header does not have.
\<close>

definition auth_middleware ::
  "key_env \<Rightarrow> 's redis option \<Rightarrow> db_status \<Rightarrow> datetime \<Rightarrow> http_request \<Rightarrow> ('s key_state, auth_reply) sx" where
  "auth_middleware E redis D now rq st =
     (if hr_method rq = ''OPTIONS'' \<or> hr_path rq = ''/metrics'' \<or> is_public_path (hr_path rq) then (Inr (Forward empty_scope), st)
      else case hr_authorization rq of
        None \<Rightarrow> (Inr (Reject 401), st)
      | Some auth_header \<Rightarrow>
          if \<not> starts_with ''Bearer'' auth_header
          then (if CHR '' '' \<in> set auth_header \<and> py_strip auth_header = [] then Inl IndexError else Inr (Reject 401), st)
          else (let raw_key = py_strip (drop 6 auth_header) in
            if raw_key = [] then (Inr (Reject 401), st)
            else if \<not> list_ex (\<lambda>pre. starts_with pre raw_key) API_KEY_PREFIXES \<and> is_jwt_token raw_key
            then (Inr (verify_jwt_and_set_state E (hr_path rq) (hr_method rq) raw_key), st)
            else authenticate_key E redis D now (case hr_client rq of Some ip \<Rightarrow> ip | None \<Rightarrow> ''unknown'') raw_key st))"

section \<open>The service\<close>

record key_draw =
  kd_id :: uuid
  kd_bytes :: string
  kd_salt :: string

definition create_project_key ::
  "(string \<Rightarrow> string) \<Rightarrow> datetime \<Rightarrow> key_draw \<Rightarrow> uuid \<Rightarrow> uuid \<Rightarrow> string \<Rightarrow> string list \<Rightarrow> uuid option \<Rightarrow> string set option
   \<Rightarrow> api_key_row list \<Rightarrow> ((api_key_row \<times> string) \<times> api_key_row list) res" where
  "create_project_key sha256 now d org proj name permissions created_by actor_permissions keys =
     exc_bind (generate_api_key ''oz_live_'' (kd_bytes d)) (\<lambda>raw_key.
       let (key_hash, salt) = hash_api_key sha256 (kd_salt d) raw_key;
           lookup_hash = compute_lookup_hash sha256 raw_key;
           requested = filter (starts_with ''project:'') (if permissions = [] then [''project:read'', ''project:write''] else permissions);
           requested = (case (created_by, actor_permissions) of
             (Some _, Some actor) \<Rightarrow> sorted_list_of_set (set requested \<inter> actor)
           | _ \<Rightarrow> requested)
       in if requested = [] then Inl ValidationError
          else exc_bind (api_key_create (kd_id d) now org lookup_hash key_hash salt ''oz_live_'' name requested proj created_by keys)
            (\<lambda>(row, keys'). Inr ((row, raw_key), keys')))"

definition list_project_keys :: "uuid \<Rightarrow> uuid \<Rightarrow> sort_spec option \<Rightarrow> api_key_row list \<Rightarrow> api_key_row list res" where
  "list_project_keys org proj srt keys = list_by_org org False (Some proj) srt keys"

text \<open>The deletion of both entries; a failure is logged and ignored.\<close>

definition invalidate_auth_cache :: "'s redis option \<Rightarrow> api_key_row \<Rightarrow> 's \<Rightarrow> 's" where
  "invalidate_auth_cache redis k s =
     (case redis of
        None \<Rightarrow> s
      | Some R \<Rightarrow> snd (redis_delete R [auth_cache_key (ak_lookup_hash k), auth_neg_cache_key (ak_lookup_hash k)] s))"

text \<open>
  The request revokes the row in its transaction, deletes the entries and returns; its transaction is
  committed after it returned. The two effects are therefore two steps.
\<close>

definition revoke_project_key ::
  "'s redis option \<Rightarrow> uuid \<Rightarrow> uuid \<Rightarrow> uuid \<Rightarrow> api_key_row list \<Rightarrow> 's \<Rightarrow> (api_key_row option \<times> api_key_row list) \<times> 's" where
  "revoke_project_key redis org proj key_id keys s =
     (case api_key_revoke org key_id (Some proj) keys of
        (None, keys') \<Rightarrow> ((None, keys'), s)
      | (Some k, keys') \<Rightarrow> ((Some k, keys'), invalidate_auth_cache redis k s))"


section \<open>Traffic\<close>

text \<open>
  A trace: time passes, the table of keys changes (also by a commit), the entries of a key are deleted, and
  requests arrive. A request is recorded with its time and the history of the table.
\<close>

datatype key_event =
    Key_wait nat
  | Key_write "api_key_row list"
  | Key_forget string
  | Key_request http_request db_status datetime

fun key_run ::
  "key_env \<Rightarrow> 's redis \<Rightarrow> key_event list \<Rightarrow> 's \<Rightarrow> api_key_row list history
   \<Rightarrow> (http_request \<times> datetime \<times> api_key_row list history \<times> auth_reply res) list" where
  "key_run E R [] s h = []"
| "key_run E R (Key_wait n # es) s h = key_run E R es (redis_elapse R n s) (age n h)"
| "key_run E R (Key_write keys # es) s h = key_run E R es s ((0, keys) # h)"
| "key_run E R (Key_forget lh # es) s h = key_run E R es (snd (redis_delete R [auth_cache_key lh, auth_neg_cache_key lh] s)) h"
| "key_run E R (Key_request rq D now # es) s h =
     (case auth_middleware E (Some R) D now rq \<lparr>ks_redis = s, ks_keys = snd (hd h)\<rparr> of
        (r, st) \<Rightarrow> (rq, now, h, r) # key_run E R es (ks_redis st) ((0, ks_keys st) # h))"

definition presented :: "http_request \<Rightarrow> string" where
  "presented rq = (case hr_authorization rq of Some auth_header \<Rightarrow> py_strip (drop 6 auth_header) | None \<Rightarrow> [])"

locale key_server = cache_server R view for R :: "'s redis" and view +
  fixes E :: key_env
  assumes loads_dumps: "ke_loads E (ke_dumps E c) = Inr c"
    and from_iso_iso: "ke_from_iso E (ke_iso E t) = Inr t"

sublocale key_server \<subseteq> entries: cache_aside R view "auth_cache_key lh" AUTH_CACHE_TTL "decode_key_cache E" "\<lambda>c. Txt (ke_dumps E c)"
    "\<lambda>keys. map_option (cache_of E) (get_by_lookup_hash lh keys)" for lh
  by unfold_locales (auto simp: AUTH_CACHE_TTL_def decode_key_cache_def loads_dumps)

text \<open>A codec of entries: a list of words, with numbers in unary.\<close>

definition word_opt :: "nat option \<Rightarrow> string" where
  "word_opt x = (case x of None \<Rightarrow> ''-'' | Some n \<Rightarrow> replicate n CHR ''x'')"

definition opt_word :: "string \<Rightarrow> nat option" where
  "opt_word w = (if w = ''-'' then None else Some (length w))"

lemma opt_word_opt: "opt_word (word_opt x) = x"
  by (cases x; cases "the x") (auto simp: opt_word_def word_opt_def)

definition key_words :: "key_cache \<Rightarrow> string list" where
  "key_words c = [replicate (kc_org_id c) CHR ''x'', word_opt (kc_project_id c), word_opt (kc_created_by c),
     replicate (kc_api_key_id c) CHR ''x'', (case kc_expires_at c of None \<Rightarrow> [] | Some e \<Rightarrow> CHR ''t'' # e)] @ kc_permissions c"

definition words_key :: "string list \<Rightarrow> key_cache res" where
  "words_key ws = (case ws of
     a # b # c # d # e # ps \<Rightarrow> Inr \<lparr>kc_org_id = length a, kc_permissions = ps, kc_project_id = opt_word b, kc_created_by = opt_word c,
       kc_api_key_id = length d, kc_expires_at = (if e = [] then None else Some (tl e))\<rparr>
   | _ \<Rightarrow> Inl ValueError)"

definition iso_unary :: "datetime \<Rightarrow> string" where
  "iso_unary t = (if t < 0 then CHR ''-'' else CHR ''+'') # replicate (nat \<bar>t\<bar>) CHR ''x''"

definition unary_iso :: "string \<Rightarrow> datetime res" where
  "unary_iso w = Inr (if hd w = CHR ''-'' then - int (length (tl w)) else int (length (tl w)))"

definition sample_keys :: key_env where
  "sample_keys = \<lparr>ke_sha256 = (\<lambda>s. s), ke_dumps = (\<lambda>c. jc_dumps sample_json (key_words c)),
     ke_loads = (\<lambda>s. exc_bind (jc_loads sample_json s) words_key), ke_iso = iso_unary, ke_from_iso = unary_iso,
     ke_verify_jwt = (\<lambda>token. Inl ValueError)\<rparr>"

lemma sample_keys_laws:
  "ke_loads sample_keys (ke_dumps sample_keys c) = Inr c" "ke_from_iso sample_keys (ke_iso sample_keys t) = Inr t"
  by (cases c, cases "kc_expires_at c")
    (auto simp: sample_keys_def sample_json_law words_key_def key_words_def opt_word_opt unary_iso_def iso_unary_def)

interpretation faulty_keys: key_server faulty_redis fst sample_keys
  by unfold_locales (rule sample_keys_laws)+

interpretation mem_keys: key_server mem_redis "\<lambda>s. s" sample_keys
  by unfold_locales (rule sample_keys_laws)+

lemma key_names_differ [simp]:
  "auth_cache_key a = auth_cache_key b \<longleftrightarrow> a = b" "auth_cache_key a \<noteq> auth_neg_cache_key b" "auth_neg_cache_key b \<noteq> auth_cache_key a"
  "auth_cache_key a \<noteq> auth_miss_key b" "auth_miss_key b \<noteq> auth_cache_key a"
  by (simp_all add: auth_cache_key_def auth_neg_cache_key_def auth_miss_key_def)

text \<open>A key whose entry in the history of the table backs a request.\<close>

definition backed :: "key_env \<Rightarrow> api_key_row list history \<Rightarrow> datetime \<Rightarrow> string \<Rightarrow> auth_scope \<Rightarrow> bool" where
  "backed E h now raw_key sc \<longleftrightarrow> (\<exists>a keys k. (a, keys) \<in> set h \<and> a < 300000
     \<and> get_by_lookup_hash (compute_lookup_hash (ke_sha256 E) raw_key) keys = Some k \<and> sc = key_scope (cache_of E k)
     \<and> (case ak_expires_at k of None \<Rightarrow> True | Some expires \<Rightarrow> now \<le> expires))"

lemma first_reply_cases:
  assumes "first_reply m n s = (r, t)"
  obtains "m s = (r, t)" "r \<noteq> Inr None" | u where "m s = (Inr None, u)" "n u = (r, t)"
  using assms by (auto simp: first_reply_def sx_bind_def sx_return_def split: prod.splits sum.splits option.splits)

context key_server
begin

lemma expired_iff: "is_cached_key_expired E now (cache_of E k) \<longleftrightarrow> (case ak_expires_at k of None \<Rightarrow> False | Some t \<Rightarrow> t < now)"
  by (simp add: is_cached_key_expired_def cache_of_def from_iso_iso split: option.split)

lemma start_ok: "view s (auth_cache_key lh) = None \<Longrightarrow> entries.entry_ok lh h s"
  by (rule entries.entry_ok_missing)

lemma key_entry_delete:
  assumes "entries.entry_ok lh h s" and "redis_delete R ks s = (r, t)"
  shows "entries.entry_ok lh h t"
  using entries.entry_ok_frame[OF assms(1), of t] delete_cases[OF assms(2)] by (auto simp: st_delete_def split: if_splits)

lemma try_cache_step:
  assumes "entries.entry_ok lh h s" and "try_cache E R now lh' s = (r, t)"
  shows "entries.entry_ok lh h t \<and> (\<forall>sc. lh' = lh \<longrightarrow> r = Inr (Some (Forward sc)) \<longrightarrow>
    (\<exists>a keys k. (a, keys) \<in> set h \<and> a < 300000 \<and> get_by_lookup_hash lh keys = Some k \<and> sc = key_scope (cache_of E k)
      \<and> (case ak_expires_at k of None \<Rightarrow> True | Some expires \<Rightarrow> now \<le> expires)))"
proof -
  obtain g u where g: "redis_get R (auth_cache_key lh') s = (g, u)" by fastforce
  have u: "entries.entry_ok lh h u" using get_cases[OF g] entries.entry_ok_frame[OF assms(1), of u] by auto
  obtain q w where q: "redis_delete R [auth_cache_key lh'] u = (q, w)" by fastforce
  have w: "entries.entry_ok lh h w" by (rule key_entry_delete[OF u q])
  show ?thesis
  proof (cases "\<exists>c x. g = Inr (Some c) \<and> decode_key_cache E c = Inr x")
    case True
    then obtain c x where c: "g = Inr (Some c)" "decode_key_cache E c = Inr x" by blast
    have run: "try_cache E R now lh' s = (if is_cached_key_expired E now x
        then (case q of Inl e \<Rightarrow> (exc_bind (refuse e) (\<lambda>r. Inr (Some r)), w) | Inr _ \<Rightarrow> (Inr (Some (Reject 401)), w))
        else (Inr (Some (Forward (key_scope x))), u))"
      by (simp add: try_cache_def lookup_key_in_redis_def sx_catch_def sx_bind_def sx_return_def g c q split: sum.split)
    show ?thesis
    proof (cases "is_cached_key_expired E now x")
      case True
      then have "t = w \<and> (\<forall>sc. r \<noteq> Inr (Some (Forward sc)))" using assms(2) run by (auto simp: refuse_def split: sum.splits if_splits)
      then show ?thesis using w by simp
    next
      case False
      then have r: "r = Inr (Some (Forward (key_scope x)))" "t = u" using assms(2) run by auto
      have "\<exists>a keys k. (a, keys) \<in> set h \<and> a < 300000 \<and> get_by_lookup_hash lh keys = Some k \<and> x = cache_of E k" if "lh' = lh"
      proof -
        have gg: "redis_get R (auth_cache_key lh) s = (Inr (Some c), u)" using g c(1) that by simp
        obtain x' a d where "decode_key_cache E c = Inr x'" "a < 1000 * AUTH_CACHE_TTL" "(a, d) \<in> set h"
            "map_option (cache_of E) (get_by_lookup_hash lh d) = Some x'"
          using entries.hit_recent[OF assms(1) gg] by blast
        then show ?thesis using c(2) by (auto simp: AUTH_CACHE_TTL_def)
      qed
      then show ?thesis using r u False expired_iff by (fastforce split: option.splits)
    qed
  next
    case False
    then have "t \<in> {u, w} \<and> (\<forall>sc. r \<noteq> Inr (Some (Forward sc)))"
      using assms(2) by (auto simp: try_cache_def lookup_key_in_redis_def sx_catch_def sx_bind_def sx_return_def refuse_def g q
        split: sum.splits option.splits if_splits)
    then show ?thesis using u w by auto
  qed
qed


lemma try_negative_step:
  "entries.entry_ok lh h s \<Longrightarrow> try_negative R lh' s = (r, t) \<Longrightarrow> entries.entry_ok lh h t \<and> (\<forall>sc. r \<noteq> Inr (Some (Forward sc)))"
  by (cases "redis_exists R (auth_neg_cache_key lh') s")
    (auto simp: try_negative_def sx_catch_def sx_bind_def sx_return_def refuse_def split: sum.splits if_splits
      intro: entries.entry_ok_frame dest!: exists_view)

lemma try_miss_rate_step:
  assumes "entries.entry_ok lh h s" and "try_miss_rate R ip s = (r, t)"
  shows "entries.entry_ok lh h t \<and> (\<forall>sc. r \<noteq> Inr (Some (Forward sc)))"
proof -
  obtain i u where i: "redis_incr R (auth_miss_key ip) s = (i, u)" by fastforce
  have u: "entries.entry_ok lh h u" using incr_frame[OF i] entries.entry_ok_frame[OF assms(1), of u] by simp
  obtain b w where b: "redis_expire R (auth_miss_key ip) AUTH_MISS_RATE_WINDOW u = (b, w)" by fastforce
  have w: "entries.entry_ok lh h w" using expire_frame[OF b] entries.entry_ok_frame[OF u, of w] by simp
  have "t \<in> {u, w} \<and> (\<forall>sc. r \<noteq> Inr (Some (Forward sc)))"
    using assms(2) by (auto simp: try_miss_rate_def check_auth_miss_rate_limit_def Let_def sx_catch_def sx_bind_def sx_return_def sx_raise_def
        refuse_def i b split: sum.splits if_splits)
  then show ?thesis using u w by auto
qed

definition good :: "string \<Rightarrow> datetime \<Rightarrow> api_key_row list history \<Rightarrow> auth_scope \<Rightarrow> bool" where
  "good lh now h sc \<longleftrightarrow> (\<exists>a keys k. (a, keys) \<in> set h \<and> a < 300000 \<and> get_by_lookup_hash lh keys = Some k \<and> sc = key_scope (cache_of E k)
      \<and> (case ak_expires_at k of None \<Rightarrow> True | Some expires \<Rightarrow> now \<le> expires))"

lemma before_db_step:
  assumes "entries.entry_ok lh h s" and "before_db E (Some R) now lh' ip s = (r, t)"
  shows "entries.entry_ok lh h t \<and> (\<forall>sc. lh' = lh \<longrightarrow> r = Inr (Some (Forward sc)) \<longrightarrow> good lh now h sc)"
proof -
  have "first_reply (try_cache E R now lh') (first_reply (try_negative R lh') (try_miss_rate R ip)) s = (r, t)"
    using assms(2) by (simp add: before_db_def)
  then show ?thesis
  proof (cases rule: first_reply_cases)
    case 1
    then show ?thesis using try_cache_step[OF assms(1)] by (auto simp: good_def)
  next
    case (2 u)
    then have u: "entries.entry_ok lh h u" using try_cache_step[OF assms(1)] by blast
    show ?thesis using 2(2)
    proof (cases rule: first_reply_cases)
      case 1
      then show ?thesis using try_negative_step[OF u] by blast
    next
      case (2 v)
      then show ?thesis using try_negative_step[OF u] try_miss_rate_step by blast
    qed
  qed
qed

lemma authenticate_key_step:
  assumes "entries.entry_ok lh h (ks_redis st)" and "(0, ks_keys st) \<in> set h"
    and "authenticate_key E (Some R) D now ip raw_key st = (r, st')"
  shows "entries.entry_ok lh h (ks_redis st')
    \<and> (\<forall>sc. compute_lookup_hash (ke_sha256 E) raw_key = lh \<longrightarrow> r = Inr (Forward sc) \<longrightarrow> good lh now h sc)"
proof -
  define lh' where "lh' = compute_lookup_hash (ke_sha256 E) raw_key"
  obtain q s where q: "before_db E (Some R) now lh' ip (ks_redis st) = (q, s)" by fastforce
  note bs = before_db_step[OF assms(1) q]
  have run: "(r, st') = (case (q, s) of
        (Inl e, s) \<Rightarrow> (Inl e, st\<lparr>ks_redis := s\<rparr>)
      | (Inr (Some reply), s) \<Rightarrow> (Inr reply, st\<lparr>ks_redis := s\<rparr>)
      | (Inr None, s) \<Rightarrow>
          if ds_factory D \<noteq> Some True then (Inr (Reject 500), st\<lparr>ks_redis := s\<rparr>)
          else (case get_by_lookup_hash lh' (ks_keys st) of
            None \<Rightarrow>
              (case best_effort (Some R) (\<lambda>R. redis_setex R (auth_neg_cache_key lh') AUTH_NEG_CACHE_TTL (Txt ''1'')) s of
                 (r, t) \<Rightarrow> (exc_bind r (\<lambda>_. Inr (Reject 401)), st\<lparr>ks_redis := t\<rparr>))
          | Some k \<Rightarrow>
              if \<not> verify_api_key (ke_sha256 E) raw_key (ak_key_hash k) (ak_salt k) then (Inr (Reject 401), st\<lparr>ks_redis := s\<rparr>)
              else if ak_is_revoked k then (Inr (Reject 401), st\<lparr>ks_redis := s\<rparr>)
              else if (case ak_expires_at k of None \<Rightarrow> False | Some expires \<Rightarrow> expires < now) then (Inr (Reject 401), st\<lparr>ks_redis := s\<rparr>)
              else (let keys = (if ds_write D then update_last_used now (ak_id k) (ks_keys st) else ks_keys st) in
                    case best_effort (Some R) (\<lambda>R. redis_setex R (auth_cache_key lh') AUTH_CACHE_TTL (Txt (ke_dumps E (cache_of E k)))) s of
                      (r, t) \<Rightarrow> (exc_bind r (\<lambda>_. Inr (Forward (key_scope (cache_of E k)))), st\<lparr>ks_redis := t, ks_keys := keys\<rparr>))))"
    using assms(3) q unfolding authenticate_key_def Let_def lh'_def by simp
  show ?thesis
  proof (cases "q = Inr None \<and> ds_factory D = Some True")
    case False
    then show ?thesis using run bs by (auto simp: lh'_def split: sum.splits option.splits if_splits)
  next
    case True
    show ?thesis
    proof (cases "get_by_lookup_hash lh' (ks_keys st)")
      case None
      obtain b t where b: "redis_setex R (auth_neg_cache_key lh') AUTH_NEG_CACHE_TTL (Txt ''1'') s = (b, t)" by fastforce
      have "view t (auth_cache_key lh) = view s (auth_cache_key lh)"
        using setex_cases[OF b] by (auto simp: st_setex_def)
      then have "entries.entry_ok lh h t" using entries.entry_ok_frame[of lh h s t] bs by simp
      moreover have "(\<forall>sc. r \<noteq> Inr (Forward sc)) \<and> ks_redis st' = t"
        using run True None b by (auto simp: best_effort_def sx_catch_def split: sum.splits if_splits)
      ultimately show ?thesis by simp
    next
      case (Some k)
      show ?thesis
      proof (cases "\<not> verify_api_key (ke_sha256 E) raw_key (ak_key_hash k) (ak_salt k) \<or> ak_is_revoked k
          \<or> (case ak_expires_at k of None \<Rightarrow> False | Some expires \<Rightarrow> expires < now)")
        case bad: True
        then have "(\<forall>sc. r \<noteq> Inr (Forward sc)) \<and> ks_redis st' = s" using run True Some by (auto split: if_splits)
        then show ?thesis using bs by simp
      next
        case ok: False
        obtain b t where b: "redis_setex R (auth_cache_key lh') AUTH_CACHE_TTL (Txt (ke_dumps E (cache_of E k))) s = (b, t)" by fastforce
        have t: "entries.entry_ok lh h t"
        proof (cases "lh' = lh")
          case True
          show ?thesis using entries.put_ok[of lh h s "ks_keys st" "cache_of E k" b t] bs assms(2) Some b True by simp
        next
          case False
          then have "view t (auth_cache_key lh) = view s (auth_cache_key lh)" using setex_cases[OF b] by (auto simp: st_setex_def)
          then show ?thesis using entries.entry_ok_frame[of lh h s t] bs by simp
        qed
        have "ks_redis st' = t \<and> (\<forall>sc. r = Inr (Forward sc) \<longrightarrow> sc = key_scope (cache_of E k))"
          using run True Some ok b by (auto simp: best_effort_def sx_catch_def Let_def split: sum.splits if_splits)
        moreover have "good lh' now h (key_scope (cache_of E k))"
          unfolding good_def using assms(2) Some ok
          by (intro exI[of _ 0] exI[of _ "ks_keys st"] exI[of _ k]) (auto split: option.splits)
        ultimately show ?thesis using t by (auto simp: lh'_def)
      qed
    qed
  qed
qed

lemma middleware_step:
  assumes "entries.entry_ok lh h (ks_redis st)" and "(0, ks_keys st) \<in> set h"
    and "auth_middleware E (Some R) D now rq st = (r, st')"
  shows "entries.entry_ok lh h (ks_redis st') \<and> (\<forall>sc. r = Inr (Forward sc) \<longrightarrow> sc_auth_type sc = Some ''api_key''
    \<longrightarrow> compute_lookup_hash (ke_sha256 E) (presented rq) = lh \<longrightarrow> good lh now h sc)"
proof -
  have plain: "sc_auth_type empty_scope \<noteq> Some ''api_key''" by (simp add: empty_scope_def)
  have jwt: "sc_auth_type sc \<noteq> Some ''api_key''" if "verify_jwt_and_set_state E p m k = Forward sc" for p m k sc
    using that by (auto simp: verify_jwt_and_set_state_def split: sum.splits if_splits option.splits)
  show ?thesis
    using assms authenticate_key_step[OF assms(1,2), of D now _ "presented rq"] plain jwt
    unfolding auth_middleware_def presented_def
    by (auto simp: Let_def split: if_splits option.splits)
qed

lemma key_run_sound:
  assumes "entries.entry_ok lh h s" and "h \<noteq> []" and "fst (hd h) = 0"
    and "(rq, now, h', Inr (Forward sc)) \<in> set (key_run E R es s h)" and "sc_auth_type sc = Some ''api_key''"
    and "compute_lookup_hash (ke_sha256 E) (presented rq) = lh"
  shows "good lh now h' sc"
  using assms
proof (induction es arbitrary: s h)
  case Nil
  then show ?case by simp
next
  case (Cons e es)
  show ?case
  proof (cases e)
    case (Key_wait n)
    then show ?thesis using Cons.prems by (intro Cons.IH[OF entries.entry_ok_elapse[OF Cons.prems(1)]]) (auto simp: age_def)
  next
    case (Key_write keys)
    have "entries.entry_ok lh ((0, keys) # h) s" by (rule entries.entry_ok_mono[OF Cons.prems(1)]) auto
    then show ?thesis using Cons.prems Key_write by (intro Cons.IH) auto
  next
    case (Key_forget k)
    obtain q t where q: "redis_delete R [auth_cache_key k, auth_neg_cache_key k] s = (q, t)" by fastforce
    show ?thesis using Cons.prems Key_forget q by (intro Cons.IH[OF key_entry_delete[OF Cons.prems(1) q]]) auto
  next
    case (Key_request rq' D now')
    obtain r st where st: "auth_middleware E (Some R) D now' rq' \<lparr>ks_redis = s, ks_keys = snd (hd h)\<rparr> = (r, st)" by fastforce
    have cur: "(0, ks_keys \<lparr>ks_redis = s, ks_keys = snd (hd h)\<rparr>) \<in> set h" using Cons.prems(2,3) by (cases h) auto
    note step = middleware_step[OF _ cur st, of lh]
    have e: "entries.entry_ok lh ((0, ks_keys st) # h) (ks_redis st)"
      using step Cons.prems(1) entries.entry_ok_mono[of lh h "ks_redis st" "(0, ks_keys st) # h"] by auto
    show ?thesis
    proof (cases "(rq, now, h', Inr (Forward sc)) = (rq', now', h, r)")
      case True
      then show ?thesis using step Cons.prems by auto
    next
      case False
      then show ?thesis using Cons.prems Key_request st by (intro Cons.IH[OF e]) auto
    qed
  qed
qed

end


lemma scope_of_key: "sc_auth_type (key_scope c) = Some ''api_key''"
  by (simp add: key_scope_def)

lemma no_forward:
  "try_negative R lh s \<noteq> (Inr (Some (Forward sc)), t)" "try_miss_rate R ip s \<noteq> (Inr (Some (Forward sc)), t)"
  by (auto simp: try_negative_def try_miss_rate_def check_auth_miss_rate_limit_def Let_def refuse_def sx_catch_def sx_bind_def sx_return_def
      sx_raise_def split: prod.splits sum.splits if_splits)

lemma try_cache_scope:
  "try_cache E R now lh s = (Inr (Some (Forward sc)), t) \<Longrightarrow> sc_auth_type sc = Some ''api_key''"
  by (auto simp: try_cache_def lookup_key_in_redis_def refuse_def sx_catch_def sx_bind_def sx_return_def scope_of_key
      split: prod.splits sum.splits option.splits if_splits)

lemma before_db_scope:
  assumes "before_db E (Some R) now lh ip s = (Inr (Some (Forward sc)), t)"
  shows "sc_auth_type sc = Some ''api_key''"
proof -
  have "first_reply (try_cache E R now lh) (first_reply (try_negative R lh) (try_miss_rate R ip)) s = (Inr (Some (Forward sc)), t)"
    using assms by (simp add: before_db_def)
  then show ?thesis
    by (elim first_reply_cases) (simp_all add: try_cache_scope no_forward)
qed

lemma authenticate_key_scope:
  assumes "authenticate_key E (Some R) D now ip raw_key st = (Inr (Forward sc), st')"
  shows "sc_auth_type sc = Some ''api_key''"
proof (cases "before_db E (Some R) now (compute_lookup_hash (ke_sha256 E) raw_key) ip (ks_redis st)")
  case (Pair q s)
  then show ?thesis using assms before_db_scope[of E R now _ ip "ks_redis st" sc s]
    by (auto simp: authenticate_key_def Let_def scope_of_key exc_bind_Inr_iff
        split: sum.splits option.splits if_splits prod.splits)
qed

lemma forwarded:
  assumes "auth_middleware E (Some R) D now rq st = (Inr (Forward sc), st')" and "sc_auth_type sc \<noteq> Some ''api_key''"
  shows "if sc_auth_type sc = Some ''jwt''
    then \<exists>p. ke_verify_jwt E (presented rq) = Inr p \<and> jp_type p = Some ''access'' \<and> jp_org_id p = sc_org_id sc \<and> jp_sub p = sc_user_id sc
      \<and> sc_org_id sc \<noteq> None \<and> sc_user_id sc \<noteq> None \<and> (jp_mcp p \<longrightarrow> (hr_method rq, hr_path rq) \<in> set MUST_CHANGE_PASSWORD_EXEMPT_PATHS)
    else sc = empty_scope \<and> (hr_method rq = ''OPTIONS'' \<or> hr_path rq = ''/metrics'' \<or> is_public_path (hr_path rq))"
proof (cases "hr_method rq = ''OPTIONS'' \<or> hr_path rq = ''/metrics'' \<or> is_public_path (hr_path rq)")
  case True
  then show ?thesis using assms by (auto simp: auth_middleware_def empty_scope_def)
next
  case False
  have "verify_jwt_and_set_state E (hr_path rq) (hr_method rq) (presented rq) = Forward sc"
    using assms False authenticate_key_scope by (fastforce simp: auth_middleware_def presented_def Let_def split: option.splits if_splits)
  then show ?thesis by (auto simp: verify_jwt_and_set_state_def empty_scope_def split: sum.splits if_splits option.splits)
qed

lemma key_run_request:
  "(rq, now, h', r) \<in> set (key_run E R es s h) \<Longrightarrow> \<exists>D st st'. auth_middleware E (Some R) D now rq st = (r, st')"
  by (induction E R es s h rule: key_run.induct) (auto split: prod.splits, metis)

text \<open>
  C20: a request is let through only with credentials that hold. Whatever the order of requests, changes of
  the key table and deletions of cached entries, and whatever Redis commands fail: a request that is
  forwarded under an API key presented a key whose row was in the table, not revoked, less than 300 seconds
  ago and is not expired now, and it carries the organization, project and permissions of that row; one
  forwarded under a session presented a verified access token for that user and organization, past the
  password gate; one forwarded without identity went to a public path.
\<close>

theorem authentication_sound:
  assumes "key_server R view E" and "view s (auth_cache_key (compute_lookup_hash (ke_sha256 E) (presented rq))) = None"
    and "(rq, now, h, Inr (Forward sc)) \<in> set (key_run E R es s [(0, keys)])"
  shows "if sc_auth_type sc = Some ''api_key'' then backed E h now (presented rq) sc
    else if sc_auth_type sc = Some ''jwt''
    then \<exists>p. ke_verify_jwt E (presented rq) = Inr p \<and> jp_type p = Some ''access'' \<and> jp_org_id p = sc_org_id sc \<and> jp_sub p = sc_user_id sc
      \<and> sc_org_id sc \<noteq> None \<and> sc_user_id sc \<noteq> None \<and> (jp_mcp p \<longrightarrow> (hr_method rq, hr_path rq) \<in> set MUST_CHANGE_PASSWORD_EXEMPT_PATHS)
    else sc = empty_scope \<and> (hr_method rq = ''OPTIONS'' \<or> hr_path rq = ''/metrics'' \<or> is_public_path (hr_path rq))"
proof (cases "sc_auth_type sc = Some ''api_key''")
  case True
  have "key_server.good E (compute_lookup_hash (ke_sha256 E) (presented rq)) now h sc"
    by (rule key_server.key_run_sound[OF assms(1) _ _ _ assms(3) True refl])
      (simp_all add: assms(2) key_server.start_ok[OF assms(1)])
  then show ?thesis using True by (simp add: key_server.good_def[OF assms(1)] backed_def)
next
  case False
  obtain D st st' where "auth_middleware E (Some R) D now rq st = (Inr (Forward sc), st')" using key_run_request[OF assms(3)] by blast
  then show ?thesis using forwarded[of E R D now rq st sc st'] False by simp
qed

text \<open>
  C24: a revoked key is dead. After a key was revoked, its entries were deleted and the revocation was
  committed, with no request in between, no request that presents it is forwarded under it, as
  long as no row with its hash is made live again.
\<close>

theorem revoked_key_stays_dead:
  assumes "key_server R view E" and "revoke_project_key (Some R) org proj key_id keys s = ((Some k, keys'), s')"
    and "distinct (map ak_lookup_hash keys)"
    and "isl (fst (redis_delete R [auth_cache_key (ak_lookup_hash k), auth_neg_cache_key (ak_lookup_hash k)] s)) = False"
    and "(rq, now, h, Inr (Forward sc)) \<in> set (key_run E R es s' [(0, keys')])"
    and "\<And>a t. (a, t) \<in> set h \<Longrightarrow> t = keys' \<or> get_by_lookup_hash (ak_lookup_hash k) t = None"
    and "compute_lookup_hash (ke_sha256 E) (presented rq) = ak_lookup_hash k"
  shows "sc_auth_type sc \<noteq> Some ''api_key''"
proof
  assume key: "sc_auth_type sc = Some ''api_key''"
  obtain k0 where k0: "List.find (key_in_scope org key_id (Some proj)) keys = Some k0" "k = k0\<lparr>ak_is_revoked := True\<rparr>"
      "keys' = map (\<lambda>x. if key_in_scope org key_id (Some proj) x then x\<lparr>ak_is_revoked := True\<rparr> else x) keys"
      "s' = invalidate_auth_cache (Some R) k s"
    using assms(2) by (auto simp: revoke_project_key_def api_key_revoke_def api_key_by_id_def split: option.splits)
  then have m: "k0 \<in> set keys" "key_in_scope org key_id (Some proj) k0" by (auto simp: find_Some_iff)
  have dead: "get_by_lookup_hash (ak_lookup_hash k) keys' = None"
  proof -
    have "x = k0" if "x \<in> set keys" "ak_lookup_hash x = ak_lookup_hash k0" for x
      using that m(1) assms(3) by (auto simp: distinct_map dest: inj_onD)
    then show ?thesis using m k0(2,3) by (auto simp: get_by_lookup_hash_def find_None_iff)
  qed
  have "view s' (auth_cache_key (ak_lookup_hash k)) = None"
    using cache_server.delete_cases[OF key_server.axioms(1)[OF assms(1)], of _ s] assms(4) k0(4)
    by (cases "redis_delete R [auth_cache_key (ak_lookup_hash k), auth_neg_cache_key (ak_lookup_hash k)] s")
      (fastforce simp: invalidate_auth_cache_def st_delete_def)
  then have "view s' (auth_cache_key (compute_lookup_hash (ke_sha256 E) (presented rq))) = None" using assms(7) by simp
  then have "key_server.good E (ak_lookup_hash k) now h sc"
    by (intro key_server.key_run_sound[OF assms(1) _ _ _ assms(5) key assms(7)]) (simp_all add: assms(7) key_server.start_ok[OF assms(1)])
  then show False using assms(6) dead unfolding key_server.good_def[OF assms(1)] by fastforce
qed


section \<open>New keys\<close>

lemma alphabet: "distinct BASE62_ALPHABET \<and> length BASE62_ALPHABET = 62"
  by code_simp

lemma base62_digits_inj: "base62_digits m = base62_digits n \<Longrightarrow> m = n"
proof (induction m arbitrary: n rule: less_induct)
  case (less m)
  show ?case
  proof (cases "m = 0 \<or> n = 0")
    case True
    then show ?thesis using less.prems base62_digits.simps[of m] base62_digits.simps[of n] by (auto split: if_splits)
  next
    case False
    have "BASE62_ALPHABET ! (m mod 62) # base62_digits (m div 62) = BASE62_ALPHABET ! (n mod 62) # base62_digits (n div 62)"
      using less.prems False base62_digits.simps[of m] base62_digits.simps[of n] by simp
    then have eq: "BASE62_ALPHABET ! (m mod 62) = BASE62_ALPHABET ! (n mod 62)" "base62_digits (m div 62) = base62_digits (n div 62)" by auto
    have "m mod 62 = n mod 62" using eq(1) alphabet by (simp add: nth_eq_iff_index_eq)
    moreover have "m div 62 = n div 62" using less.IH[of "m div 62" "n div 62"] eq(2) False by simp
    ultimately show ?thesis by (metis div_mult_mod_eq)
  qed
qed

text \<open>Different random bytes make different keys.\<close>

lemma base62_encode_inj:
  assumes "base62_encode (int m) = base62_encode (int n)"
  shows "m = n"
proof (cases "m = 0 \<or> n = 0")
  case True
  have "base62_digits k \<noteq> [BASE62_ALPHABET ! 0]" if "k \<noteq> 0" for k
  proof
    assume *: "base62_digits k = [BASE62_ALPHABET ! 0]"
    then have "BASE62_ALPHABET ! (k mod 62) = BASE62_ALPHABET ! 0" "base62_digits (k div 62) = []"
      using that base62_digits.simps[of k] by auto
    then have "k mod 62 = 0" "k div 62 = 0"
      using alphabet base62_digits.simps[of "k div 62"] by (auto simp: nth_eq_iff_index_eq split: if_splits)
    then show False using that by (metis div_mult_mod_eq mult_zero_left add_0)
  qed
  then show ?thesis using True assms by (auto simp: base62_encode_def split: if_splits)
next
  case False
  then show ?thesis using assms base62_digits_inj by (simp add: base62_encode_def)
qed

text \<open>
  C26: a new key grants no more than its creator could. A key created by a user whose permissions are
  capped has at least one permission, only permissions on projects, and only ones of the creator; the
  raw key returned is the one the stored hashes verify, and a permission check on a request under
  the key passes only for what the creator had.
\<close>

theorem api_key_never_escalates:
  assumes "create_project_key (ke_sha256 E) now d org proj name permissions (Some creator) (Some actor) keys = Inr ((row, raw_key), keys')"
  shows "keys' = keys @ [row] \<and> ak_organization_id row = org \<and> ak_project_id row = proj \<and> ak_permissions row \<noteq> []
    \<and> list_all (starts_with ''project:'') (ak_permissions row) \<and> set (ak_permissions row) \<subseteq> actor
    \<and> get_by_lookup_hash (compute_lookup_hash (ke_sha256 E) raw_key) keys' = Some row
    \<and> verify_api_key (ke_sha256 E) raw_key (ak_key_hash row) (ak_salt row)
    \<and> (\<forall>A p s t. check_permission A (key_scope (cache_of E row)) org p s = (Inr (), t) \<longrightarrow> p \<in> actor)"
proof -
  define wanted where "wanted = set (filter (starts_with ''project:'') (if permissions = [] then [''project:read'', ''project:write''] else permissions))"
  define req where "req = sorted_list_of_set (wanted \<inter> actor)"
  have run: "create_project_key (ke_sha256 E) now d org proj name permissions (Some creator) (Some actor) keys
    = exc_bind (generate_api_key ''oz_live_'' (kd_bytes d)) (\<lambda>raw_key. if req = [] then Inl ValidationError
        else exc_bind (api_key_create (kd_id d) now org (ke_sha256 E raw_key) (ke_sha256 E (kd_salt d @ raw_key)) (kd_salt d) ''oz_live_'' name req proj
          (Some creator) keys) (\<lambda>(row, keys'). Inr ((row, raw_key), keys')))"
    unfolding create_project_key_def hash_api_key_def compute_lookup_hash_def Let_def req_def wanted_def
    by (simp only: prod.case option.case)
  have made: "api_key_create (kd_id d) now org (ke_sha256 E raw_key) (ke_sha256 E (kd_salt d @ raw_key)) (kd_salt d) ''oz_live_'' name req proj
      (Some creator) keys = Inr (row, keys')" and ne: "req \<noteq> []"
    using assms unfolding run by (auto simp: exc_bind_Inr_iff split: if_splits)
  have row: "keys' = keys @ [row]" "ak_organization_id row = org" "ak_project_id row = proj" "ak_permissions row = req"
    "ak_lookup_hash row = ke_sha256 E raw_key" "ke_sha256 E raw_key \<notin> ak_lookup_hash ` set keys" "\<not> ak_is_revoked row"
    "ak_key_hash row = ke_sha256 E (ak_salt row @ raw_key)"
    using made ne by (auto simp: api_key_create_def Let_def split: if_splits)
  have "set req = wanted \<inter> actor" by (simp add: req_def wanted_def)
  then have sub: "set (ak_permissions row) \<subseteq> actor" "list_all (starts_with ''project:'') (ak_permissions row)"
    by (auto simp: list_all_iff row(4) wanted_def split: if_splits)
  have "List.find (\<lambda>k. ak_lookup_hash k = ke_sha256 E raw_key \<and> \<not> ak_is_revoked k) (keys @ [row]) = Some row"
    using row(5-7) by (induction keys) auto
  moreover have "p \<in> actor" if "check_permission A (key_scope (cache_of E row)) org p s = (Inr (), t)" for A :: "'a app" and p s t
    using that sub(1) by (auto simp: check_permission_def key_scope_def cache_of_def split: if_splits)
  ultimately show ?thesis
    using row ne sub by (simp add: get_by_lookup_hash_def compute_lookup_hash_def verify_api_key_def)
qed

section \<open>The window of a revocation\<close>

definition key_request :: "http_request \<Rightarrow> bool" where
  "key_request rq \<longleftrightarrow> hr_method rq \<noteq> ''OPTIONS'' \<and> hr_path rq \<noteq> ''/metrics'' \<and> \<not> is_public_path (hr_path rq)
     \<and> (case hr_authorization rq of None \<Rightarrow> False | Some header \<Rightarrow> starts_with ''Bearer'' header) \<and> list_ex (\<lambda>pre. starts_with pre (presented rq)) API_KEY_PREFIXES"

lemma middleware_key:
  assumes "key_request rq"
  shows "auth_middleware E redis D now rq st
    = authenticate_key E redis D now (case hr_client rq of Some ip \<Rightarrow> ip | None \<Rightarrow> ''unknown'') (presented rq) st"
proof -
  have "presented rq \<noteq> []" using assms by (auto simp: key_request_def API_KEY_PREFIXES_def starts_with_def)
  then show ?thesis using assms by (auto simp: key_request_def auth_middleware_def presented_def Let_def split: option.splits)
qed

text \<open>
  C25: a request that slips in between revives a revoked key. The entries of a key are deleted before the
  revocation is committed. A request with the key that arrives in between is still authenticated by the
  database and cached, and requests are then forwarded under the revoked key for up to five minutes
  after the commit.
\<close>

theorem revocation_race:
  assumes "key_server mem_redis (\<lambda>s. s) E" and "key_request rq" and "ds_factory D = Some True"
    and "compute_lookup_hash (ke_sha256 E) (presented rq) = ak_lookup_hash k0" and "verify_api_key (ke_sha256 E) (presented rq) (ak_key_hash k0) (ak_salt k0)"
    and "\<not> ak_is_revoked k0" and "ak_expires_at k0 = None" and "get_by_lookup_hash (ak_lookup_hash k0) keys = Some k0"
    and "revoke_project_key (Some mem_redis) org proj key_id keys (\<lambda>_. None) = ((Some k, keys'), s)" and "ak_lookup_hash k = ak_lookup_hash k0"
    and "auth_middleware E (Some mem_redis) D now rq \<lparr>ks_redis = s, ks_keys = keys\<rparr> = (r, st)"
    and "n < 300000"
  shows "fst (auth_middleware E (Some mem_redis) D' now' rq \<lparr>ks_redis = redis_elapse mem_redis n (ks_redis st), ks_keys = keys'\<rparr>)
    = Inr (Forward (key_scope (cache_of E k0)))"
proof -
  have s: "s = (\<lambda>_. None)"
    using assms(9) by (auto simp: revoke_project_key_def invalidate_auth_cache_def st_delete_def split: prod.splits option.splits)
  have decode: "decode_key_cache E (Txt (ke_dumps E c)) = Inr c" for c
    by (simp add: decode_key_cache_def key_server.loads_dumps[OF assms(1)])
  have fresh: "\<not> is_cached_key_expired E t (cache_of E k0)" for t using assms(7) by (simp add: is_cached_key_expired_def cache_of_def)
  have "ks_redis st (auth_cache_key (ak_lookup_hash k0)) = Some (Txt (ke_dumps E (cache_of E k0)), Some 300000)"
    using assms(11) unfolding middleware_key[OF assms(2)] s
    by (auto simp: authenticate_key_def Let_def assms(3-8) before_db_def first_reply_def try_cache_def lookup_key_in_redis_def
        try_negative_def try_miss_rate_def check_auth_miss_rate_limit_def best_effort_def sx_catch_def sx_bind_def sx_return_def
        st_get_def st_exists_def st_add_def st_expire_def st_setex_def AUTH_MISS_RATE_LIMIT_def AUTH_MISS_RATE_WINDOW_def AUTH_CACHE_TTL_def)
  then have "redis_get mem_redis (auth_cache_key (ak_lookup_hash k0)) (redis_elapse mem_redis n (ks_redis st))
      = (Inr (Some (Txt (ke_dumps E (cache_of E k0)))), redis_elapse mem_redis n (ks_redis st))"
    using assms(12) by (simp add: st_get_def st_elapse_def)
  then show ?thesis unfolding middleware_key[OF assms(2)]
    by (simp add: authenticate_key_def Let_def assms(4) before_db_def first_reply_def try_cache_def lookup_key_in_redis_def
        sx_catch_def sx_bind_def sx_return_def decode fresh del: mem_redis_simps)
qed

text \<open>
  A key is used, its row vanishes without the deletion of its entry, and it is used again a second later:
  Redis still answers for it.
\<close>

definition sample_key :: api_key_row where
  "sample_key = \<lparr>ak_id = 3, ak_organization_id = 5, ak_project_id = 2, ak_created_by = Some 7, ak_lookup_hash = ''oz_live_a'',
     ak_key_hash = ''soz_live_a'', ak_salt = ''s'', ak_prefix = ''oz_live_'', ak_name = None, ak_permissions = [''project:read''],
     ak_last_used_at = None, ak_expires_at = None, ak_is_revoked = False, ak_created_at = 0\<rparr>"

definition sample_request :: http_request where
  "sample_request = \<lparr>hr_method = ''GET'', hr_path = ''/v1/facts'', hr_authorization = Some ''Bearer oz_live_a'', hr_client = None\<rparr>"

definition sample_traffic :: "key_event list" where
  "sample_traffic = [Key_request sample_request \<lparr>ds_factory = Some True, ds_write = False\<rparr> 0, Key_write [], Key_wait 1000,
     Key_request sample_request \<lparr>ds_factory = Some False, ds_write = False\<rparr> 1000000]"

lemma sample_presented [simp]: "presented sample_request = ''oz_live_a''"
  by code_simp

lemma sample_key_request: "key_request sample_request"
  by code_simp

lemma decode_sample [simp]: "decode_key_cache sample_keys (Txt (ke_dumps sample_keys c)) = Inr c"
  by (simp add: decode_key_cache_def sample_keys_laws)

lemma sample_hash [simp]: "compute_lookup_hash (ke_sha256 sample_keys) s = s"
  by (simp add: compute_lookup_hash_def sample_keys_def)

lemma sample_verify [simp]: "verify_api_key (ke_sha256 sample_keys) ''oz_live_a'' (ak_key_hash sample_key) (ak_salt sample_key)"
  by (simp add: verify_api_key_def sample_keys_def sample_key_def)

lemma sample_get [simp]: "get_by_lookup_hash ''oz_live_a'' [sample_key] = Some sample_key"
  by (simp add: get_by_lookup_hash_def sample_key_def)

lemma sample_live [simp]: "ak_expires_at sample_key = None" "\<not> ak_is_revoked sample_key" "ak_lookup_hash sample_key = ''oz_live_a''"
  "\<not> is_cached_key_expired sample_keys t (cache_of sample_keys sample_key)"
  by (simp_all add: sample_key_def is_cached_key_expired_def cache_of_def)

lemmas key_step_defs = authenticate_key_def Let_def before_db_def first_reply_def try_cache_def lookup_key_in_redis_def try_negative_def
  try_miss_rate_def check_auth_miss_rate_limit_def best_effort_def sx_catch_def sx_bind_def sx_return_def st_get_def st_exists_def
  st_add_def st_expire_def st_setex_def st_elapse_def AUTH_MISS_RATE_LIMIT_def AUTH_MISS_RATE_WINDOW_def AUTH_CACHE_TTL_def

lemma sample_key_run:
  "map (\<lambda>(rq, now, h, r). (rq, now, map fst h, r)) (key_run sample_keys faulty_redis sample_traffic (\<lambda>_. None, []) [(0, [sample_key])])
     = [(sample_request, 0, [0], Inr (Forward (key_scope (cache_of sample_keys sample_key)))),
        (sample_request, 1000000, [0, 1000, 1000, 1000], Inr (Forward (key_scope (cache_of sample_keys sample_key))))]"
  by (simp add: sample_traffic_def middleware_key[OF sample_key_request] key_step_defs faulty_def faulty_redis_def age_def)

theorem authentication_sound_witness:
  "\<exists>h. (sample_request, 1000000, h, Inr (Forward (key_scope (cache_of sample_keys sample_key))))
       \<in> set (key_run sample_keys faulty_redis sample_traffic (\<lambda>_. None, []) [(0, [sample_key])])
     \<and> map fst h = [0, 1000, 1000, 1000] \<and> backed sample_keys h 1000000 ''oz_live_a'' (key_scope (cache_of sample_keys sample_key))"
proof -
  let ?run = "key_run sample_keys faulty_redis sample_traffic (\<lambda>_. None, []) [(0, [sample_key])]"
  have "(sample_request, 1000000, [0, 1000, 1000, 1000], Inr (Forward (key_scope (cache_of sample_keys sample_key))))
      \<in> set (map (\<lambda>(rq, now, h, r). (rq, now, map fst h, r)) ?run)" unfolding sample_key_run by simp
  then obtain h where h: "(sample_request, 1000000, h, Inr (Forward (key_scope (cache_of sample_keys sample_key)))) \<in> set ?run"
      "map fst h = [0, 1000, 1000, 1000]" by auto
  then show ?thesis
    using authentication_sound[OF faulty_keys.key_server_axioms _ h(1)] by (auto simp: scope_of_key)
qed

text \<open>The key is revoked while it is cached; it is presented twice after the commit, the second time to a public path.\<close>

lemma sample_revoke:
  "revoke_project_key (Some R) 5 2 3 [sample_key] s
     = ((Some (sample_key\<lparr>ak_is_revoked := True\<rparr>), [sample_key\<lparr>ak_is_revoked := True\<rparr>]),
        snd (redis_delete R [''auth:key:oz_live_a'', ''auth:neg:oz_live_a''] s))"
  by (simp add: revoke_project_key_def api_key_revoke_def api_key_by_id_def key_in_scope_def sample_key_def invalidate_auth_cache_def
      auth_cache_key_def auth_neg_cache_key_def)

definition health_request :: http_request where
  "health_request = sample_request\<lparr>hr_path := ''/health''\<rparr>"

definition cached_store :: store where
  "cached_store = (\<lambda>_. Some (Txt (ke_dumps sample_keys (cache_of sample_keys sample_key)), Some 9))"

definition revoked_keys :: "api_key_row list" where
  "revoked_keys = [sample_key\<lparr>ak_is_revoked := True\<rparr>]"

lemma sample_health:
  "key_run sample_keys mem_redis [Key_request sample_request \<lparr>ds_factory = Some True, ds_write = True\<rparr> 5,
       Key_request health_request \<lparr>ds_factory = Some True, ds_write = True\<rparr> 6] s [(0, revoked_keys)]
     = [(sample_request, 5, [(0, revoked_keys)], fst (auth_middleware sample_keys (Some mem_redis) \<lparr>ds_factory = Some True, ds_write = True\<rparr> 5
            sample_request \<lparr>ks_redis = s, ks_keys = revoked_keys\<rparr>)),
        (health_request, 6, [(0, ks_keys (snd (auth_middleware sample_keys (Some mem_redis) \<lparr>ds_factory = Some True, ds_write = True\<rparr> 5
            sample_request \<lparr>ks_redis = s, ks_keys = revoked_keys\<rparr>))), (0, revoked_keys)], Inr (Forward empty_scope))]"
proof -
  have "is_public_path (hr_path health_request)" by code_simp
  then show ?thesis by (simp add: auth_middleware_def[of _ _ _ _ health_request] split: prod.split)
qed

theorem revoked_key_stays_dead_witness:
  "\<exists>h. (health_request, 6, h, Inr (Forward empty_scope)) \<in> set (key_run sample_keys mem_redis
        [Key_request sample_request \<lparr>ds_factory = Some True, ds_write = True\<rparr> 5, Key_request health_request \<lparr>ds_factory = Some True, ds_write = True\<rparr> 6]
        (snd (revoke_project_key (Some mem_redis) 5 2 3 [sample_key] cached_store)) [(0, revoked_keys)])
     \<and> sc_auth_type empty_scope \<noteq> Some ''api_key''"
proof -
  define s where "s = snd (redis_delete mem_redis [''auth:key:oz_live_a'', ''auth:neg:oz_live_a''] cached_store)"
  have none: "get_by_lookup_hash ''oz_live_a'' revoked_keys = None" by (simp add: get_by_lookup_hash_def revoked_keys_def sample_key_def)
  have keep: "ks_keys (snd (auth_middleware sample_keys (Some mem_redis) \<lparr>ds_factory = Some True, ds_write = True\<rparr> 5
      sample_request \<lparr>ks_redis = s, ks_keys = revoked_keys\<rparr>)) = revoked_keys"
    unfolding middleware_key[OF sample_key_request] by (simp add: authenticate_key_def Let_def none split: prod.split sum.split option.split)
  have rev: "revoke_project_key (Some mem_redis) 5 2 3 [sample_key] cached_store = ((Some (sample_key\<lparr>ak_is_revoked := True\<rparr>), revoked_keys), s)"
    unfolding sample_revoke by (simp add: revoked_keys_def s_def)
  have hp: "presented health_request = ''oz_live_a''" by code_simp
  have run: "(health_request, 6, [(0, revoked_keys), (0, revoked_keys)], Inr (Forward empty_scope)) \<in> set (key_run sample_keys mem_redis
      [Key_request sample_request \<lparr>ds_factory = Some True, ds_write = True\<rparr> 5, Key_request health_request \<lparr>ds_factory = Some True, ds_write = True\<rparr> 6]
      s [(0, revoked_keys)])"
    unfolding sample_health keep by simp
  have "sc_auth_type empty_scope \<noteq> Some ''api_key''"
    by (rule revoked_key_stays_dead[OF mem_keys.key_server_axioms rev _ _ run]) (simp_all add: st_delete_def hp)
  then show ?thesis using run unfolding rev by auto
qed

text \<open>
  The revocation deletes the entries, the key is used before the commit, and four minutes and fifty-nine
  seconds later it is still good.
\<close>

theorem revocation_race_witness:
  "fst (auth_middleware sample_keys (Some mem_redis) \<lparr>ds_factory = Some True, ds_write = False\<rparr> 299000000 sample_request
      \<lparr>ks_redis = redis_elapse mem_redis 299000 (ks_redis (snd (auth_middleware sample_keys (Some mem_redis)
           \<lparr>ds_factory = Some True, ds_write = False\<rparr> 0 sample_request
           \<lparr>ks_redis = snd (revoke_project_key (Some mem_redis) 5 2 3 [sample_key] (\<lambda>_. None)), ks_keys = [sample_key]\<rparr>))),
       ks_keys = snd (fst (revoke_project_key (Some mem_redis) 5 2 3 [sample_key] (\<lambda>_. None)))\<rparr>)
    = Inr (Forward (key_scope (cache_of sample_keys sample_key)))"
  by (rule revocation_race[OF mem_keys.key_server_axioms sample_key_request, where k = "sample_key\<lparr>ak_is_revoked := True\<rparr>" and keys = "[sample_key]"
        and r = "fst (auth_middleware sample_keys (Some mem_redis) \<lparr>ds_factory = Some True, ds_write = False\<rparr> 0 sample_request
           \<lparr>ks_redis = snd (revoke_project_key (Some mem_redis) 5 2 3 [sample_key] (\<lambda>_. None)), ks_keys = [sample_key]\<rparr>)"
        and s = "snd (revoke_project_key (Some mem_redis) 5 2 3 [sample_key] (\<lambda>_. None))"
        and D = "\<lparr>ds_factory = Some True, ds_write = False\<rparr>" and now = 0 and org = 5 and proj = 2 and key_id = 3])
    (simp_all add: sample_revoke)

text \<open>A creator with two permissions asks for three and for a fourth that is not one on projects.\<close>

theorem api_key_never_escalates_witness:
  "\<exists>row raw_key. create_project_key (ke_sha256 sample_keys) 0 \<lparr>kd_id = 4, kd_bytes = ''A'', kd_salt = ''s''\<rparr> 5 2 ''ci''
        [''project:write'', ''project:admin'', ''members:write'', ''project:read''] (Some 7) (Some {''project:read'', ''members:write''}) [sample_key]
        = Inr ((row, raw_key), [sample_key, row])
     \<and> raw_key = ''oz_live_13'' \<and> ak_permissions row = [''project:read''] \<and> set (ak_permissions row) \<subseteq> {''project:read'', ''members:write''}"
proof -
  have enc: "generate_api_key ''oz_live_'' ''A'' = Inr ''oz_live_13''" by code_simp
  have f: "starts_with ''project:'' ''project:write''" "starts_with ''project:'' ''project:admin''" "starts_with ''project:'' ''project:read''"
      "\<not> starts_with ''project:'' ''members:write''"
    by code_simp+
  have i: "{''project:write'', ''project:admin'', ''project:read''} \<inter> {''project:read'', ''members:write''} = {''project:read''}" by auto
  define row where "row = \<lparr>ak_id = 4, ak_organization_id = 5, ak_project_id = 2, ak_created_by = Some 7, ak_lookup_hash = ''oz_live_13'',
     ak_key_hash = ''soz_live_13'', ak_salt = ''s'', ak_prefix = ''oz_live_'', ak_name = Some ''ci'', ak_permissions = [''project:read''],
     ak_last_used_at = None, ak_expires_at = None, ak_is_revoked = False, ak_created_at = 0\<rparr>"
  have row: "create_project_key (ke_sha256 sample_keys) 0 \<lparr>kd_id = 4, kd_bytes = ''A'', kd_salt = ''s''\<rparr> 5 2 ''ci''
        [''project:write'', ''project:admin'', ''members:write'', ''project:read''] (Some 7) (Some {''project:read'', ''members:write''}) [sample_key]
        = Inr ((row, ''oz_live_13''), [sample_key, row])"
    unfolding create_project_key_def
    by (simp add: enc f i hash_api_key_def compute_lookup_hash_def api_key_create_def sample_keys_def sample_key_def row_def Let_def)
  have "ak_permissions row = [''project:read'']" by (simp add: row_def)
  then show ?thesis using api_key_never_escalates[OF row] row by auto
qed

end
