(* ===== verification/Spec2Isabelle.thy ===== *)
theory Spec2Isabelle
  imports Supersession_Single Fact_Api Fact_Pages Cursor Sorting Advisory_Locks Rate_Limit Auth_Throttle Otp Hybrid_Search Memory_Ingest Accounts Api_Keys
begin

text \<open>
  \<^bold>\<open>Verification of the core of OpenZync.\<close> OpenZync is a memory backend for agents: a FastAPI
  service over PostgreSQL and Redis that stores facts (subject, predicate, object, with a validity
  interval), supersedes old facts by new ones, mirrors them into a knowledge graph, and serves
  them to many organizations. This development models the parts that carry its logic and proves
  what makes them correct.

  \<^bold>\<open>How the parts interact.\<close> A request passes the authentication middleware
  (\<^verbatim>\<open>src/middleware/auth.py\<close>), which resolves its API key or session token, the rate limiter
  (\<^verbatim>\<open>src/middleware/rate_limit.py\<close>), on the login routes the throttle and the one-time passwords, and the
  permission dependency of its route, which looks the rights of the user up in Redis or the database. A batch of facts reaches
  \<^verbatim>\<open>FactService.ingest_facts\<close>, which claims the batch's content hash in Redis
  (\<^verbatim>\<open>IdempotencyService\<close>), runs \<^verbatim>\<open>ingest_with_supersession\<close> in a database transaction, and
  enqueues embedding jobs. The ingestion takes advisory locks on the identities of its facts, scans
  for conflicting and for retracted facts, closes the conflicts, inserts, writes the lineage log
  and queues effects (metric, cache, webhooks, graph edges) that run after the commit. Graph
  edges that lost their fact are expired by jobs, and a periodic reconciliation catches the ones
  a lost job left behind. Messages reach \<^verbatim>\<open>MemoryService.ingest\<close>, which claims the batch in Redis and
  in the table \<^verbatim>\<open>ingest_dedup\<close>, masks personal data, numbers and inserts the episodes, stores the
  attachments in S3, commits, and fans the enrichment tasks out to the queues. Searches run five legs over episodes, facts and
  the graph and fuse their ranks. Lists are served in pages by keyset cursors.

  \<^bold>\<open>Theories and sources.\<close>
  \<^item> \<open>Prelude\<close>: exceptions as values, the state-and-exception steps \<open>sx\<close>, Python strings, UTF-8,
    stable sorting. \<open>Redis\<close>: the commands the code sends, as the record \<open>redis\<close> of operations on a
    server state; the locale \<open>redis_server\<close> states their laws relative to a view of the store and
    is interpreted by the reference store \<open>mem_redis\<close> and by a server that counts its commands.
    Lemmas are proved on \<open>mem_redis\<close> and transferred by simulation. \<open>Job_Queue\<close>: queue names
    (\<^verbatim>\<open>src/core/queue_names.py\<close>) and the locale \<open>arq_queue\<close> of the job queue.
  \<^item> \<open>Fact_Repository\<close>: the fact table, its exclusion constraint and the statements of
    \<^verbatim>\<open>src/repositories/fact_repository.py\<close>; the locale \<open>postgres\<close> states what is relied on of the
    database. \<open>Fact_Pages\<close>: \<^verbatim>\<open>list_by_session\<close>.
  \<^item> \<open>Conflict_Matching\<close>, \<open>Supersession\<close>: \<^verbatim>\<open>src/services/facts/conflict_matching.py\<close>,
    \<^verbatim>\<open>persistence.py\<close> and \<^verbatim>\<open>supersession_ingest.py\<close>. \<open>Supersession_Frame\<close>,
    \<open>Supersession_Invariant\<close>, \<open>Supersession_Correct\<close>, \<open>Supersession_Spec\<close> and \<open>Supersession_Single\<close>
    hold the proofs: what an ingestion may touch, the invariant of its loops, exact counts, tombstones,
    and the refinement of an abstract specification for one fact.
  \<^item> \<open>Post_Commit\<close>: the effect queue of \<^verbatim>\<open>src/services/facts/post_commit_effects.py\<close> as a step relation
    of a session. \<open>Edge_Sync\<close>: \<^verbatim>\<open>src/services/graph_edge_sync_service.py\<close>, the expiry statement of the
    PostgreSQL graph backend, the expiry job and the reconciliation task. \<open>Advisory_Locks\<close>: the
    interleaved lock acquisition of concurrent writers.
  \<^item> \<open>Idempotency\<close>: \<^verbatim>\<open>src/services/idempotency_service.py\<close> and the enrichment bits of episodes.
    \<open>Fact_Service\<close>, \<open>Fact_Api\<close>: \<^verbatim>\<open>src/services/fact_service.py\<close> and
    \<^verbatim>\<open>src/services/facts/llm_invalidation.py\<close>.
  \<^item> \<open>Cursor\<close>, \<open>Sorting\<close>: \<^verbatim>\<open>src/core/cursor.py\<close>, \<^verbatim>\<open>src/domain/value_objects/cursor.py\<close>,
    \<^verbatim>\<open>src/core/sorting.py\<close>.
  \<^item> \<open>Fusion\<close>, \<open>Hybrid_Search\<close>: \<^verbatim>\<open>src/services/retrieval\<close> with the rerankers of \<^verbatim>\<open>src/packages/reranker\<close>: rank
    fusion, the contract \<open>reranker\<close> and its two implementations, the five legs and how a search degrades.
  \<^item> \<open>Pii\<close>: \<^verbatim>\<open>src/services/pii_service.py\<close>, detections, their merge and masking. \<open>Blob_Ingest\<close>:
    \<^verbatim>\<open>src/services/memory/blob_ingest.py\<close>, \<^verbatim>\<open>src/services/blob_storage_service.py\<close> and the names and keys of
    \<^verbatim>\<open>src/core/blob_storage.py\<close> over the locale \<open>object_store\<close>. \<open>Fan_Out\<close>:
    \<^verbatim>\<open>src/services/memory/per_episode.py\<close> and \<^verbatim>\<open>enqueue_tasks.py\<close>; the locale \<open>fan_out\<close> joins the laws of
    Redis and of the queue. \<open>Memory_Ingest\<close>: \<^verbatim>\<open>src/services/memory/ingest.py\<close> with \<^verbatim>\<open>dedup_claim.py\<close>,
    \<^verbatim>\<open>episode_write.py\<close> and \<^verbatim>\<open>pii_redaction.py\<close>: acceptance, storage at most once, and what a failure undoes.
  \<^item> \<open>Rate_Limit\<close>, \<open>Auth_Throttle\<close>, \<open>Otp\<close>: \<^verbatim>\<open>src/middleware/rate_limit.py\<close>,
    \<^verbatim>\<open>src/middleware/auth_throttle.py\<close>, \<^verbatim>\<open>src/services/otp_service.py\<close>. \<open>Webhooks\<close>: the endpoint
    repository and service and the delivery job.
  \<^item> \<open>Accounts\<close>: users and refresh tokens of \<^verbatim>\<open>src/repositories/auth_repository.py\<close> and their rotation in
    \<^verbatim>\<open>src/services/auth/token.py\<close>, refined to a session with one live token.
  \<^item> \<open>Cache\<close>: Redis as a cache whose commands may fail, as the locale \<open>cache_server\<close>, which every
    \<open>redis_server\<close> satisfies and a server with a list of faults as well; \<open>cache_aside\<close> extends it by one entry of
    limited life and shows how old a hit can be. \<open>Authorization\<close>: \<^verbatim>\<open>src/core/rbac.py\<close> and
    \<^verbatim>\<open>src/dependencies/auth.py\<close>; the locale \<open>rbac_server\<close> has the three cached lookups as sublocales.
    \<open>Api_Keys\<close>: \<^verbatim>\<open>src/utils/crypto.py\<close>, the key table, \<^verbatim>\<open>src/services/api_key_service.py\<close> and
    \<^verbatim>\<open>src/middleware/auth.py\<close>; the locale \<open>key_server\<close> adds the laws of the codec of cached keys. Traces of
    requests, writes, deletions and time show what a request that gets through had presented.

  \<^bold>\<open>Conventions.\<close> A Python method is a function of the same name; a database transaction is a
  function on \<open>fact_db\<close> that an exception discards, a step on Redis or a queue keeps what it did
  before it raised. Timestamps are integers (microseconds), floats are rationals, UUIDs are
  natural numbers, a string is its UTF-8 bytes. Logging, metrics and tracing are left out, and
  exceptions carry no message. Clocks, random ids, hashes, JSON and date parsing, mail, Transit
  and the database's scan order are parameters.

  \<^bold>\<open>Bounds and fuel.\<close> Loops over lists are structural recursions. The delivery job recurses on its
  attempt number with a termination proof, the bounded read of an upload on what is left of the
  stream. The client that follows page cursors takes a number of
  pages; the completeness theorem shows that one more than the number of rows is enough. The digits of
  a key are a recursion on its number with a termination proof; the walk over the successors of a
  refresh token takes the code's own limit of 30 hops, which covers the family for up to 31 requests.

  \<^bold>\<open>Not modelled.\<close> The graph backends other than the expiry statement, LLM, embedding and secret-store
  clients, the verification of signed tokens, the sign-up, login and invite services, the worker bootstrap, the regular expressions and the NER model of PII detection, the CRUD services of organizations,
  projects, sessions and users, HTTP routing and schemas, reporting and migrations: they are
  adapters to external systems or SQL without logic of their own. Row-level security, asynchronous
  cancellation and the SQL collation (text is compared bytewise) are not modelled either.
\<close>

end
